(* ===== verification/Prelude.thy ===== *)
theory Prelude
  imports Main "HOL-Library.Word" "HOL-Library.Monad_Syntax"
begin

unbundle bit_operations_syntax

text \<open>
  The shared vocabulary of the development: the machine integer types of the target
  (amd64, so \<open>usize\<close> is 64 bits wide), the constants of the memory layout that every
  component uses, the conventions for panics and for \<open>Result\<close>, and the generic lemmas on
  lists, options and words that the component theories rely on.

  Conventions.
  \<^item> A function that may panic (index out of range, \<open>unwrap\<close> on \<open>None\<close>, \<open>unreachable!\<close>,
    \<open>todo!\<close>, \<open>assert!\<close>) returns \<open>'a panics\<close>; \<open>None\<close> is the panic. The \<open>do\<close> notation
    sequences such functions.
  \<^item> Rust's \<open>Result<T, E>\<close> is \<open>'e + 't\<close>, with \<open>Inl\<close> for \<open>Err\<close> and \<open>Inr\<close> for \<open>Ok\<close>.
  \<^item> Addresses and counts that stay far below the word size are natural numbers; the places
    where a machine integer can wrap keep its width.
\<close>

section \<open>Machine integers\<close>

type_synonym u8 = "8 word"
type_synonym u16 = "16 word"
type_synonym u32 = "32 word"
type_synonym u64 = "64 word"
type_synonym u128 = "128 word"
type_synonym usize = "64 word"
type_synonym i64 = "64 word"

text \<open>The result of code that may panic: \<open>None\<close> is the panic.\<close>

type_synonym 'a panics = "'a option"

definition usize_MAX :: nat where
  "usize_MAX = 2 ^ 64 - 1"

definition isize_MAX :: nat where
  "isize_MAX = 2 ^ 63 - 1"

lemma isize_less_usize: "isize_MAX < usize_MAX"
  by (simp add: isize_MAX_def usize_MAX_def)

text \<open>
  \<open>assert!\<close> and slice indexing: a failed check is a panic.
\<close>

definition assert :: "bool \<Rightarrow> unit panics" where
  "assert b = (if b then Some () else None)"

lemma assert_simps [simp]:
  "assert True = Some ()" "assert False = None"
  by (simp_all add: assert_def)

lemma assert_eq_Some [simp]: "assert b = Some u \<longleftrightarrow> b"
  by (simp add: assert_def)

lemma bind_assert [simp]: "Option.bind (assert b) f = (if b then f () else None)"
  by (simp add: assert_def)

lemma bind_eq_SomeE [elim!]:
  assumes "Option.bind m f = Some y"
  obtains x where "m = Some x" and "f x = Some y"
  using assms by (cases m) auto

definition nth_opt :: "'a list \<Rightarrow> nat \<Rightarrow> 'a option" where
  "nth_opt xs i = (if i < length xs then Some (xs ! i) else None)"

lemma nth_opt_Some_iff [simp]: "nth_opt xs i = Some x \<longleftrightarrow> i < length xs \<and> xs ! i = x"
  by (auto simp: nth_opt_def)

lemma nth_opt_None_iff [simp]: "nth_opt xs i = None \<longleftrightarrow> length xs \<le> i"
  by (auto simp: nth_opt_def)

lemma nth_opt_update:
  "nth_opt (xs[i := v]) j = (if i = j \<and> i < length xs then Some v else nth_opt xs j)"
  by (simp add: nth_opt_def)

lemma nth_opt_append: "nth_opt (xs @ [v]) j = (if j = length xs then Some v else nth_opt xs j)"
  by (auto simp: nth_opt_def nth_append)

section \<open>Words\<close>

lemma unat_bound: "unat (w :: 'n::len word) < 2 ^ LENGTH('n)"
  by (rule unsigned_less)

lemma unat_ucast_up:
  "LENGTH('a) \<le> LENGTH('b) \<Longrightarrow> unat (ucast (w :: 'a::len word) :: 'b::len word) = unat w"
proof -
  assume "LENGTH('a) \<le> LENGTH('b)"
  then have "unat w < 2 ^ LENGTH('b)"
    by (meson less_le_trans one_le_numeral power_increasing unat_bound)
  then show ?thesis by (simp add: unsigned_ucast_eq take_bit_eq_mod)
qed

lemma unat_of_nat_small: "n < 2 ^ LENGTH('n) \<Longrightarrow> unat (of_nat n :: 'n::len word) = n"
  by (simp add: unsigned_of_nat take_bit_nat_eq_self)

lemma bit_exp_word: "bit (2 ^ k :: 'n::len word) i \<longleftrightarrow> i < LENGTH('n) \<and> i = k"
  by (auto simp: bit_exp_iff)

lemma unat_and_mask: "k \<le> 32 \<Longrightarrow> unat ((x :: u32) AND mask k) = unat x mod 2 ^ k"
proof -
  assume "k \<le> 32"
  have "unat (x AND mask k) = unat (take_bit k x)" by (simp only: take_bit_eq_mask)
  also have "\<dots> = take_bit k (unat x)" using \<open>k \<le> 32\<close> by (simp only: unsigned_take_bit_eq)
  finally show ?thesis by (simp only: take_bit_eq_mod)
qed

lemma word_of_nat_unat: "of_nat (unat w) = (w :: 'n::len word)"
  by simp

lemma sint64_if: "sint (n :: 64 word) = (if uint n < 2 ^ 63 then uint n else uint n - 2 ^ 64)"
proof -
  have b: "0 \<le> uint n" "uint n < 2 ^ 64" using uint_lt2p [of n] by auto
  have "sint n = (uint n + 2 ^ 63) mod 2 ^ 64 - 2 ^ 63"
    by (simp add: sint_uint signed_take_bit_eq_take_bit_shift take_bit_eq_mod)
  moreover have "(uint n + 2 ^ 63) mod 2 ^ 64 = (if uint n < 2 ^ 63 then uint n + 2 ^ 63 else uint n - 2 ^ 63)"
    using b mod_add_self2 [of "uint n - 2 ^ 63" "2 ^ 64"]
    by (auto simp: algebra_simps)
  ultimately show ?thesis by (simp split: if_splits)
qed

lemma uint64_minus_1 [simp]: "uint (- 1 :: 64 word) = 18446744073709551615"
  by (simp add: unsigned_minus_1_eq_mask mask_eq_exp_minus_1)

section \<open>Collections of simplification rules\<close>

named_theorems inv_defs \<open>definitions of the component invariants\<close>
named_theorems op_defs \<open>definitions of the operations of the model\<close>

section \<open>Counting list elements\<close>

lemma length_filter_update:
  assumes "i < length xs"
  shows "length (filter P (xs[i := v])) + (if P (xs ! i) then 1 else 0)
       = length (filter P xs) + (if P v then 1 else 0)"
  using assms
proof (induction xs arbitrary: i)
  case (Cons x xs)
  then show ?case by (cases i) auto
qed simp

lemma length_filter_pos:
  assumes "i < length xs" and "P (xs ! i)"
  shows "0 < length (filter P xs)"
  using assms nth_mem [OF assms(1)] by (auto simp: filter_empty_conv)

lemma length_filter_flip:
  assumes "i < length xs" and "P (xs ! i)" and "\<not> P v"
  shows "length (filter P (xs[i := v])) = length (filter P xs) - 1"
  using length_filter_update [of i xs P v] length_filter_pos [of i xs P] assms by simp

lemma length_filter_set:
  assumes "i < length xs" and "\<not> P (xs ! i)" and "P v"
  shows "length (filter P (xs[i := v])) = Suc (length (filter P xs))"
  using length_filter_update [of i xs P v] assms by simp

section \<open>Pages\<close>

text \<open>Constants of \<open>kernel/src/memory/mod.rs\<close>.\<close>

definition PAGE_SIZE :: nat where
  "PAGE_SIZE = 4096"

definition PAGE_MASK :: nat where
  "PAGE_MASK = 4095"

text \<open>The sum wraps as in a release build.\<close>

definition min_pages_for_bytes :: "nat \<Rightarrow> nat" where
  "min_pages_for_bytes bytes = ((bytes + PAGE_SIZE - 1) mod 2 ^ 64) div PAGE_SIZE"

lemma PAGE_SIZE_pos [simp]: "0 < PAGE_SIZE"
  by (simp add: PAGE_SIZE_def)

lemma min_pages_for_bytes_eq:
  assumes "bytes \<le> isize_MAX"
  shows "min_pages_for_bytes bytes = (bytes + PAGE_SIZE - 1) div PAGE_SIZE"
  using assms by (simp add: min_pages_for_bytes_def PAGE_SIZE_def isize_MAX_def)

lemma min_pages_for_bytes_covers:
  assumes "bytes \<le> isize_MAX" shows "bytes \<le> min_pages_for_bytes bytes * PAGE_SIZE"
  unfolding min_pages_for_bytes_eq [OF assms] PAGE_SIZE_def
  using div_mult_mod_eq [of "bytes + 4095" 4096] mod_less_divisor [of 4096 "bytes + 4095"]
  by simp

lemma min_pages_for_bytes_least:
  assumes "bytes \<le> isize_MAX" and "bytes \<le> n * PAGE_SIZE"
  shows "min_pages_for_bytes bytes \<le> n"
proof -
  have "(bytes + 4095) div 4096 \<le> (n * 4096 + 4095) div 4096"
    using assms(2) by (intro div_le_mono) (simp add: PAGE_SIZE_def)
  then show ?thesis by (simp add: min_pages_for_bytes_eq [OF assms(1)] PAGE_SIZE_def)
qed

section \<open>Decimal numbers\<close>

text \<open>
  \<open>to_string\<close> and \<open>parse::<usize>\<close> of the Rust standard library on bytes: an optional plus sign,
  at least one digit, and no value above \<open>usize::MAX\<close>.
\<close>

fun to_string :: "nat \<Rightarrow> u8 list" where
  "to_string n = (if n < 10 then [of_nat (48 + n)]
     else to_string (n div 10) @ [of_nat (48 + n mod 10)])"

declare to_string.simps [simp del]

fun parse_digits :: "nat \<Rightarrow> u8 list \<Rightarrow> nat option" where
  "parse_digits acc [] = Some acc"
| "parse_digits acc (b # bs) =
     (if 48 \<le> b \<and> b \<le> 57 then
        let acc = acc * 10 + unat (b - 48) in
        if acc \<le> usize_MAX then parse_digits acc bs else None
      else None)"

definition parse_usize :: "u8 list \<Rightarrow> nat option" where
  "parse_usize bs =
     (if bs = [] \<or> bs = [43] then None
      else if hd bs = 43 then parse_digits 0 (tl bs) else parse_digits 0 bs)"

lemma parse_digits_append:
  "parse_digits acc (bs @ [b]) = Option.bind (parse_digits acc bs) (\<lambda>acc. parse_digits acc [b])"
  by (induction acc bs rule: parse_digits.induct) (auto simp: Let_def)

lemma digit_word:
  assumes "d < 10"
  shows "(48 :: u8) \<le> of_nat (48 + d)" "of_nat (48 + d) \<le> (57 :: u8)" "unat (of_nat (48 + d) - 48 :: u8) = d"
proof -
  have "unat (of_nat (48 + d) :: u8) = 48 + d" using assms by (subst unat_of_nat_small) simp_all
  then show "(48 :: u8) \<le> of_nat (48 + d)" "of_nat (48 + d) \<le> (57 :: u8)"
    using assms unfolding word_le_nat_alt by simp_all
  have "(of_nat (48 + d) - 48 :: u8) = of_nat d" by simp
  then show "unat (of_nat (48 + d) - 48 :: u8) = d"
    using assms by (simp only:) (subst unat_of_nat_small, simp_all)
qed

lemma parse_digits_one:
  "d < 10 \<Longrightarrow> acc * 10 + d \<le> usize_MAX \<Longrightarrow> parse_digits acc [of_nat (48 + d)] = Some (acc * 10 + d)"
  using digit_word [of d] by (simp add: Let_def del: of_nat_add)

lemma parse_digits_to_string: "n \<le> usize_MAX \<Longrightarrow> parse_digits 0 (to_string n) = Some n"
proof (induction n rule: to_string.induct)
  case (1 n)
  show ?case
  proof (cases "n < 10")
    case True
    then show ?thesis using parse_digits_one [of n 0] "1.prems" by (subst to_string.simps) simp
  next
    case False
    have "parse_digits 0 (to_string (n div 10)) = Some (n div 10)"
      using "1.IH" [OF False] "1.prems" by (meson div_le_dividend le_trans)
    then show ?thesis
      using False parse_digits_one [of "n mod 10" "n div 10"] "1.prems"
      by (subst to_string.simps) (simp add: parse_digits_append del: of_nat_add parse_digits.simps)
  qed
qed

lemma hd_to_string: "to_string n \<noteq> [] \<and> hd (to_string n) \<noteq> 43"
proof (induction n rule: to_string.induct)
  case (1 n)
  have "of_nat (48 + n) \<noteq> (43 :: u8)" if "n < 10"
    using digit_word(1) [OF that] by (auto simp del: of_nat_add)
  then show ?case using "1.IH" by (subst (1 2) to_string.simps) (simp del: of_nat_add)
qed

lemma parse_to_string: "n \<le> usize_MAX \<Longrightarrow> parse_usize (to_string n) = Some n"
  using hd_to_string [of n] parse_digits_to_string [of n]
  by (auto simp: parse_usize_def)

lemma length_to_string: "0 < k \<Longrightarrow> n < 10 ^ k \<Longrightarrow> length (to_string n) \<le> k"
proof (induction k arbitrary: n)
  case (Suc k)
  show ?case
  proof (cases "n < 10")
    case True
    then show ?thesis by (subst to_string.simps) simp
  next
    case False
    then have "0 < k" using Suc.prems by (cases k) auto
    moreover have "n div 10 < 10 ^ k" using Suc.prems by (simp add: less_mult_imp_div_less mult.commute)
    ultimately show ?thesis using False Suc.IH [of "n div 10"] by (subst to_string.simps) simp
  qed
qed simp

end
