(* ===== verification/Linked_Stack.thy ===== *)
theory Linked_Stack
  imports Prelude
begin

text \<open>
  Several components keep a stack of free cells whose links are stored inside the cells themselves:
  the frame allocator (the next frame number is written at the start of a free page), the virtqueue
  (the \<open>next\<close> field of a free descriptor) and the stream tables (the first word of a free block).
  This theory holds what they share: the predicate \<open>links\<close> that relates a head and a link function to
  the list of cells it visits, and the interface \<open>link_store\<close> of a store that can read and write a
  link, with the push and pop lemmas proved once for it.
\<close>

text \<open>
  \<open>links f h xs\<close>: following \<open>f\<close> from \<open>h\<close> visits the cells \<open>xs\<close>. The stacks end by a counter, so
  nothing is said about the link of the last cell.
\<close>

fun links :: "('a \<Rightarrow> 'a) \<Rightarrow> 'a \<Rightarrow> 'a list \<Rightarrow> bool" where
  "links f h [] \<longleftrightarrow> True"
| "links f h (x # xs) \<longleftrightarrow> h = x \<and> links f (f x) xs"

text \<open>The cells visited in \<open>n\<close> steps, as a function.\<close>

fun cells :: "('a \<Rightarrow> 'a) \<Rightarrow> 'a \<Rightarrow> nat \<Rightarrow> 'a list" where
  "cells f h 0 = []"
| "cells f h (Suc n) = h # cells f (f h) n"

lemma length_cells [simp]: "length (cells f h n) = n"
  by (induction n arbitrary: h) auto

lemma links_iff_cells: "links f h xs \<longleftrightarrow> xs = cells f h (length xs)"
  by (induction xs arbitrary: h) auto

lemma links_cong: "(\<And>x. x \<in> set xs \<Longrightarrow> f x = g x) \<Longrightarrow> links f h xs = links g h xs"
  by (induction xs arbitrary: h) auto

lemma cells_cong: "(\<And>x. x \<in> set (cells f h n) \<Longrightarrow> f x = g x) \<Longrightarrow> cells f h n = cells g h n"
proof (induction n arbitrary: h)
  case (Suc n)
  have fh: "f h = g h" by (rule Suc.prems) simp
  have "cells f (f h) n = cells g (f h) n" by (rule Suc.IH) (rule Suc.prems, simp)
  with fh show ?case by simp
qed simp

lemma links_upd [simp]: "a \<notin> set xs \<Longrightarrow> links (f(a := b)) h xs = links f h xs"
  by (rule links_cong) auto

lemma links_append:
  "links f h (xs @ ys) \<longleftrightarrow> links f h xs \<and> links f (if xs = [] then h else f (last xs)) ys"
  by (induction xs arbitrary: h) auto

locale link_store =
  fixes rd :: "'m \<Rightarrow> 'a \<Rightarrow> 'a"
    and wr :: "'m \<Rightarrow> 'a \<Rightarrow> 'a \<Rightarrow> 'm"
  assumes rd_wr: "rd (wr m a b) = (rd m)(a := b)"
begin

text \<open>Pushing a cell that is not on the stack, and popping the head.\<close>

lemma links_push: "links (rd m) h xs \<Longrightarrow> a \<notin> set xs \<Longrightarrow> links (rd (wr m a h)) a (a # xs)"
  by (simp add: rd_wr)

lemma links_pop: "links (rd m) h (x # xs) \<Longrightarrow> h = x \<and> links (rd m) (rd m h) xs"
  by simp

lemma links_wr_other: "a \<notin> set xs \<Longrightarrow> links (rd (wr m a b)) h xs = links (rd m) h xs"
  by (simp add: rd_wr)

text \<open>A push followed by a pop restores the head and the cells below.\<close>

lemma push_pop:
  assumes "links (rd m) h xs" and "a \<notin> set xs"
  shows "rd (wr m a h) a = h \<and> links (rd (wr m a h)) h xs"
  using assms by (simp add: rd_wr)

end

end
