(* ===== verification/Frame_Allocator.thy ===== *)
theory Frame_Allocator
  imports Linked_Stack
begin

text \<open>
  Physical memory and the frame allocator: \<open>kernel/src/memory/frame\<close> and the memory regions of
  \<open>kernel/src/boot.rs\<close>.

  Physical memory is seen through the identity map as 512 words of 64 bits per frame; a frame is
  named by its page number, 32 bits wide in the default configuration (\<open>mem-max-16t\<close>). The free
  frames are a stack (\<open>Chain\<close>) whose links live in the free frames. A part of the first large
  region is set aside for DMA and managed by a bitmap (\<open>FixedBitmap\<close>).
\<close>

section \<open>Physical memory\<close>

type_synonym ppn = u32
type_synonym page = "nat \<Rightarrow> u64"
type_synonym phys_mem = "ppn \<Rightarrow> page"

definition write_bytes_page :: "phys_mem \<Rightarrow> ppn \<Rightarrow> u8 \<Rightarrow> phys_mem" where
  "write_bytes_page m p b = m(p := \<lambda>_. word_rcat (replicate 8 b))"

definition clear_page :: "phys_mem \<Rightarrow> ppn \<Rightarrow> phys_mem" where
  "clear_page m p = m(p := \<lambda>_. 0)"

text \<open>
  The first four bytes of a page, where a free frame keeps the number of the next one: the low half
  of the first word (the target is little endian).
\<close>

definition read_ppn :: "phys_mem \<Rightarrow> ppn \<Rightarrow> ppn" where
  "read_ppn m p = ucast (m p 0)"

definition write_ppn :: "phys_mem \<Rightarrow> ppn \<Rightarrow> ppn \<Rightarrow> phys_mem" where
  "write_ppn m p q = m(p := (m p)(0 := (m p 0 AND push_bit 32 (mask 32)) OR ucast q))"

text \<open>Byte \<open>i\<close> of a page.\<close>

definition write_byte :: "phys_mem \<Rightarrow> ppn \<Rightarrow> nat \<Rightarrow> u8 \<Rightarrow> phys_mem" where
  "write_byte m p i b =
     m(p := (m p)(i div 8 := (m p (i div 8) AND NOT (push_bit (8 * (i mod 8)) 255))
                              OR push_bit (8 * (i mod 8)) (ucast b)))"

definition read_byte :: "phys_mem \<Rightarrow> ppn \<Rightarrow> nat \<Rightarrow> u8" where
  "read_byte m p i = ucast (drop_bit (8 * (i mod 8)) (m p (i div 8)))"

lemma bit_push_mask: "bit (push_bit 32 (mask 32) :: u64) n \<longleftrightarrow> 32 \<le> n \<and> n < 64"
  by (auto simp: bit_simps)

lemma read_write_ppn_same: "read_ppn (write_ppn m p q) p = q"
  unfolding read_ppn_def write_ppn_def
  by (rule bit_word_eqI) (auto simp: bit_simps bit_push_mask)

lemma read_write_ppn: "read_ppn (write_ppn m p q) = (read_ppn m)(p := q)"
proof
  fix r
  show "read_ppn (write_ppn m p q) r = ((read_ppn m)(p := q)) r"
    by (cases "r = p") (simp_all add: read_write_ppn_same, simp add: read_ppn_def write_ppn_def)
qed

lemma byte_bit_bound: "n < 8 \<Longrightarrow> 8 * (i mod 8) + n < (64::nat)"
  using mod_less_divisor [of 8 i] by linarith

lemma mask_byte: "(255 :: u64) = mask 8"
  by (simp add: mask_eq_exp_minus_1)

lemma read_write_byte_same: "read_byte (write_byte m p i b) p i = b"
  unfolding read_byte_def write_byte_def mask_byte
  by (intro bit_word_eqI) (auto simp: bit_simps byte_bit_bound)

lemma read_write_byte_other:
  assumes "p \<noteq> q \<or> i \<noteq> j"
  shows "read_byte (write_byte m p i b) q j = read_byte m q j"
proof (cases "p = q \<and> i div 8 = j div 8")
  case True
  with assms have ne: "i mod 8 \<noteq> j mod 8" by (metis div_mult_mod_eq)
  have k: "(8 * (i mod 8) \<le> 8 * (j mod 8) + n \<and> 8 * (j mod 8) + n - 8 * (i mod 8) < 8) = False"
    if "n < 8" for n
    using ne that by auto
  show ?thesis
    unfolding read_byte_def write_byte_def mask_byte
    using True k by (intro bit_word_eqI) (auto simp: bit_simps byte_bit_bound dest: bit_imp_le_length)
next
  case False
  then show ?thesis by (auto simp: read_byte_def write_byte_def)
qed

interpretation frame_links: link_store read_ppn write_ppn
  by unfold_locales (rule read_write_ppn)

section \<open>Physical page numbers\<close>

datatype PPNError = Misaligned | OutOfRange

definition try_from_usize :: "nat \<Rightarrow> PPNError + ppn" where
  "try_from_usize ptr =
     (if ptr mod PAGE_SIZE = 0 then
        (let q = ptr div PAGE_SIZE in
         if q < 2 ^ 32 then Inr (of_nat q) else Inl OutOfRange)
      else Inl Misaligned)"

definition as_phys :: "ppn \<Rightarrow> nat" where
  "as_phys p = unat p * PAGE_SIZE"

definition ppn_next :: "ppn \<Rightarrow> ppn" where
  "ppn_next p = p + 1"

definition skip :: "ppn \<Rightarrow> u32 \<Rightarrow> ppn" where
  "skip p n = p + n"

text \<open>
  \<open>TryFrom<PPN>\<close> for an integer type of \<open>'n\<close> bits: the number must fit the type, and \<open>checked_shl\<close>
  answers \<open>None\<close> only when the shift distance is not smaller than the width.
\<close>

definition try_into_phys :: "ppn \<Rightarrow> 'n::len word option" where
  "try_into_phys p =
     (if unat p < 2 ^ LENGTH('n)
      then (if 12 < LENGTH('n) then Some (push_bit 12 (of_nat (unat p))) else None)
      else None)"

record page_frame_iter =
  it_base :: ppn
  it_count :: nat

definition page_frame_next :: "page_frame_iter \<Rightarrow> (ppn \<times> page_frame_iter) option" where
  "page_frame_next it =
     (if it_count it = 0 then None
      else Some (it_base it, it\<lparr>it_base := ppn_next (it_base it), it_count := it_count it - 1\<rparr>))"

lemma try_from_usize_as_phys: "try_from_usize (as_phys p) = Inr p"
  using unat_bound [of p] by (simp add: try_from_usize_def as_phys_def)

lemma try_from_usize_Inr: "try_from_usize ptr = Inr p \<Longrightarrow> as_phys p = ptr"
  by (auto simp: try_from_usize_def as_phys_def Let_def unat_of_nat split: if_splits)

lemma try_into_phys_u64: "\<exists>w :: u64. try_into_phys p = Some w \<and> unat w = as_phys p"
proof -
  have p: "unat p < 2 ^ 32" using unat_bound [of p] by simp
  then have "unat (push_bit 12 (of_nat (unat p)) :: u64) = unat p * 4096"
    by (simp add: push_bit_eq_mult unat_word_ariths unat_ucast_up)
  with p show ?thesis by (simp add: try_into_phys_def as_phys_def PAGE_SIZE_def)
qed

section \<open>The chain of free frames\<close>

record chain =
  ch_head :: ppn
  ch_count :: nat

definition chain_new :: chain where
  "chain_new = \<lparr>ch_head = 0, ch_count = 0\<rparr>"

text \<open>
  \<open>dbg\<close> is \<open>cfg(debug_assertions)\<close>: a debug build fills a freed frame with \<open>0x69\<close>.
\<close>

definition chain_push :: "bool \<Rightarrow> ppn \<Rightarrow> chain \<times> phys_mem \<Rightarrow> chain \<times> phys_mem" where
  "chain_push dbg p = (\<lambda>(c, m).
     let prev = ch_head c;
         m = (if dbg then write_bytes_page m p 0x69 else m)
     in (c\<lparr>ch_head := p, ch_count := ch_count c + 1\<rparr>, write_ppn m p prev))"

definition chain_pop :: "chain \<times> phys_mem \<Rightarrow> (ppn \<times> chain \<times> phys_mem) option" where
  "chain_pop = (\<lambda>(c, m).
     if ch_count c = 0 then None
     else Some (ch_head c,
                (c\<lparr>ch_count := ch_count c - 1, ch_head := read_ppn m (ch_head c)\<rparr>, m)))"

text \<open>
  The invariant: \<open>ch_count\<close> distinct frames are reachable from the head. \<open>free_frames\<close> lists them,
  the next to be popped first.
\<close>

definition free_frames :: "chain \<times> phys_mem \<Rightarrow> ppn list" where
  "free_frames s = cells (read_ppn (snd s)) (ch_head (fst s)) (ch_count (fst s))"

definition chain_inv :: "chain \<times> phys_mem \<Rightarrow> bool" where
  "chain_inv s \<longleftrightarrow> distinct (free_frames s)"

lemma read_ppn_cong: "m p 0 = m' p 0 \<Longrightarrow> read_ppn m p = read_ppn m' p"
  by (simp add: read_ppn_def)

text \<open>The free list only depends on the contents of free frames.\<close>

lemma free_frames_cong:
  assumes "\<And>p. p \<in> set (free_frames (c, m)) \<Longrightarrow> m' p = m p"
  shows "free_frames (c, m') = free_frames (c, m)"
  using cells_cong [of "read_ppn m" "ch_head c" "ch_count c" "read_ppn m'"] assms
  by (auto simp: free_frames_def read_ppn_def)

lemma free_frames_new [simp]: "free_frames (chain_new, m) = []"
  by (simp add: free_frames_def chain_new_def)

lemma length_free_frames [simp]: "length (free_frames (c, m)) = ch_count c"
  by (simp add: free_frames_def)

lemma free_frames_push:
  assumes "p \<notin> set (free_frames s)"
  shows "free_frames (chain_push dbg p s) = p # free_frames s"
proof -
  obtain c m where s: "s = (c, m)" by fastforce
  let ?m = "if dbg then write_bytes_page m p 0x69 else m"
  have "free_frames (c, write_ppn ?m p (ch_head c)) = free_frames (c, m)"
  proof (rule free_frames_cong)
    fix q assume "q \<in> set (free_frames (c, m))"
    with assms s have "q \<noteq> p" by auto
    then show "write_ppn ?m p (ch_head c) q = m q"
      by (simp add: write_ppn_def write_bytes_page_def)
  qed
  then show ?thesis
    using s by (simp add: chain_push_def Let_def free_frames_def read_write_ppn_same)
qed

lemma chain_push_inv: "chain_inv s \<Longrightarrow> p \<notin> set (free_frames s) \<Longrightarrow> chain_inv (chain_push dbg p s)"
  by (simp add: chain_inv_def free_frames_push)

lemma free_frames_pop:
  "chain_pop s = (case free_frames s of [] \<Rightarrow> None
     | p # ps \<Rightarrow> Some (p, (fst s)\<lparr>ch_count := ch_count (fst s) - 1,
                            ch_head := read_ppn (snd s) (ch_head (fst s))\<rparr>, snd s))"
  by (cases s; cases "ch_count (fst s)") (auto simp: chain_pop_def free_frames_def)

lemma chain_pop_Some:
  assumes "chain_pop s = Some (p, s')"
  shows "free_frames s = p # free_frames s' \<and> snd s' = snd s"
  using assms
  by (cases s; cases "ch_count (fst s)") (auto simp: chain_pop_def free_frames_def)

lemma chain_pop_None: "chain_pop s = None \<longleftrightarrow> free_frames s = []"
  by (simp add: free_frames_pop split: list.splits)

lemma chain_pop_Cons:
  assumes "free_frames s = p # ps"
  shows "\<exists>s'. chain_pop s = Some (p, s') \<and> free_frames s' = ps \<and> snd s' = snd s"
proof -
  from assms obtain q s' where pop: "chain_pop s = Some (q, s')"
    using chain_pop_None [of s] by (cases "chain_pop s") auto
  with chain_pop_Some [OF pop] assms show ?thesis by simp
qed

section \<open>Allocation and deallocation\<close>

datatype AllocateError = OutOfFrames

text \<open>
  \<open>allocate\<close> hands every popped frame to a callback; the model returns the frames in the order of
  the calls. The \<open>unwrap\<close> of the pop is a panic.
\<close>

fun pop_many :: "nat \<Rightarrow> chain \<times> phys_mem \<Rightarrow> (ppn list \<times> chain \<times> phys_mem) panics" where
  "pop_many 0 s = Some ([], s)"
| "pop_many (Suc n) s =
     do { (p, s) \<leftarrow> chain_pop s;
          (ps, s) \<leftarrow> pop_many n s;
          Some (p # ps, s) }"

definition allocate ::
  "nat \<Rightarrow> chain \<times> phys_mem \<Rightarrow> ((AllocateError + ppn list) \<times> chain \<times> phys_mem) panics" where
  "allocate n s =
     (if n \<le> ch_count (fst s)
      then do { (ps, s) \<leftarrow> pop_many n s; Some (Inr ps, s) }
      else Some (Inl OutOfFrames, s))"

text \<open>\<open>deallocate\<close> asks its callback for the frames one by one.\<close>

definition deallocate :: "bool \<Rightarrow> ppn list \<Rightarrow> chain \<times> phys_mem \<Rightarrow> chain \<times> phys_mem" where
  "deallocate dbg ps s = fold (chain_push dbg) ps s"

definition free_memory :: "chain \<Rightarrow> nat" where
  "free_memory c = ch_count c * 4096"

lemma pop_many_spec:
  assumes "n \<le> length (free_frames s)"
  shows "\<exists>s'. pop_many n s = Some (take n (free_frames s), s')
           \<and> free_frames s' = drop n (free_frames s) \<and> snd s' = snd s"
  using assms
proof (induction n arbitrary: s)
  case (Suc n)
  then obtain p ps where ps: "free_frames s = p # ps" by (cases "free_frames s") auto
  then obtain s' where s': "chain_pop s = Some (p, s')" "free_frames s' = ps" "snd s' = snd s"
    using chain_pop_Cons by blast
  with Suc.IH [of s'] Suc.prems ps show ?case by auto
qed simp

lemma allocate_spec:
  "\<exists>r s'. allocate n s = Some (r, s') \<and> snd s' = snd s \<and>
     (if n \<le> length (free_frames s)
      then r = Inr (take n (free_frames s)) \<and> free_frames s' = drop n (free_frames s)
      else r = Inl OutOfFrames \<and> s' = s)"
proof (cases "n \<le> length (free_frames s)")
  case True
  moreover from True have "n \<le> ch_count (fst s)" by (cases s) simp
  ultimately show ?thesis using pop_many_spec [OF True] by (auto simp: allocate_def)
next
  case False
  then have "\<not> n \<le> ch_count (fst s)" by (cases s) simp
  with False show ?thesis by (simp add: allocate_def)
qed

lemma deallocate_spec:
  assumes "distinct ps" and "set ps \<inter> set (free_frames s) = {}"
  shows "free_frames (deallocate dbg ps s) = rev ps @ free_frames s"
  using assms
proof (induction ps arbitrary: s)
  case (Cons p ps)
  then have "free_frames (chain_push dbg p s) = p # free_frames s"
    by (simp add: free_frames_push)
  with Cons.IH [of "chain_push dbg p s"] Cons.prems show ?case
    by (simp add: deallocate_def)
qed (simp add: deallocate_def)

lemma chain_push_mem: "q \<noteq> p \<Longrightarrow> snd (chain_push dbg p s) q = snd s q"
  by (cases s) (simp add: chain_push_def Let_def write_ppn_def write_bytes_page_def)

lemma deallocate_mem: "q \<notin> set ps \<Longrightarrow> snd (deallocate dbg ps s) q = snd s q"
  by (induction ps arbitrary: s) (auto simp: deallocate_def chain_push_mem)

section \<open>Owned page frames\<close>

text \<open>\<open>OwnedPageFrames\<close>: frames that are cleared when allocated and freed when dropped.\<close>

definition owned_clear :: "ppn list \<Rightarrow> phys_mem \<Rightarrow> phys_mem" where
  "owned_clear ps m = fold (\<lambda>p m. clear_page m p) ps m"

definition owned_new ::
  "nat \<Rightarrow> chain \<times> phys_mem \<Rightarrow> ((AllocateError + ppn list) \<times> chain \<times> phys_mem) panics" where
  "owned_new n s =
     do { (r, c, m) \<leftarrow> allocate n s;
          case r of Inl e \<Rightarrow> Some (Inl e, c, m)
          | Inr ps \<Rightarrow> Some (Inr ps, c, owned_clear ps m) }"

fun owned_write :: "ppn list \<Rightarrow> nat \<Rightarrow> u8 list \<Rightarrow> phys_mem \<Rightarrow> phys_mem panics" where
  "owned_write ps i [] m = Some m"
| "owned_write ps i (b # bs) m =
     do { p \<leftarrow> nth_opt ps (i div PAGE_SIZE);
          owned_write ps (Suc i) bs (write_byte m p (i mod PAGE_SIZE) b) }"

definition owned_drop :: "bool \<Rightarrow> ppn list \<Rightarrow> chain \<times> phys_mem \<Rightarrow> chain \<times> phys_mem" where
  "owned_drop dbg ps s = deallocate dbg ps s"

text \<open>Byte \<open>i\<close> of the frames laid end to end.\<close>

definition span :: "phys_mem \<Rightarrow> ppn list \<Rightarrow> nat \<Rightarrow> u8" where
  "span m ps i = read_byte m (ps ! (i div PAGE_SIZE)) (i mod PAGE_SIZE)"

lemma owned_clear_mem: "owned_clear ps m p = (if p \<in> set ps then (\<lambda>_. 0) else m p)"
  by (induction ps arbitrary: m) (auto simp: owned_clear_def clear_page_def)

lemma read_byte_zero: "m p = (\<lambda>_. 0) \<Longrightarrow> read_byte m p i = 0"
  by (simp add: read_byte_def)

lemma owned_new_ok:
  assumes inv: "chain_inv s" and n: "n \<le> length (free_frames s)"
  obtains ps s' where "owned_new n s = Some (Inr ps, s')" and "ps = take n (free_frames s)"
    and "free_frames s' = drop n (free_frames s)" and "chain_inv s'"
    and "\<And>p. snd s' p = (if p \<in> set ps then (\<lambda>_. 0) else snd s p)"
proof -
  let ?ps = "take n (free_frames s)"
  obtain c m where al: "allocate n s = Some (Inr ?ps, (c, m))"
    "free_frames (c, m) = drop n (free_frames s)" "m = snd s"
    using allocate_spec [of n s] n by fastforce
  have disj: "set ?ps \<inter> set (drop n (free_frames s)) = {}"
    using inv by (simp add: chain_inv_def set_take_disj_set_drop_if_distinct)
  have same: "free_frames (c, owned_clear ?ps m) = free_frames (c, m)"
    using disj al(2) by (intro free_frames_cong) (auto simp: owned_clear_mem)
  have "chain_inv (c, owned_clear ?ps m)"
    using same al(2) inv by (simp add: chain_inv_def)
  moreover have "owned_new n s = Some (Inr ?ps, (c, owned_clear ?ps m))"
    using al(1) by (simp add: owned_new_def)
  ultimately show thesis using that same al by (simp add: owned_clear_mem)
qed

lemma span_position_inj:
  assumes "distinct ps" and "i < length ps * PAGE_SIZE" and "j < length ps * PAGE_SIZE"
    and "ps ! (i div PAGE_SIZE) = ps ! (j div PAGE_SIZE)" and "i mod PAGE_SIZE = j mod PAGE_SIZE"
  shows "i = j"
proof -
  have "i div PAGE_SIZE < length ps" "j div PAGE_SIZE < length ps"
    using assms(2,3) by (simp_all add: less_mult_imp_div_less)
  with assms(1,4) have "i div PAGE_SIZE = j div PAGE_SIZE" by (simp add: nth_eq_iff_index_eq)
  with assms(5) show ?thesis by (metis div_mult_mod_eq)
qed

lemma owned_write_spec:
  assumes "distinct ps" and "start + length bs \<le> length ps * PAGE_SIZE"
  shows "\<exists>m'. owned_write ps start bs m = Some m' \<and>
     (\<forall>i < length ps * PAGE_SIZE. span m' ps i =
        (if start \<le> i \<and> i < start + length bs then bs ! (i - start) else span m ps i)) \<and>
     (\<forall>p. p \<notin> set ps \<longrightarrow> m' p = m p)"
  using assms
proof (induction bs arbitrary: start m)
  case (Cons b bs)
  let ?p = "ps ! (start div PAGE_SIZE)" and ?o = "start mod PAGE_SIZE"
  let ?m = "write_byte m ?p ?o b"
  have st: "start div PAGE_SIZE < length ps" "start < length ps * PAGE_SIZE"
    using Cons.prems(2) by (simp_all add: less_mult_imp_div_less)
  obtain m' where m': "owned_write ps (Suc start) bs ?m = Some m'"
    "\<forall>i < length ps * PAGE_SIZE. span m' ps i =
       (if Suc start \<le> i \<and> i < Suc start + length bs then bs ! (i - Suc start) else span ?m ps i)"
    "\<forall>p. p \<notin> set ps \<longrightarrow> m' p = ?m p"
    using Cons.IH [of "Suc start" ?m] Cons.prems by auto
  have one: "span ?m ps i = (if i = start then b else span m ps i)"
    if "i < length ps * PAGE_SIZE" for i
    using span_position_inj [OF Cons.prems(1) that st(2)]
    by (auto simp: span_def read_write_byte_same intro: read_write_byte_other)
  have "span m' ps i = (if start \<le> i \<and> i < start + length (b # bs) then (b # bs) ! (i - start)
      else span m ps i)" if "i < length ps * PAGE_SIZE" for i
    using m'(2) one that by (auto simp: nth_Cons' Suc_le_eq)
  moreover have "\<forall>p. p \<notin> set ps \<longrightarrow> m' p = m p"
    using m'(3) st(1) nth_mem by (fastforce simp: write_byte_def)
  ultimately show ?case using m'(1) st(1) by (auto simp: nth_opt_def)
qed auto

section \<open>Memory regions\<close>

record MemoryRegion =
  mr_base :: nat
  mr_size :: nat

definition take_page :: "MemoryRegion \<Rightarrow> (nat \<times> MemoryRegion) option" where
  "take_page r =
     (if PAGE_SIZE \<le> mr_size r
      then Some (mr_base r, \<lparr>mr_base = mr_base r + PAGE_SIZE, mr_size = mr_size r - PAGE_SIZE\<rparr>)
      else None)"

text \<open>The base advances by one page whatever the count is, as in the source.\<close>

definition take_page_range :: "nat \<Rightarrow> MemoryRegion \<Rightarrow> (nat \<times> MemoryRegion) option" where
  "take_page_range n r =
     (if PAGE_SIZE * n \<le> mr_size r
      then Some (mr_base r, \<lparr>mr_base = mr_base r + PAGE_SIZE, mr_size = mr_size r - PAGE_SIZE * n\<rparr>)
      else None)"

text \<open>The loop of \<open>init\<close> that drains a region page by page.\<close>

function take_pages :: "MemoryRegion \<Rightarrow> nat list" where
  "take_pages r = (case take_page r of None \<Rightarrow> [] | Some (addr, r) \<Rightarrow> addr # take_pages r)"
  by pat_completeness auto
termination
  by (relation "measure mr_size") (auto simp: take_page_def PAGE_SIZE_def split: if_splits)

declare take_pages.simps [simp del]

definition push_region :: "bool \<Rightarrow> MemoryRegion \<Rightarrow> chain \<times> phys_mem \<Rightarrow> chain \<times> phys_mem" where
  "push_region dbg r s =
     fold (\<lambda>addr s. let n = addr div 4096 in if n < 2 ^ 32 then chain_push dbg (of_nat n) s else s)
       (take_pages r) s"

definition init_frames :: "bool \<Rightarrow> MemoryRegion list \<Rightarrow> chain \<times> phys_mem \<Rightarrow> chain \<times> phys_mem" where
  "init_frames dbg rs s = fold (push_region dbg) rs s"

lemma take_pages_eq:
  "take_pages r = map (\<lambda>i. mr_base r + i * PAGE_SIZE) [0..<mr_size r div PAGE_SIZE]"
proof (induction r rule: take_pages.induct)
  case (1 r)
  show ?case
  proof (cases "PAGE_SIZE \<le> mr_size r")
    case True
    let ?r = "\<lparr>mr_base = mr_base r + PAGE_SIZE, mr_size = mr_size r - PAGE_SIZE\<rparr>"
    have tp: "take_page r = Some (mr_base r, ?r)" using True by (simp add: take_page_def)
    then have "take_pages r = mr_base r # take_pages ?r" by (simp add: take_pages.simps [of r])
    also have "take_pages ?r = map (\<lambda>i. mr_base r + PAGE_SIZE + i * PAGE_SIZE)
        [0..<(mr_size r - PAGE_SIZE) div PAGE_SIZE]"
      using "1.IH" [OF tp] by simp
    also have "\<dots> = map (\<lambda>i. mr_base r + i * PAGE_SIZE) (map Suc [0..<mr_size r div PAGE_SIZE - 1])"
      using True by (simp add: le_div_geq algebra_simps)
    also have "mr_base r # \<dots> = map (\<lambda>i. mr_base r + i * PAGE_SIZE) (0 # map Suc [0..<mr_size r div PAGE_SIZE - 1])"
      by simp
    also have "0 # map Suc [0..<mr_size r div PAGE_SIZE - 1] = [0..<mr_size r div PAGE_SIZE]"
      using True div_greater_zero_iff [of "mr_size r" PAGE_SIZE]
      by (simp add: map_Suc_upt upt_conv_Cons)
    finally show ?thesis .
  next
    case False
    then show ?thesis by (simp add: take_pages.simps [of r] take_page_def)
  qed
qed

lemma push_region_spec:
  assumes "set (take_pages r) \<subseteq> range (\<lambda>p :: ppn. as_phys p)"
  shows "push_region dbg r s = deallocate dbg (map (\<lambda>a. of_nat (a div 4096)) (take_pages r)) s"
proof -
  have "\<forall>a \<in> set (take_pages r). a div 4096 < 2 ^ 32"
  proof
    fix a assume "a \<in> set (take_pages r)"
    then obtain p :: ppn where "a = as_phys p" using assms by auto
    then show "a div 4096 < 2 ^ 32" using unat_bound [of p] by (simp add: as_phys_def PAGE_SIZE_def)
  qed
  then show ?thesis
    unfolding push_region_def deallocate_def
    by (simp add: fold_map comp_def Let_def cong: fold_cong)
qed

section \<open>Clients of the allocator\<close>

text \<open>
  A system of clients: frames are allocated, written in any way while they are owned, and given
  back. The second component of the state is the set of frames that clients own.
\<close>

inductive frame_step ::
  "bool \<Rightarrow> (chain \<times> phys_mem) \<times> ppn set \<Rightarrow> (chain \<times> phys_mem) \<times> ppn set \<Rightarrow> bool" for dbg where
  fs_alloc: "allocate n s = Some (Inr ps, s') \<Longrightarrow> frame_step dbg (s, own) (s', own \<union> set ps)"
| fs_fail: "allocate n s = Some (Inl e, s') \<Longrightarrow> frame_step dbg (s, own) (s', own)"
| fs_write: "(\<And>p. p \<notin> own \<Longrightarrow> m' p = m p) \<Longrightarrow> frame_step dbg ((c, m), own) ((c, m'), own)"
| fs_free: "distinct ps \<Longrightarrow> set ps \<subseteq> own \<Longrightarrow>
    frame_step dbg (s, own) (deallocate dbg ps s, own - set ps)"

definition frames_split :: "ppn set \<Rightarrow> (chain \<times> phys_mem) \<times> ppn set \<Rightarrow> bool" where
  "frames_split U = (\<lambda>(s, own). chain_inv s \<and> set (free_frames s) \<inter> own = {}
     \<and> set (free_frames s) \<union> own = U)"

lemma allocate_Inr:
  assumes "allocate n s = Some (Inr ps, s')"
  shows "ps = take n (free_frames s)" "free_frames s' = drop n (free_frames s)" "snd s' = snd s"
  using allocate_spec [of n s] assms by (auto split: if_splits)

lemma allocate_Inl:
  assumes "allocate n s = Some (Inl e, s')" shows "s' = s" "length (free_frames s) < n"
  using allocate_spec [of n s] assms by (auto split: if_splits)

lemma frame_step_split:
  assumes "frame_step dbg t t'" and "frames_split U t"
  shows "frames_split U t'"
  using assms
proof (induction rule: frame_step.induct)
  case (fs_alloc n s ps s' own)
  have "set (take n (free_frames s)) \<inter> set (drop n (free_frames s)) = {}"
    using fs_alloc.prems by (simp add: frames_split_def chain_inv_def set_take_disj_set_drop_if_distinct)
  moreover have "set (free_frames s) = set (take n (free_frames s)) \<union> set (drop n (free_frames s))"
    by (metis append_take_drop_id set_append)
  ultimately show ?case
    using fs_alloc.prems allocate_Inr [OF fs_alloc.hyps]
    by (auto simp: frames_split_def chain_inv_def)
next
  case (fs_fail n s e s' own)
  then show ?case using allocate_Inl by blast
next
  case (fs_write own m' m c)
  have "free_frames (c, m') = free_frames (c, m)"
    using fs_write by (intro free_frames_cong) (auto simp: frames_split_def)
  with fs_write.prems show ?case by (simp add: frames_split_def chain_inv_def)
next
  case (fs_free ps own s)
  then have "free_frames (deallocate dbg ps s) = rev ps @ free_frames s"
    by (intro deallocate_spec) (auto simp: frames_split_def)
  with fs_free show ?case by (auto simp: frames_split_def chain_inv_def)
qed

lemma frame_steps_split:
  "(frame_step dbg)\<^sup>*\<^sup>* t t' \<Longrightarrow> frames_split U t \<Longrightarrow> frames_split U t'"
  by (induction rule: rtranclp_induct) (auto intro: frame_step_split)

text \<open>
  C5. However clients allocate, write to the frames they own and free them, every frame is at all
  times either free or owned and never both, no frame is lost, and an allocation never panics: it
  returns \<open>n\<close> distinct free frames exactly when \<open>n\<close> are free.
\<close>

theorem frames_never_shared:
  assumes "(frame_step dbg)\<^sup>*\<^sup>* (s, {}) (s', own)" and "chain_inv s"
  shows "set (free_frames s') \<inter> own = {} \<and> set (free_frames s') \<union> own = set (free_frames s)
    \<and> (\<exists>r s''. allocate n s' = Some (r, s'') \<and>
        (if n \<le> ch_count (fst s')
         then \<exists>ps. r = Inr ps \<and> length ps = n \<and> distinct ps \<and> set ps \<inter> own = {}
         else r = Inl OutOfFrames \<and> s'' = s'))"
proof -
  have sp: "frames_split (set (free_frames s)) (s', own)"
    using frame_steps_split [OF assms(1)] assms(2) by (simp add: frames_split_def)
  have cnt: "ch_count (fst s') = length (free_frames s')" by (cases s') simp
  have "distinct (take n (free_frames s'))" "set (take n (free_frames s')) \<inter> own = {}"
    using sp set_take_subset [of n "free_frames s'"]
    by (auto simp: frames_split_def chain_inv_def)
  then have "\<exists>r s''. allocate n s' = Some (r, s'') \<and>
        (if n \<le> ch_count (fst s')
         then \<exists>ps. r = Inr ps \<and> length ps = n \<and> distinct ps \<and> set ps \<inter> own = {}
         else r = Inl OutOfFrames \<and> s'' = s')"
    using allocate_spec [of n s']
    by (cases "n \<le> length (free_frames s')") (force simp: cnt, fastforce simp: cnt)
  with sp show ?thesis by (simp add: frames_split_def)
qed

text \<open>
  C6. New owned frames are distinct, all zero and were free before; no other frame changes. Dropping
  them gives every one of them back to the allocator.
\<close>

theorem owned_frames_zeroed:
  assumes "chain_inv s" and "n \<le> ch_count (fst s)"
  shows "\<exists>ps s'. owned_new n s = Some (Inr ps, s') \<and> length ps = n \<and> distinct ps
    \<and> set ps \<subseteq> set (free_frames s) \<and> (\<forall>p \<in> set ps. \<forall>i. read_byte (snd s') p i = 0)
    \<and> (\<forall>p. p \<notin> set ps \<longrightarrow> snd s' p = snd s p)
    \<and> set (free_frames s') = set (free_frames s) - set ps
    \<and> set (free_frames (owned_drop dbg ps s')) = set (free_frames s)
    \<and> ch_count (fst (owned_drop dbg ps s')) = ch_count (fst s)"
proof -
  have cnt: "ch_count (fst t) = length (free_frames t)" for t by (cases t) simp
  have "n \<le> length (free_frames s)" using assms(2) by (simp add: cnt)
  from owned_new_ok [OF assms(1) this] obtain ps s' where
    new: "owned_new n s = Some (Inr ps, s')" "ps = take n (free_frames s)"
    "free_frames s' = drop n (free_frames s)"
    "\<And>p. snd s' p = (if p \<in> set ps then (\<lambda>_. 0) else snd s p)"
    by metis
  have app: "free_frames s = ps @ free_frames s'" using new by simp
  then have d: "distinct ps" "set ps \<inter> set (free_frames s') = {}"
    using assms(1) by (auto simp: chain_inv_def)
  have drop: "free_frames (owned_drop dbg ps s') = rev ps @ free_frames s'"
    using deallocate_spec [OF d] by (simp add: owned_drop_def)
  have "length ps = n" using assms(2) new(2) by (simp add: cnt)
  then show ?thesis
    using new(1,4) app d drop by (auto simp: cnt read_byte_zero)
qed

text \<open>
  C7. Writing bytes at an offset of owned frames changes exactly those bytes, also across frame
  boundaries, as long as the write ends inside the frames.
\<close>

theorem owned_write_exact:
  assumes "distinct ps" and "start + length bs \<le> length ps * PAGE_SIZE"
  shows "\<exists>m'. owned_write ps start bs m = Some m' \<and>
     (\<forall>i < length ps * PAGE_SIZE. span m' ps i =
        (if start \<le> i \<and> i < start + length bs then bs ! (i - start) else span m ps i)) \<and>
     (\<forall>p. p \<notin> set ps \<longrightarrow> m' p = m p)"
  using owned_write_spec [OF assms] .

theorem frames_never_shared_witness:
  "\<exists>s'. (frame_step False)\<^sup>*\<^sup>* (chain_push False 7 (chain_push False 5 (chain_new, \<lambda>_ _. 0)), {}) (s', {7})
     \<and> set (free_frames s') = {5}"
proof -
  let ?s = "chain_push False 7 (chain_push False 5 (chain_new, \<lambda>_ _. 0))"
  have fr: "free_frames ?s = [7, 5]" by (simp add: free_frames_push)
  then obtain s' where "allocate 1 ?s = Some (Inr [7], s')"
    using allocate_spec [of 1 ?s] by auto
  then have run: "(frame_step False)\<^sup>*\<^sup>* (?s, {}) (s', {7})"
    using fs_alloc [of 1 ?s "[7]" s' False "{}"] by auto
  then have "set (free_frames s') \<inter> {7} = {}" "set (free_frames s') \<union> {7} = {7, 5}"
    using frames_never_shared [of False ?s s' "{7}" 0] fr by (simp_all add: chain_inv_def)
  then have "set (free_frames s') = {7, 5} - {7}" by blast
  then have "set (free_frames s') = {5}" by simp
  with run show ?thesis by blast
qed

theorem owned_frames_zeroed_witness:
  "\<exists>ps s'. owned_new 1 (chain_push True 5 (chain_new, \<lambda>_ _. 0)) = Some (Inr ps, s') \<and> length ps = 1"
proof -
  have "chain_inv (chain_push True 5 (chain_new, \<lambda>_ _. 0))"
    by (simp add: chain_inv_def free_frames_push)
  moreover have "1 \<le> ch_count (fst (chain_push True 5 (chain_new, \<lambda>_ _. 0)))"
    by (simp add: chain_push_def chain_new_def Let_def)
  ultimately show ?thesis using owned_frames_zeroed by blast
qed

theorem owned_write_exact_witness:
  "\<exists>m'. owned_write [3, 9] 4095 [1, 2] (\<lambda>_ _. 0) = Some m' \<and> span m' [3, 9] 4096 = 2"
  using owned_write_exact [of "[3, 9]" 4095 "[1, 2]" "\<lambda>_ _. 0"]
  by (fastforce simp: PAGE_SIZE_def)

end
