(* ===== verification/Fixed_Bitmap.thy ===== *)
theory Fixed_Bitmap
  imports Frame_Allocator
begin

text \<open>
  The bitmap allocator for physically contiguous memory, \<open>kernel/src/memory/frame/fixed_bitmap.rs\<close>.
  A \<open>Bitmap<N>\<close> is the list of its \<open>N\<close> 128-bit words; bit \<open>i\<close> stands for frame \<open>base + i\<close>. The
  operators are modelled as the loops they are and shown to act on single bits, and \<open>pop_range\<close> is
  shown to take the lowest block of free frames, where there is one.
\<close>

section \<open>Operations\<close>

type_synonym bitmap = "u128 list"

definition BITMAP_LEN :: nat where
  "BITMAP_LEN = 32"

record FixedBitmap =
  fb_base :: ppn
  fb_bitmap :: bitmap

definition fixed_bitmap_default :: FixedBitmap where
  "fixed_bitmap_default = \<lparr>fb_base = 0, fb_bitmap = replicate BITMAP_LEN 0\<rparr>"

text \<open>\<open>Bitmap::ones\<close>; indexing past the end panics.\<close>

function ones_loop :: "bitmap \<Rightarrow> nat \<Rightarrow> nat \<Rightarrow> bitmap panics" where
  "ones_loop a i n =
     (if 128 \<le> n then
        do { assert (i < length a); ones_loop (a[i := -1]) (i + 1) (n - 128) }
      else if 0 < n then
        do { assert (i < length a); Some (a[i := push_bit n 1 - 1]) }
      else Some a)"
  by pat_completeness auto
termination by (relation "measure (\<lambda>(a, i, n). n)") auto

declare ones_loop.simps [simp del]

definition ones :: "nat \<Rightarrow> nat \<Rightarrow> bitmap panics" where
  "ones N n = ones_loop (replicate N 0) 0 n"

definition bitand :: "bitmap \<Rightarrow> bitmap \<Rightarrow> bitmap" where
  "bitand a b = map2 (\<lambda>x y. x AND y) a b"

text \<open>
  \<open>Shl\<close> runs over the words from the last to the first, in place. A shift by zero shifts the other word
  by its whole width; a release build takes the amount modulo 128. No caller shifts by zero.
\<close>

definition shl_step :: "nat \<Rightarrow> nat \<Rightarrow> bitmap \<Rightarrow> bitmap" where
  "shl_step r i bs =
     (let a = bs ! i; b = (if i = 0 then 0 else bs ! (i - 1))
      in bs[i := push_bit r a OR drop_bit ((128 - r) mod 128) b])"

definition shl :: "bitmap \<Rightarrow> nat \<Rightarrow> bitmap panics" where
  "shl bs r = do { assert (r < 128); Some (fold (shl_step r) (rev [0..<length bs]) bs) }"

definition shr_step :: "nat \<Rightarrow> nat \<Rightarrow> bitmap \<Rightarrow> bitmap" where
  "shr_step r i bs =
     (let a = bs ! i; b = (if i + 1 < length bs then bs ! (i + 1) else 0)
      in bs[i := push_bit ((128 - r) mod 128) b OR drop_bit r a])"

definition shr :: "bitmap \<Rightarrow> nat \<Rightarrow> bitmap panics" where
  "shr bs r = do { assert (r < 128); Some (fold (shr_step r) [0..<length bs] bs) }"

definition bitnot :: "bitmap \<Rightarrow> bitmap" where
  "bitnot bs = map (\<lambda>x. NOT x) bs"

text \<open>The loop of \<open>pop_range\<close>: \<open>Some None\<close> is the early return.\<close>

partial_function (option) find_range ::
  "bitmap \<Rightarrow> bitmap \<Rightarrow> nat \<Rightarrow> (nat \<times> bitmap) option panics" where
  "find_range bm msk shift =
     (if bitand bm msk = msk then Some (Some (shift, msk))
      else if shift + 1 = 128 * length bm then Some None
      else do { msk \<leftarrow> shl msk 1; find_range bm msk (shift + 1) })"

definition pop_range :: "nat \<Rightarrow> FixedBitmap \<Rightarrow> (ppn option \<times> FixedBitmap) panics" where
  "pop_range n fb =
     (if 128 * length (fb_bitmap fb) < n then Some (None, fb)
      else do {
        msk \<leftarrow> ones (length (fb_bitmap fb)) n;
        r \<leftarrow> find_range (fb_bitmap fb) msk 0;
        case r of None \<Rightarrow> Some (None, fb)
        | Some (shift, msk) \<Rightarrow>
            Some (Some (skip (fb_base fb) (of_nat shift)),
                  fb\<lparr>fb_bitmap := bitand (fb_bitmap fb) (bitnot msk)\<rparr>) })"

text \<open>\<open>expect\<close> on the conversion of the page number is a panic.\<close>

definition add_region :: "MemoryRegion \<Rightarrow> FixedBitmap \<Rightarrow> (MemoryRegion \<times> FixedBitmap) panics" where
  "add_region mr fb =
     do { w \<leftarrow> nth_opt (fb_bitmap fb) 0;
          if w AND 1 \<noteq> 0 then Some (mr, fb)
          else case take_page_range (128 * length (fb_bitmap fb)) mr of
            None \<Rightarrow> Some (mr, fb)
          | Some (base, mr) \<Rightarrow>
              do { assert (base div PAGE_SIZE < 2 ^ 32);
                   Some (mr, fb\<lparr>fb_base := of_nat (base div PAGE_SIZE),
                                fb_bitmap := map (\<lambda>_. -1) (fb_bitmap fb)\<rparr>) } }"

section \<open>Single bits\<close>

definition bm_bit :: "bitmap \<Rightarrow> nat \<Rightarrow> bool" where
  "bm_bit bs i \<longleftrightarrow> i < 128 * length bs \<and> bit (bs ! (i div 128)) (i mod 128)"

lemma bm_bit_at: "i < length bs \<Longrightarrow> k < 128 \<Longrightarrow> bm_bit bs (128 * i + k) = bit (bs ! i) k"
  by (simp add: bm_bit_def)

lemma bm_eqI:
  assumes "length a = length b" and "\<And>i. i < 128 * length a \<Longrightarrow> bm_bit a i = bm_bit b i"
  shows "a = b"
proof (rule nth_equalityI [OF assms(1)])
  fix i assume i: "i < length a"
  show "a ! i = b ! i"
  proof (rule bit_word_eqI)
    fix k assume "k < LENGTH(128)"
    with i assms show "bit (a ! i) k = bit (b ! i) k"
      using assms(2) [of "128 * i + k"] bm_bit_at [of i a k] bm_bit_at [of i b k] by simp
  qed
qed

lemma bm_bit_bound: "bm_bit bs i \<Longrightarrow> i < 128 * length bs"
  by (simp add: bm_bit_def)

lemma length_bitand [simp]: "length (bitand a b) = min (length a) (length b)"
  by (simp add: bitand_def)

lemma bm_bit_bitand: "length a = length b \<Longrightarrow> bm_bit (bitand a b) i \<longleftrightarrow> bm_bit a i \<and> bm_bit b i"
  by (auto simp: bm_bit_def bitand_def bit_and_iff)

lemma length_bitnot [simp]: "length (bitnot a) = length a"
  by (simp add: bitnot_def)

lemma bm_bit_bitnot: "bm_bit (bitnot a) i \<longleftrightarrow> i < 128 * length a \<and> \<not> bm_bit a i"
  by (auto simp: bm_bit_def bitnot_def bit_not_iff)

lemma length_shl_step [simp]: "length (shl_step r i bs) = length bs"
  by (simp add: shl_step_def Let_def)

lemma length_shl_fold [simp]: "length (fold (shl_step r) is bs) = length bs"
  by (induction "is" arbitrary: bs) simp_all

lemma shl_fold_nth:
  assumes "n \<le> length bs" and "i < length bs"
  shows "fold (shl_step r) (rev [0..<n]) bs ! i =
     (if i < n then push_bit r (bs ! i) OR drop_bit ((128 - r) mod 128) (if i = 0 then 0 else bs ! (i - 1))
      else bs ! i)"
  using assms
proof (induction n arbitrary: bs)
  case (Suc n)
  have "fold (shl_step r) (rev [0..<Suc n]) bs ! i = fold (shl_step r) (rev [0..<n]) (shl_step r n bs) ! i"
    by simp
  also have "\<dots> = (if i < n
      then push_bit r (shl_step r n bs ! i) OR drop_bit ((128 - r) mod 128) (if i = 0 then 0 else shl_step r n bs ! (i - 1))
      else shl_step r n bs ! i)"
    using Suc.prems by (intro Suc.IH) simp_all
  also have "\<dots> = (if i < Suc n then push_bit r (bs ! i) OR drop_bit ((128 - r) mod 128) (if i = 0 then 0 else bs ! (i - 1))
      else bs ! i)"
    using Suc.prems by (auto simp: shl_step_def Let_def less_Suc_eq)
  finally show ?case .
qed simp

lemma bit_word_shl:
  assumes "k < 128" and "0 < r" and "r < 128"
  shows "bit (push_bit r a OR drop_bit (128 - r) b :: u128) k
    \<longleftrightarrow> (if r \<le> k then bit a (k - r) else bit b (128 + k - r))"
proof -
  have "\<not> bit b (128 - r + k)" if "r \<le> k"
    using that assms bit_imp_le_length [of b "128 - r + k"] by auto
  then show ?thesis
    using assms by (auto simp: bit_or_iff bit_push_bit_iff bit_drop_bit_eq add.commute)
qed

lemma shl_bits:
  assumes "0 < r" and "r < 128"
  shows "\<exists>bs'. shl bs r = Some bs' \<and> length bs' = length bs
    \<and> (\<forall>i. bm_bit bs' i \<longleftrightarrow> r \<le> i \<and> i < 128 * length bs \<and> bm_bit bs (i - r))"
proof (intro exI conjI allI)
  let ?s = "fold (shl_step r) (rev [0..<length bs]) bs"
  show "shl bs r = Some ?s" using assms by (simp add: shl_def)
  show "length ?s = length bs" by simp
  fix i
  show "bm_bit ?s i \<longleftrightarrow> r \<le> i \<and> i < 128 * length bs \<and> bm_bit bs (i - r)"
  proof (cases "i < 128 * length bs")
    case True
    define q k where "q = i div 128" and "k = i mod 128"
    have i: "i = 128 * q + k" "k < 128" "q < length bs"
      using True by (simp_all add: q_def k_def less_mult_imp_div_less mult.commute)
    have eq: "bm_bit ?s i \<longleftrightarrow> (if r \<le> k then bit (bs ! q) (k - r)
        else bit (if q = 0 then 0 else bs ! (q - 1)) (128 + k - r))"
      using i assms by (simp add: bm_bit_at shl_fold_nth bit_word_shl)
    show ?thesis
    proof (cases "r \<le> k")
      case True
      then have "bm_bit bs (i - r) = bit (bs ! q) (k - r)"
        using i bm_bit_at [of q bs "k - r"] by simp
      with eq True i show ?thesis using \<open>i < 128 * length bs\<close> by simp
    next
      case False
      show ?thesis
      proof (cases q)
        case (Suc p)
        then have "i - r = 128 * p + (128 + k - r)" using i False assms by simp
        then have "bm_bit bs (i - r) = bit (bs ! p) (128 + k - r)"
          using i Suc False bm_bit_at [of p bs "128 + k - r"] by simp
        with eq False i Suc assms show ?thesis using \<open>i < 128 * length bs\<close> by simp
      qed (use eq False i in simp)
    qed
  qed (auto simp: bm_bit_def)
qed

lemma exp_minus_one_bit: "n < 128 \<Longrightarrow> bit (push_bit n 1 - 1 :: u128) k \<longleftrightarrow> k < n"
  by (auto simp: bit_mask_iff simp flip: mask_eq_exp_minus_1 dest: less_imp_le)

lemma ones_loop_bits:
  assumes "128 * i + n \<le> 128 * length a" and "\<And>j. 128 * i \<le> j \<Longrightarrow> \<not> bm_bit a j"
  shows "\<exists>b. ones_loop a i n = Some b \<and> length b = length a \<and>
    (\<forall>j. bm_bit b j \<longleftrightarrow> bm_bit a j \<or> (128 * i \<le> j \<and> j < 128 * i + n))"
  using assms
proof (induction a i n rule: ones_loop.induct)
  case (1 a i n)
  have upd: "bm_bit (a[i := w]) j \<longleftrightarrow> (if j div 128 = i then bit w (j mod 128) else bm_bit a j)"
    if "i < length a" for w j
    using that by (auto simp: bm_bit_def nth_list_update)
  have divi: "j div 128 = i \<longleftrightarrow> 128 * i \<le> j \<and> j < 128 * i + 128" for j by auto
  consider "128 \<le> n" | "0 < n" "n < 128" | "n = 0" by linarith
  then show ?case
  proof cases
    case 1
    then have i: "i < length a" using "1.prems"(1) by simp
    have one: "bm_bit (a[i := -1]) j \<longleftrightarrow> bm_bit a j \<or> (128 * i \<le> j \<and> j < 128 * i + 128)" for j
      using upd [OF i] divi [of j] "1.prems"(2) by auto
    then obtain b where "ones_loop (a[i := -1]) (i + 1) (n - 128) = Some b" "length b = length a"
      "\<forall>j. bm_bit b j \<longleftrightarrow> bm_bit (a[i := -1]) j \<or> (128 * (i + 1) \<le> j \<and> j < 128 * (i + 1) + (n - 128))"
      using "1.IH" [OF 1] 1 "1.prems" i by auto
    with 1 i one show ?thesis by (auto simp: ones_loop.simps [of a i n])
  next
    case 2
    then have i: "i < length a" using "1.prems"(1) by simp
    have "bm_bit (a[i := push_bit n 1 - 1]) j \<longleftrightarrow> bm_bit a j \<or> (128 * i \<le> j \<and> j < 128 * i + n)" for j
      using upd [OF i] divi [of j] "1.prems"(2) [of j] exp_minus_one_bit [OF 2(2)] 2
      by (auto simp: minus_mult_div_eq_mod [symmetric])
    with 2 i show ?thesis by (simp add: ones_loop.simps [of a i n])
  next
    case 3
    then show ?thesis by (auto simp: ones_loop.simps [of a i 0])
  qed
qed

lemma ones_bits:
  assumes "n \<le> 128 * N"
  shows "\<exists>b. ones N n = Some b \<and> length b = N \<and> (\<forall>j. bm_bit b j \<longleftrightarrow> j < n)"
proof -
  have "\<not> bm_bit (replicate N 0) j" for j
    by (simp add: bm_bit_def less_mult_imp_div_less mult.commute)
  then show ?thesis using ones_loop_bits [of 0 n "replicate N 0"] assms by (auto simp: ones_def)
qed

section \<open>Popping a range\<close>

text \<open>
  What \<open>pop_range\<close> is for: \<open>n\<close> frames from \<open>s\<close> on, all of them frames of the bitmap and free. What its test
  with the mask sees: the mask loses the bits that are shifted out, so near the end of the bitmap only
  the frames up to the end are looked at.
\<close>

definition block_free :: "bitmap \<Rightarrow> nat \<Rightarrow> nat \<Rightarrow> bool" where
  "block_free bm n s \<longleftrightarrow> s + n \<le> 128 * length bm \<and> (\<forall>i. s \<le> i \<and> i < s + n \<longrightarrow> bm_bit bm i)"

definition range_free :: "bitmap \<Rightarrow> nat \<Rightarrow> nat \<Rightarrow> bool" where
  "range_free bm n s \<longleftrightarrow> (\<forall>i. s \<le> i \<and> i < s + n \<and> i < 128 * length bm \<longrightarrow> bm_bit bm i)"

lemma block_free_range: "block_free bm n s \<longleftrightarrow> s + n \<le> 128 * length bm \<and> range_free bm n s"
  by (auto simp: block_free_def range_free_def)

definition is_mask :: "bitmap \<Rightarrow> nat \<Rightarrow> nat \<Rightarrow> nat \<Rightarrow> bool" where
  "is_mask msk N n s \<longleftrightarrow> length msk = N \<and> (\<forall>i. bm_bit msk i \<longleftrightarrow> s \<le> i \<and> i < s + n \<and> i < 128 * N)"

lemma mask_matches:
  assumes "is_mask msk (length bm) n s"
  shows "bitand bm msk = msk \<longleftrightarrow> range_free bm n s"
proof -
  have len: "length bm = length msk" using assms by (simp add: is_mask_def)
  have "bitand bm msk = msk \<longleftrightarrow> (\<forall>i. bm_bit msk i \<longrightarrow> bm_bit bm i)"
  proof
    assume "bitand bm msk = msk"
    then show "\<forall>i. bm_bit msk i \<longrightarrow> bm_bit bm i" using bm_bit_bitand [OF len] by metis
  next
    assume "\<forall>i. bm_bit msk i \<longrightarrow> bm_bit bm i"
    then show "bitand bm msk = msk" using len by (intro bm_eqI) (auto simp: bm_bit_bitand)
  qed
  with assms show ?thesis by (auto simp: is_mask_def range_free_def)
qed

lemma shl_mask:
  assumes "is_mask msk N n s" and "0 < N"
  shows "\<exists>msk'. shl msk 1 = Some msk' \<and> is_mask msk' N n (s + 1)"
proof -
  obtain bs' where bs': "shl msk 1 = Some bs'" "length bs' = length msk"
    "\<forall>i. bm_bit bs' i \<longleftrightarrow> 1 \<le> i \<and> i < 128 * length msk \<and> bm_bit msk (i - 1)"
    using shl_bits [of 1 msk] by (elim meta_impE exE conjE) simp_all
  have "is_mask bs' N n (s + 1)"
    unfolding is_mask_def
  proof (intro conjI allI)
    fix i
    show "bm_bit bs' i \<longleftrightarrow> s + 1 \<le> i \<and> i < s + 1 + n \<and> i < 128 * N"
      using bs'(3) assms(1) by (cases i) (simp_all add: is_mask_def Suc_le_eq, linarith)
  qed (use bs' assms in \<open>simp add: is_mask_def\<close>)
  with bs'(1) show ?thesis by blast
qed

lemma find_range_spec:
  assumes "is_mask msk (length bm) n shift" and "shift < 128 * length bm"
  shows "(\<exists>s msk'. find_range bm msk shift = Some (Some (s, msk')) \<and> is_mask msk' (length bm) n s
      \<and> shift \<le> s \<and> s < 128 * length bm \<and> range_free bm n s
      \<and> (\<forall>t. shift \<le> t \<and> t < s \<longrightarrow> \<not> range_free bm n t))
    \<or> (find_range bm msk shift = Some None
      \<and> (\<forall>t. shift \<le> t \<and> t < 128 * length bm \<longrightarrow> \<not> range_free bm n t))"
  using assms
proof (induction "128 * length bm - shift" arbitrary: msk shift)
  case (Suc k)
  note m = mask_matches [OF Suc.prems(1)]
  consider "range_free bm n shift" | "\<not> range_free bm n shift" "shift + 1 = 128 * length bm"
    | "\<not> range_free bm n shift" "shift + 1 < 128 * length bm" using Suc.prems(2) by linarith
  then show ?case
  proof cases
    case 1
    with m Suc.prems show ?thesis by (auto simp: find_range.simps [of bm msk shift])
  next
    case 2
    with m have "find_range bm msk shift = Some None" by (simp add: find_range.simps [of bm msk shift])
    moreover have "t = shift" if "shift \<le> t" "t < 128 * length bm" for t using that 2 by simp
    ultimately show ?thesis using 2(1) by blast
  next
    case 3
    then obtain msk' where msk': "shl msk 1 = Some msk'" "is_mask msk' (length bm) n (shift + 1)"
      using shl_mask [OF Suc.prems(1)] by fastforce
    have eq: "find_range bm msk shift = find_range bm msk' (shift + 1)"
      using 3 m msk'(1) by (simp add: find_range.simps [of bm msk shift])
    have le: "shift \<le> t \<longleftrightarrow> t = shift \<or> shift + 1 \<le> t" for t by auto
    have "k = 128 * length bm - (shift + 1)" using Suc.hyps(2) by simp
    from Suc.hyps(1) [OF this msk'(2) 3(2)] 3(1) show ?thesis
      unfolding eq le by auto
  qed
qed simp

definition lowest_free :: "bitmap \<Rightarrow> nat \<Rightarrow> nat \<Rightarrow> bool" where
  "lowest_free bm n s \<longleftrightarrow> s < 128 * length bm \<and> range_free bm n s
     \<and> (\<forall>t < s. \<not> range_free bm n t)"

lemma pop_range_cases:
  assumes "n \<le> 128 * length (fb_bitmap fb)" and "0 < length (fb_bitmap fb)"
  shows "(\<exists>s fb'. pop_range n fb = Some (Some (skip (fb_base fb) (of_nat s)), fb')
      \<and> lowest_free (fb_bitmap fb) n s \<and> fb_base fb' = fb_base fb
      \<and> length (fb_bitmap fb') = length (fb_bitmap fb)
      \<and> (\<forall>i. bm_bit (fb_bitmap fb') i \<longleftrightarrow> bm_bit (fb_bitmap fb) i \<and> \<not> (s \<le> i \<and> i < s + n)))
    \<or> (pop_range n fb = Some (None, fb)
      \<and> (\<forall>t < 128 * length (fb_bitmap fb). \<not> range_free (fb_bitmap fb) n t))"
proof -
  let ?bm = "fb_bitmap fb"
  obtain msk where msk: "ones (length ?bm) n = Some msk" "is_mask msk (length ?bm) n 0"
  proof -
    from ones_bits [OF assms(1)] obtain b where
      b: "ones (length ?bm) n = Some b" "length b = length ?bm" "\<forall>j. bm_bit b j \<longleftrightarrow> j < n" by blast
    then have "is_mask b (length ?bm) n 0" using assms(1) by (simp add: is_mask_def) linarith
    with b(1) show thesis using that by blast
  qed
  consider s m where "find_range ?bm msk 0 = Some (Some (s, m))" "is_mask m (length ?bm) n s"
      "lowest_free ?bm n s"
    | "find_range ?bm msk 0 = Some None" "\<forall>t < 128 * length ?bm. \<not> range_free ?bm n t"
    using find_range_spec [OF msk(2)] assms(2) by (auto simp: lowest_free_def)
  then show ?thesis
  proof cases
    case 1
    let ?fb = "fb\<lparr>fb_bitmap := bitand ?bm (bitnot m)\<rparr>"
    have len: "length (bitnot m) = length ?bm" using 1(2) by (simp add: is_mask_def)
    have "bm_bit (fb_bitmap ?fb) i \<longleftrightarrow> bm_bit ?bm i \<and> \<not> (s \<le> i \<and> i < s + n)" for i
      using 1(2) len bm_bit_bound [of ?bm i]
      by (auto simp: bm_bit_bitand bm_bit_bitnot is_mask_def)
    moreover have "pop_range n fb = Some (Some (skip (fb_base fb) (of_nat s)), ?fb)"
      using msk(1) 1(1) assms(1) by (simp add: pop_range_def)
    ultimately show ?thesis using 1(3) len by (intro disjI1 exI [of _ s] exI [of _ ?fb]) simp
  next
    case 2
    then show ?thesis using msk(1) assms(1) by (simp add: pop_range_def)
  qed
qed

lemma range_past_end:
  assumes "range_free bm n s" "s < 128 * length bm" "\<not> block_free bm n s"
  shows "bm_bit bm (128 * length bm - 1)"
  using assms by (auto simp: block_free_range range_free_def dest: spec [of _ "128 * length bm - 1"])

text \<open>
  C11. If \<open>n\<close> consecutive frames of the region are free, a request for \<open>n\<close> frames takes the lowest such
  block and marks exactly its frames as used. If there is no such block and the last frame of the
  region is in use, or if \<open>n\<close> is more than the region has, the request fails and changes nothing. In every
  case the search ends without a panic. (In the case that is left, a free end of the region that is
  too short, the request succeeds with frames past the end: \<open>pop_range_runs_past_the_end\<close> below.)
\<close>

theorem pop_range_takes_lowest:
  assumes "0 < n" and "0 < length (fb_bitmap fb)"
  shows "(\<forall>s. block_free (fb_bitmap fb) n s \<and> (\<forall>t < s. \<not> block_free (fb_bitmap fb) n t) \<longrightarrow>
      (\<exists>fb'. pop_range n fb = Some (Some (skip (fb_base fb) (of_nat s)), fb') \<and> fb_base fb' = fb_base fb
        \<and> length (fb_bitmap fb') = length (fb_bitmap fb)
        \<and> (\<forall>i. bm_bit (fb_bitmap fb') i \<longleftrightarrow> bm_bit (fb_bitmap fb) i \<and> \<not> (s \<le> i \<and> i < s + n))))
    \<and> ((\<forall>s. \<not> block_free (fb_bitmap fb) n s) \<and> \<not> bm_bit (fb_bitmap fb) (128 * length (fb_bitmap fb) - 1)
        \<or> 128 * length (fb_bitmap fb) < n \<longrightarrow> pop_range n fb = Some (None, fb))
    \<and> pop_range n fb \<noteq> None"
proof (cases "n \<le> 128 * length (fb_bitmap fb)")
  case True
  let ?bm = "fb_bitmap fb"
  from pop_range_cases [OF True assms(2)] show ?thesis
  proof (elim disjE exE conjE)
    fix s fb'
    assume pop: "pop_range n fb = Some (Some (skip (fb_base fb) (of_nat s)), fb')" and low: "lowest_free ?bm n s"
      and rest: "fb_base fb' = fb_base fb" "length (fb_bitmap fb') = length ?bm"
        "\<forall>i. bm_bit (fb_bitmap fb') i \<longleftrightarrow> bm_bit ?bm i \<and> \<not> (s \<le> i \<and> i < s + n)"
    have "t = s" if "block_free ?bm n t" "\<forall>u < t. \<not> block_free ?bm n u" for t
    proof -
      have "s \<le> t" using low that(1) by (auto simp: lowest_free_def block_free_range not_less [symmetric])
      then have "block_free ?bm n s" using low that(1) by (auto simp: lowest_free_def block_free_range)
      with that(2) \<open>s \<le> t\<close> show "t = s" using le_neq_implies_less by blast
    qed
    moreover have "block_free ?bm n s \<or> bm_bit ?bm (128 * length ?bm - 1)"
      using low range_past_end [of ?bm n s] by (auto simp: lowest_free_def)
    ultimately show ?thesis using pop rest True by auto
  next
    assume "pop_range n fb = Some (None, fb)" and none: "\<forall>t < 128 * length ?bm. \<not> range_free ?bm n t"
    moreover have "\<not> block_free ?bm n t" for t using none assms(1) by (auto simp: block_free_range)
    ultimately show ?thesis by simp
  qed
next
  case False
  then have "\<not> block_free (fb_bitmap fb) n s" for s by (simp add: block_free_def)
  with False show ?thesis by (simp add: pop_range_def)
qed

text \<open>Only the last frame of the region is free.\<close>

definition last_free :: bitmap where
  "last_free = replicate 31 0 @ [2 ^ 127]"

lemma bm_bit_last: "bm_bit last_free i \<longleftrightarrow> i = 4095"
proof -
  have "bit (2 ^ 127 :: u128) k \<longleftrightarrow> k = 127" if "k < 128" for k
    using that bit_exp_word [where 'n = 128, of 127 k] by auto
  then have "bm_bit last_free i \<longleftrightarrow> i div 128 = 31 \<and> i mod 128 = 127"
    by (auto simp: bm_bit_def last_free_def nth_append)
  also have "\<dots> \<longleftrightarrow> i = 4095"
  proof
    assume "i div 128 = 31 \<and> i mod 128 = 127"
    then show "i = 4095" using div_mult_mod_eq [of i 128] by (elim conjE) (simp del: div_mult_mod_eq)
  qed simp
  finally show ?thesis .
qed

text \<open>
  The mask loses the bits that are shifted out, so a range may run past the end: with only the last
  frame of the region free, a request for two frames succeeds.
\<close>

theorem pop_range_runs_past_the_end:
  "\<exists>fb'. pop_range 2 \<lparr>fb_base = 256, fb_bitmap = last_free\<rparr>
      = Some (Some (256 + 4095), fb')"
proof -
  let ?bm = last_free
  have len: "length ?bm = 32" by (simp add: last_free_def)
  have free: "range_free ?bm 2 t \<longleftrightarrow> t = 4095" if "t < 4096" for t
  proof
    assume "range_free ?bm 2 t"
    then have "bm_bit ?bm t" using that by (simp add: range_free_def len)
    then show "t = 4095" by (simp only: bm_bit_last)
  next
    assume "t = 4095"
    then show "range_free ?bm 2 t" by (auto simp: range_free_def bm_bit_last len)
  qed
  then have "lowest_free ?bm 2 s \<longleftrightarrow> s = 4095" for s
    by (auto simp: lowest_free_def len)
  moreover have "\<not> (\<forall>t < 128 * length ?bm. \<not> range_free ?bm 2 t)"
    using free [of 4095] by (intro notI) (drule spec [of _ 4095], simp add: len)
  ultimately show ?thesis
    using pop_range_cases [of 2 "\<lparr>fb_base = 256, fb_bitmap = ?bm\<rparr>"]
    by (auto simp: skip_def len)
qed

theorem pop_range_takes_lowest_witness:
  "\<exists>fb'. pop_range 3 \<lparr>fb_base = 256, fb_bitmap = replicate 32 (-1)\<rparr> = Some (Some 256, fb')
     \<and> \<not> bm_bit (fb_bitmap fb') 2 \<and> bm_bit (fb_bitmap fb') 3"
proof -
  let ?bm = "replicate 32 (-1) :: bitmap"
  have all: "bm_bit ?bm i \<longleftrightarrow> i < 4096" for i
    using less_mult_imp_div_less [of i 32 128] by (auto simp: bm_bit_def)
  have "block_free ?bm 3 0" by (auto simp: block_free_def all)
  then show ?thesis
    using pop_range_takes_lowest [of 3 "\<lparr>fb_base = 256, fb_bitmap = ?bm\<rparr>"] by (auto simp: skip_def all)
qed

end
