(* ===== verification/Kernel_Api.thy ===== *)
theory Kernel_Api
  imports Prelude
begin

text \<open>
  The kernel ABI crate, \<open>lib/rust/kernel\<close>: error codes, access permissions, power-of-two sizes,
  seeking, the arguments of \<open>new_object\<close>, the requests of the I/O queue and of \<open>do_io\<close>, and the
  register images of the system calls. A buffer is the pair of its address and its length.
\<close>

section \<open>Errors\<close>

datatype Error = Unknown | DoesNotExist | AlreadyExists | InvalidOperation | Cancelled
  | CantCreateObject | InvalidObject | InvalidData

fun error_code :: "Error \<Rightarrow> int" where
  "error_code Unknown = -1"
| "error_code DoesNotExist = -2"
| "error_code AlreadyExists = -3"
| "error_code InvalidOperation = -4"
| "error_code Cancelled = -5"
| "error_code CantCreateObject = -6"
| "error_code InvalidObject = -7"
| "error_code InvalidData = -8"

definition result :: "'n::len word \<Rightarrow> Error + 'n word" where
  "result value =
     (let n = sint value in
      if n = -1 then Inl Unknown
      else if n = -2 then Inl DoesNotExist
      else if n = -3 then Inl AlreadyExists
      else if n = -4 then Inl InvalidOperation
      else if n = -5 then Inl Cancelled
      else if n = -6 then Inl CantCreateObject
      else if n = -7 then Inl InvalidObject
      else if n = -8 then Inl InvalidData
      else if -4096 \<le> n \<and> n \<le> -1 then Inl Unknown
      else Inr value)"

definition error_from :: "'n::len word \<Rightarrow> Error" where
  "error_from t = (case result t of Inr _ \<Rightarrow> Unknown | Inl e \<Rightarrow> e)"

section \<open>Permissions\<close>

datatype RWX = RWX_R | RWX_W | RWX_X | RWX_RW | RWX_RX | RWX_RWX

datatype IncompatibleRWXFlags = IncompatibleRWXFlags

fun from_flags :: "bool \<Rightarrow> bool \<Rightarrow> bool \<Rightarrow> IncompatibleRWXFlags + RWX" where
  "from_flags True False False = Inr RWX_R"
| "from_flags False True False = Inr RWX_W"
| "from_flags False False True = Inr RWX_X"
| "from_flags True True False = Inr RWX_RW"
| "from_flags True False True = Inr RWX_RX"
| "from_flags True True True = Inr RWX_RWX"
| "from_flags _ _ _ = Inl IncompatibleRWXFlags"

definition rwx_r :: "RWX \<Rightarrow> bool" where
  "rwx_r p = (case p of RWX_R \<Rightarrow> True | RWX_RW \<Rightarrow> True | RWX_RX \<Rightarrow> True | RWX_RWX \<Rightarrow> True
     | RWX_W \<Rightarrow> False | RWX_X \<Rightarrow> False)"

definition rwx_w :: "RWX \<Rightarrow> bool" where
  "rwx_w p = (case p of RWX_W \<Rightarrow> True | RWX_RW \<Rightarrow> True | RWX_RWX \<Rightarrow> True
     | RWX_R \<Rightarrow> False | RWX_X \<Rightarrow> False | RWX_RX \<Rightarrow> False)"

definition rwx_x :: "RWX \<Rightarrow> bool" where
  "rwx_x p = (case p of RWX_X \<Rightarrow> True | RWX_RX \<Rightarrow> True | RWX_RWX \<Rightarrow> True
     | RWX_R \<Rightarrow> False | RWX_W \<Rightarrow> False | RWX_RW \<Rightarrow> False)"

definition intersection :: "RWX \<Rightarrow> RWX \<Rightarrow> RWX option" where
  "intersection p q =
     (case from_flags (rwx_r p \<and> rwx_r q) (rwx_w p \<and> rwx_w q) (rwx_x p \<and> rwx_x q)
      of Inr r \<Rightarrow> Some r | Inl _ \<Rightarrow> None)"

definition is_subset_of :: "RWX \<Rightarrow> RWX \<Rightarrow> bool" where
  "is_subset_of p superset \<longleftrightarrow> intersection p superset = Some p"

fun rwx_into_raw :: "RWX \<Rightarrow> u8" where
  "rwx_into_raw RWX_R = 4"
| "rwx_into_raw RWX_W = 2"
| "rwx_into_raw RWX_X = 1"
| "rwx_into_raw RWX_RW = 6"
| "rwx_into_raw RWX_RX = 5"
| "rwx_into_raw RWX_RWX = 7"

definition rwx_try_from_raw :: "u8 \<Rightarrow> RWX option" where
  "rwx_try_from_raw n =
     (if n = 4 then Some RWX_R else if n = 2 then Some RWX_W else if n = 1 then Some RWX_X
      else if n = 6 then Some RWX_RW else if n = 5 then Some RWX_RX else if n = 7 then Some RWX_RWX
      else None)"

lemmas rwx_defs = rwx_r_def rwx_w_def rwx_x_def

lemma rwx_try_from_into [simp]: "rwx_try_from_raw (rwx_into_raw p) = Some p"
  by (cases p) (simp_all add: rwx_try_from_raw_def)

lemma rwx_into_raw_bound: "unat (rwx_into_raw p) < 8"
  by (cases p) simp_all

lemma rwx_try_from_Some: "rwx_try_from_raw n = Some p \<longleftrightarrow> n = rwx_into_raw p"
  by (cases p) (auto simp: rwx_try_from_raw_def split: if_splits)

lemma rwx_nonempty: "rwx_r p \<or> rwx_w p \<or> rwx_x p"
  by (cases p) (simp_all add: rwx_defs)

lemma from_flags_sound:
  "from_flags r w x = Inr p \<Longrightarrow> rwx_r p = r \<and> rwx_w p = w \<and> rwx_x p = x"
  by (induction r w x rule: from_flags.induct) (auto simp: rwx_defs)

lemma from_flags_complete: "from_flags (rwx_r p) (rwx_w p) (rwx_x p) = Inr p"
  by (cases p) (simp_all add: rwx_defs)

lemma intersection_Some:
  assumes "intersection p q = Some r"
  shows "rwx_r r = (rwx_r p \<and> rwx_r q)" "rwx_w r = (rwx_w p \<and> rwx_w q)" "rwx_x r = (rwx_x p \<and> rwx_x q)"
  using assms from_flags_sound by (auto simp: intersection_def split: sum.splits)

lemma is_subset_of_iff:
  "is_subset_of p superset \<longleftrightarrow> (rwx_r p \<longrightarrow> rwx_r superset) \<and> (rwx_w p \<longrightarrow> rwx_w superset) \<and> (rwx_x p \<longrightarrow> rwx_x superset)"
  by (cases p; cases superset) (simp_all add: is_subset_of_def intersection_def rwx_defs)

section \<open>Power-of-two sizes\<close>

datatype Pow2Size = Pow2Size (p2_log: u8)

definition count_ones :: "'n::len word \<Rightarrow> nat" where
  "count_ones w = length (filter (bit w) [0..<LENGTH('n)])"

definition trailing_zeros :: "'n::len word \<Rightarrow> nat" where
  "trailing_zeros w = length (takeWhile (\<lambda>i. \<not> bit w i) [0..<LENGTH('n)])"

text \<open>
  The conversions of the macro \<open>p2s\<close>, for the unsigned and (\<open>_s\<close>) for the signed types.
\<close>

definition p2s_try_from :: "'n::len word \<Rightarrow> unit + Pow2Size" where
  "p2s_try_from n = (if count_ones n = 1 then Inr (Pow2Size (of_nat (trailing_zeros n))) else Inl ())"

definition p2s_try_into :: "Pow2Size \<Rightarrow> unit + 'n::len word" where
  "p2s_try_into p = (if unat (p2_log p) < LENGTH('n) then Inr (push_bit (unat (p2_log p)) 1) else Inl ())"

definition p2s_try_from_s :: "'n::len word \<Rightarrow> unit + Pow2Size" where
  "p2s_try_from_s n =
     (if sint n > 0 \<and> count_ones n = 1 then Inr (Pow2Size (of_nat (trailing_zeros n))) else Inl ())"

definition p2s_try_into_s :: "Pow2Size \<Rightarrow> unit + 'n::len word" where
  "p2s_try_into_s p =
     (if unat (p2_log p) < LENGTH('n) - 1 then Inr (push_bit (unat (p2_log p)) 1) else Inl ())"

lemma count_ones_exp: "k < LENGTH('n) \<Longrightarrow> count_ones (2 ^ k :: 'n::len word) = 1"
proof -
  assume k: "k < LENGTH('n)"
  have "filter (bit (2 ^ k :: 'n word)) [0..<LENGTH('n)] = filter (\<lambda>i. i = k) [0..<LENGTH('n)]"
    by (intro filter_cong) (auto simp: bit_exp_word)
  moreover have "set [0..<LENGTH('n)] \<inter> {i. i = k} = {k}" using k by auto
  ultimately show ?thesis by (simp add: count_ones_def distinct_length_filter Int_commute)
qed

lemma trailing_zeros_exp:
  assumes "k < LENGTH('n)" shows "trailing_zeros (2 ^ k :: 'n::len word) = k"
proof -
  have "[0..<LENGTH('n)] = [0..<k] @ k # [Suc k..<LENGTH('n)]"
    using assms upt_add_eq_append [of 0 k "LENGTH('n) - k"] by (simp add: upt_conv_Cons)
  moreover have "takeWhile (\<lambda>i. \<not> bit (2 ^ k :: 'n word) i) ([0..<k] @ k # [Suc k..<LENGTH('n)]) = [0..<k]"
    using assms by (subst takeWhile_append2) (auto simp: bit_exp_word)
  ultimately show ?thesis by (simp add: trailing_zeros_def)
qed

lemma count_ones_one_D:
  assumes "count_ones (n :: 'n::len word) = 1"
  shows "\<exists>k < LENGTH('n). n = 2 ^ k"
proof -
  obtain k where k: "filter (bit n) [0..<LENGTH('n)] = [k]"
    using assms by (auto simp: count_ones_def length_Suc_conv)
  then have "k \<in> set (filter (bit n) [0..<LENGTH('n)])" by simp
  then have kb: "k < LENGTH('n)" by simp
  have "bit n i = (i = k)" if "i < LENGTH('n)" for i
    using arg_cong [where f = set, OF k] that by auto
  then have "n = 2 ^ k"
    by (intro bit_word_eqI) (auto simp: bit_exp_word)
  with kb show ?thesis by blast
qed

lemma p2s_try_from_exp:
  "k < LENGTH('n) \<Longrightarrow> p2s_try_from (2 ^ k :: 'n::len word) = Inr (Pow2Size (of_nat k))"
  by (simp add: p2s_try_from_def count_ones_exp trailing_zeros_exp)

lemma p2s_try_from_Inr:
  assumes "p2s_try_from (n :: 'n::len word) = Inr p" and "LENGTH('n) \<le> 256"
  shows "unat (p2_log p) < LENGTH('n) \<and> n = 2 ^ unat (p2_log p)"
proof -
  have "count_ones n = 1" using assms(1) by (simp add: p2s_try_from_def split: if_splits)
  from count_ones_one_D [OF this] obtain k where k: "k < LENGTH('n)" "n = 2 ^ k" by blast
  have "unat (of_nat k :: u8) = k" using k(1) assms(2) by (simp add: unat_of_nat_small)
  with assms(1) k show ?thesis using p2s_try_from_exp [OF k(1)] by auto
qed

section \<open>Seeking\<close>

datatype SeekFrom = Start u64 | End i64 | Current i64

definition saturating_add :: "usize \<Rightarrow> usize \<Rightarrow> usize" where
  "saturating_add a b = (if unat a + unat b < 2 ^ 64 then a + b else -1)"

definition saturating_sub :: "usize \<Rightarrow> usize \<Rightarrow> usize" where
  "saturating_sub a b = (if b \<le> a then a - b else 0)"

text \<open>\<open>n.try_into::<usize>().unwrap_or(usize::MAX)\<close> on an \<open>i64\<close>.\<close>

definition usize_or_max :: "i64 \<Rightarrow> usize" where
  "usize_or_max n = (if 0 \<le> sint n then n else -1)"

fun seek_apply :: "SeekFrom \<Rightarrow> usize \<Rightarrow> usize \<Rightarrow> usize" where
  "seek_apply (Start n) offset mx = n"
| "seek_apply (End n) offset mx = saturating_sub mx (usize_or_max (- n))"
| "seek_apply (Current n) offset mx =
     (if 0 \<le> sint n then min (saturating_add offset (usize_or_max n)) mx
      else saturating_sub offset (usize_or_max (- n)))"

fun seek_into_raw :: "SeekFrom \<Rightarrow> u8 \<times> u64" where
  "seek_into_raw (Start n) = (0, n)"
| "seek_into_raw (End n) = (1, n)"
| "seek_into_raw (Current n) = (2, n)"

definition seek_try_from_raw :: "u8 \<Rightarrow> u64 \<Rightarrow> unit + SeekFrom" where
  "seek_try_from_raw t n =
     (if t = 0 then Inr (Start n) else if t = 1 then Inr (End n)
      else if t = 2 then Inr (Current n) else Inl ())"

lemma seek_raw_roundtrip: "seek_try_from_raw (fst (seek_into_raw s)) (snd (seek_into_raw s)) = Inr s"
  by (cases s) (simp_all add: seek_try_from_raw_def)

lemma uint_saturating_sub: "uint (saturating_sub a b) = max 0 (uint a - uint b)"
proof (cases "uint b \<le> uint a")
  case True
  have "uint (a - b) = uint a - uint b" using True by (simp add: uint_sub_if')
  with True show ?thesis by (simp add: saturating_sub_def word_le_def)
qed (simp add: saturating_sub_def word_le_def)

lemma uint_min: "uint (min a b :: 64 word) = min (uint a) (uint b)"
  by (simp add: min_def word_le_def)

lemma uint_saturating_add: "uint (saturating_add a b) = min (2 ^ 64 - 1) (uint a + uint b)"
proof -
  have "unat a + unat b < 2 ^ 64 \<longleftrightarrow> uint a + uint b < 2 ^ 64"
    using of_nat_less_iff [of "unat a + unat b" "2 ^ 64", where 'a = int] by simp
  then show ?thesis
    by (auto simp: saturating_add_def uint_word_ariths mod_pos_pos_trivial)
qed

lemma uint_neg64: "uint (- n :: 64 word) = (if n = 0 then 0 else 2 ^ 64 - uint n)"
proof (cases "n = 0")
  case False
  then have "0 < uint n" by (simp add: word_neq_0_conv word_less_def)
  then have "uint (0 - n) = 2 ^ 64 - uint n" by (simp only: uint_sub_if') simp
  with False show ?thesis by simp
qed simp

lemma uint_usize_or_max: "uint (usize_or_max n) = (if 0 \<le> sint n then sint n else 2 ^ 64 - 1)"
  using uint_lt2p [of n] by (simp add: usize_or_max_def sint64_if)

lemma uint_usize_or_max_neg:
  "uint (usize_or_max (- n)) = (if - (2 ^ 63) < sint n \<and> sint n \<le> 0 then - sint n else 2 ^ 64 - 1)"
proof (cases "n = 0")
  case False
  have "sint (- n) = (if 2 ^ 64 - uint n < 2 ^ 63 then 2 ^ 64 - uint n else - uint n)"
    using False by (simp add: sint64_if [of "- n"] uint_neg64)
  moreover have "0 < uint n" "uint n < 2 ^ 64"
    using False uint_lt2p [of n] by (simp_all add: word_neq_0_conv word_less_def)
  ultimately show ?thesis by (simp add: uint_usize_or_max sint64_if [of n])
qed (simp add: uint_usize_or_max)

text \<open>
  C8. Seeking within an object of at most \<open>isize::MAX\<close> bytes: a move relative to the current position
  is clamped to the object, a move backwards from the end is clamped to its start, and a move forward
  from the end goes to position 0.
\<close>

theorem seek_apply_clamps:
  assumes "offset \<le> mx" and "unat mx \<le> isize_MAX"
  shows "uint (seek_apply (Current n) offset mx) = max 0 (min (uint mx) (uint offset + sint n))
    \<and> (sint n \<le> 0 \<longrightarrow> uint (seek_apply (End n) offset mx) = max 0 (uint mx + sint n))
    \<and> (0 < sint n \<longrightarrow> seek_apply (End n) offset mx = 0)"
proof -
  have b: "uint offset \<le> uint mx" "uint mx < 2 ^ 63" "0 \<le> uint offset"
    using assms of_nat_le_iff [of "unat mx" isize_MAX, where 'a = int]
    by (simp_all add: word_le_def isize_MAX_def)
  have s: "- (2 ^ 63) \<le> sint n" "sint n < 2 ^ 63"
    using sint_ge [of n] sint_lt [of n] by simp_all
  have 1: "uint (seek_apply (Current n) offset mx) = max 0 (min (uint mx) (uint offset + sint n))"
  proof (cases "0 \<le> sint n")
    case True
    then have "uint (seek_apply (Current n) offset mx)
        = min (min (2 ^ 64 - 1) (uint offset + sint n)) (uint mx)"
      by (simp only: seek_apply.simps if_True uint_min uint_saturating_add uint_usize_or_max)
    with True b show ?thesis by simp
  next
    case False
    then have "uint (seek_apply (Current n) offset mx) = max 0 (uint offset -
        (if - (2 ^ 63) < sint n \<and> sint n \<le> 0 then - sint n else 2 ^ 64 - 1))"
      by (simp only: seek_apply.simps if_False uint_saturating_sub uint_usize_or_max_neg)
    with False b s show ?thesis by (simp split: if_splits)
  qed
  have 2: "uint (seek_apply (End n) offset mx) = (if sint n \<le> 0 then max 0 (uint mx + sint n) else 0)"
    using b s
    by (simp only: seek_apply.simps uint_saturating_sub uint_usize_or_max_neg) (simp split: if_splits)
  then have "0 < sint n \<longrightarrow> seek_apply (End n) offset mx = 0" by (metis linorder_not_le uint_0_iff)
  with 1 2 show ?thesis by auto
qed

theorem seek_apply_clamps_witness:
  "uint (seek_apply (Current (-3)) 10 100) = 7 \<and> uint (seek_apply (End (-1)) 10 100) = 99"
  using seek_apply_clamps [of 10 100 "-3"] seek_apply_clamps [of 10 100 "-1"]
  by (simp add: isize_MAX_def sint64_if)

section \<open>New objects\<close>

type_synonym Handle = u32

datatype NewObjectType = TSubRange | TRoot | TDuplicate | TSharedMemory | TStreamTable
  | TPermissionMask | TPipe | TMessagePipe

fun new_object_type_raw :: "NewObjectType \<Rightarrow> usize" where
  "new_object_type_raw TSubRange = 0"
| "new_object_type_raw TRoot = 1"
| "new_object_type_raw TDuplicate = 2"
| "new_object_type_raw TSharedMemory = 3"
| "new_object_type_raw TStreamTable = 4"
| "new_object_type_raw TPermissionMask = 5"
| "new_object_type_raw TPipe = 6"
| "new_object_type_raw TMessagePipe = 7"

text \<open>A number above 255 fails the conversion to \<open>u8\<close> and is no type either.\<close>

definition new_object_type_from_raw :: "usize \<Rightarrow> NewObjectType option" where
  "new_object_type_from_raw n =
     (if n = 0 then Some TSubRange else if n = 1 then Some TRoot
      else if n = 2 then Some TDuplicate else if n = 3 then Some TSharedMemory
      else if n = 4 then Some TStreamTable else if n = 5 then Some TPermissionMask
      else if n = 6 then Some TPipe else if n = 7 then Some TMessagePipe else None)"

datatype NewObject =
    NewSubRange Handle "usize \<times> usize"
  | NewRoot
  | NewDuplicate Handle
  | NewSharedMemory usize
  | NewStreamTable Handle Pow2Size bool u32
  | NewPermissionMask Handle RWX
  | NewPipe
  | NewMessagePipe

datatype NewObjectArgs = N0 | N1 usize | N2 usize usize | N3 usize usize usize

fun new_object_into_args :: "NewObject \<Rightarrow> usize \<times> NewObjectArgs" where
  "new_object_into_args (NewSubRange h rng) =
     (new_object_type_raw TSubRange, N3 (ucast h) (fst rng) (snd rng))"
| "new_object_into_args NewRoot = (new_object_type_raw TRoot, N0)"
| "new_object_into_args (NewDuplicate h) = (new_object_type_raw TDuplicate, N1 (ucast h))"
| "new_object_into_args (NewSharedMemory sz) = (new_object_type_raw TSharedMemory, N1 sz)"
| "new_object_into_args (NewStreamTable mem block sharing max_mem) =
     (new_object_type_raw TStreamTable,
      N3 (ucast mem) (ucast (p2_log block) OR push_bit 8 (of_bool sharing)) (ucast max_mem))"
| "new_object_into_args (NewPermissionMask h rwx) =
     (new_object_type_raw TPermissionMask, N2 (ucast h) (ucast (rwx_into_raw rwx)))"
| "new_object_into_args NewPipe = (new_object_type_raw TPipe, N0)"
| "new_object_into_args NewMessagePipe = (new_object_type_raw TMessagePipe, N0)"

definition new_object_try_from_args :: "usize \<Rightarrow> usize \<Rightarrow> usize \<Rightarrow> usize \<Rightarrow> NewObject option" where
  "new_object_try_from_args ty a b c =
     do { t \<leftarrow> new_object_type_from_raw ty;
          case t of
            TSubRange \<Rightarrow> Some (NewSubRange (ucast a) (b, c))
          | TRoot \<Rightarrow> Some NewRoot
          | TDuplicate \<Rightarrow> Some (NewDuplicate (ucast a))
          | TSharedMemory \<Rightarrow> Some (NewSharedMemory a)
          | TStreamTable \<Rightarrow>
              Some (NewStreamTable (ucast a) (Pow2Size (ucast b)) (b AND push_bit 8 1 \<noteq> 0) (ucast c))
          | TPermissionMask \<Rightarrow>
              do { rwx \<leftarrow> rwx_try_from_raw (ucast (b AND 7)); Some (NewPermissionMask (ucast a) rwx) }
          | TPipe \<Rightarrow> Some NewPipe
          | TMessagePipe \<Rightarrow> Some NewMessagePipe }"

lemma type_from_raw_raw [simp]: "new_object_type_from_raw (new_object_type_raw t) = Some t"
  by (cases t) (simp_all add: new_object_type_from_raw_def)

lemma ucast_down_up: "LENGTH('a) \<le> LENGTH('b) \<Longrightarrow> ucast (ucast (w :: 'a::len word) :: 'b::len word) = w"
  by (intro bit_word_eqI) (auto simp: bit_ucast_iff)

lemma stream_table_arg:
  fixes b :: u8
  shows "ucast (ucast b OR push_bit 8 (of_bool s) :: usize) = b"
    and "((ucast b OR push_bit 8 (of_bool s)) AND push_bit 8 1 :: usize) \<noteq> 0 \<longleftrightarrow> s"
proof -
  show "ucast (ucast b OR push_bit 8 (of_bool s) :: usize) = b"
    by (intro bit_word_eqI) (auto simp: bit_ucast_iff bit_or_iff bit_push_bit_iff)
  have bit256: "bit (256 :: usize) n \<longleftrightarrow> n = 8" for n
    using bit_exp_word [where 'n = 64, of 8 n] by auto
  have b8: "\<not> bit b 8" using bit_imp_le_length [of b 8] by auto
  have "(ucast b OR push_bit 8 (of_bool s)) AND push_bit 8 1 = (push_bit 8 (of_bool s) :: usize)"
  proof (rule bit_word_eqI)
    fix n assume "n < LENGTH(64)"
    then show "bit ((ucast b OR push_bit 8 (of_bool s)) AND push_bit 8 1 :: usize) n
        = bit (push_bit 8 (of_bool s) :: usize) n"
      using bit256 [of n] b8 by (cases s; cases "n = 8") (simp_all add: bit_ucast_iff bit_or_iff bit_and_iff)
  qed
  then show "((ucast b OR push_bit 8 (of_bool s)) AND push_bit 8 1 :: usize) \<noteq> 0 \<longleftrightarrow> s"
    by simp
qed

lemma rwx_arg: "rwx_try_from_raw (ucast (ucast (rwx_into_raw p) AND (7 :: usize))) = Some p"
proof -
  have "ucast (ucast (rwx_into_raw p) AND (7 :: usize)) = rwx_into_raw p"
    by (cases p) simp_all
  then show ?thesis by simp
qed

text \<open>The registers a call sets; the others hold whatever was in them.\<close>

fun args_regs :: "NewObjectArgs \<Rightarrow> usize \<times> usize \<times> usize \<Rightarrow> usize \<times> usize \<times> usize" where
  "args_regs N0 r = r"
| "args_regs (N1 a) (_, y, z) = (a, y, z)"
| "args_regs (N2 a b) (_, _, z) = (a, b, z)"
| "args_regs (N3 a b c) _ = (a, b, c)"

text \<open>
  C9. The kernel decodes the registers of a \<open>new_object\<close> call to exactly the object the program asked
  for, whatever the registers that the call does not use contain.
\<close>

theorem new_object_roundtrip:
  "(let (ty, args) = new_object_into_args obj; (a, b, c) = args_regs args regs
    in new_object_try_from_args ty a b c) = Some obj"
  by (cases obj; cases regs)
     (simp_all add: new_object_try_from_args_def ucast_down_up stream_table_arg rwx_arg
          stream_table_arg(2) [where s = False, simplified]
        del: new_object_type_raw.simps)

lemma sint_exp_pos: "k < LENGTH('n) \<Longrightarrow> 0 < sint (2 ^ k :: 'n::len word) \<longleftrightarrow> k < LENGTH('n) - 1"
proof -
  assume k: "k < LENGTH('n)"
  have "(2 ^ k :: 'n word) \<noteq> 0" using k by (metis bit_0_eq bit_exp_word bot_apply bot_bool_def)
  then have "sint (2 ^ k :: 'n word) \<noteq> 0" by (metis signed_0 signed_word_eqI)
  moreover have "0 \<le> sint (2 ^ k :: 'n word) \<longleftrightarrow> k \<noteq> LENGTH('n) - 1"
    by (simp add: sint_uint bit_uint_iff bit_exp_word k) auto
  ultimately show ?thesis using k by linarith
qed

text \<open>
  C10. A number converts to a power-of-two size exactly when it is a power of two, and the
  conversions to and from every unsigned and every signed type are inverse to each other.
\<close>

theorem pow2size_roundtrip:
  fixes n :: "'n::len word"
  assumes "LENGTH('n) \<le> 256"
  shows "((\<exists>p. p2s_try_from n = Inr p) \<longleftrightarrow> (\<exists>k. unat n = 2 ^ k))
    \<and> (p2s_try_from n = Inr p \<longleftrightarrow> p2s_try_into p = Inr n)
    \<and> (p2s_try_from_s n = Inr p \<longleftrightarrow> p2s_try_into_s p = Inr n)"
proof -
  let ?k = "unat (p2_log p)"
  have from_iff: "p2s_try_from n = Inr p \<longleftrightarrow> unat (p2_log p) < LENGTH('n) \<and> n = 2 ^ unat (p2_log p)" for p
    using p2s_try_from_Inr [OF _ assms] p2s_try_from_exp [where 'n = 'n, of "unat (p2_log p)"]
    by (metis Pow2Size.collapse word_of_nat_unat)
  have "p2s_try_from_s n = Inr p \<longleftrightarrow> 0 < sint n \<and> p2s_try_from n = Inr p"
    by (simp add: p2s_try_from_def p2s_try_from_s_def)
  then have signed: "p2s_try_from_s n = Inr p \<longleftrightarrow> p2s_try_into_s p = Inr n"
    using from_iff [of p] sint_exp_pos [where 'n = 'n, of ?k] by (auto simp: p2s_try_into_s_def)
  have "\<exists>p. p2s_try_from n = Inr p" if "unat n = 2 ^ k" for k
  proof -
    have "k < LENGTH('n)"
      using that unat_bound [of n] by (metis power_less_imp_less_exp one_less_numeral_iff semiring_norm(76))
    moreover have "n = 2 ^ k" using that by (metis of_nat_numeral of_nat_power word_of_nat_unat)
    ultimately show ?thesis using p2s_try_from_exp by blast
  qed
  moreover have "\<exists>k. unat n = 2 ^ k" if "p2s_try_from n = Inr q" for q
  proof -
    have "2 ^ unat (p2_log q) < (2 ^ LENGTH('n) :: nat)" using that from_iff by simp
    then show ?thesis using that from_iff [of q] unat_of_nat_small [where 'n = 'n]
      by (metis of_nat_numeral of_nat_power)
  qed
  ultimately show ?thesis using from_iff [of p] signed by (auto simp: p2s_try_into_def)
qed

theorem pow2size_roundtrip_witness:
  "p2s_try_from (1048576 :: u32) = Inr (Pow2Size 20) \<and> p2s_try_from_s (64 :: 8 word) = Inr (Pow2Size 6)"
  using pow2size_roundtrip [of "1048576 :: u32" "Pow2Size 20"]
    pow2size_roundtrip [of "64 :: 8 word" "Pow2Size 6"]
  by (simp add: p2s_try_into_def p2s_try_into_s_def push_bit_eq_mult)

end
