(* ===== verification/Dma.thy ===== *)
theory Dma
  imports Fixed_Bitmap Kernel_Api
begin

text \<open>
  Memory for direct memory access, \<open>kernel/src/memory/frame/dma.rs\<close>, and the initialisation of both
  frame allocators from the memory regions that the boot loader reports
  (\<open>kernel/src/memory/frame/mod.rs\<close>). A DMA object is a physically contiguous range of frames; user
  programs create it by writing its size as a decimal path and read its size and address as decimals.
\<close>

section \<open>Objects\<close>

record DmaFrame =
  dma_base :: ppn
  dma_count :: u32

type_synonym dma_state = "FixedBitmap \<times> phys_mem"

definition dma_pages :: "ppn \<Rightarrow> nat \<Rightarrow> ppn list" where
  "dma_pages base n = map (\<lambda>i. skip base (of_nat i)) [0..<n]"

definition dma_new :: "nat \<Rightarrow> dma_state \<Rightarrow> ((Error + DmaFrame) \<times> dma_state) panics" where
  "dma_new n s =
     do { (r, fb) \<leftarrow> pop_range n (fst s);
          case r of None \<Rightarrow> Some (Inl CantCreateObject, (fb, snd s))
          | Some base \<Rightarrow>
              do { assert (n < 2 ^ 32);
                   Some (Inr \<lparr>dma_base = base, dma_count = of_nat n\<rparr>,
                         (fb, fold (\<lambda>p m. clear_page m p) (dma_pages base n) (snd s))) } }"

datatype dma_property = DmaSize nat | DmaPhys ppn

text \<open>The paths \<open>size\<close> and \<open>phys\<close> in ASCII.\<close>

definition dma_open :: "DmaFrame \<Rightarrow> u8 list \<Rightarrow> Error + dma_property" where
  "dma_open f path =
     (if path = [0x73, 0x69, 0x7a, 0x65] then Inr (DmaSize (unat (dma_count f) * PAGE_SIZE))
      else if path = [0x70, 0x68, 0x79, 0x73] then Inr (DmaPhys (dma_base f))
      else Inl InvalidData)"

fun dma_property_read :: "dma_property \<Rightarrow> nat \<Rightarrow> Error + u8 list" where
  "dma_property_read (DmaSize n) len =
     (let s = to_string n in if length s \<le> len then Inr s else Inl InvalidData)"
| "dma_property_read (DmaPhys p) len =
     (let s = to_string (as_phys p) in if length s \<le> len then Inr s else Inl InvalidData)"

definition dma_physical_pages :: "DmaFrame \<Rightarrow> ppn list" where
  "dma_physical_pages f = dma_pages (dma_base f) (unat (dma_count f))"

text \<open>Dropping a DMA object gives its frames to the general allocator.\<close>

fun iter_frames :: "nat \<Rightarrow> page_frame_iter \<Rightarrow> ppn list panics" where
  "iter_frames 0 it = Some []"
| "iter_frames (Suc n) it =
     do { (p, it) \<leftarrow> page_frame_next it; ps \<leftarrow> iter_frames n it; Some (p # ps) }"

definition dma_drop :: "bool \<Rightarrow> DmaFrame \<Rightarrow> chain \<times> phys_mem \<Rightarrow> (chain \<times> phys_mem) panics" where
  "dma_drop dbg f s =
     do { ps \<leftarrow> iter_frames (unat (dma_count f)) \<lparr>it_base = dma_base f, it_count = unat (dma_count f)\<rparr>;
          Some (deallocate dbg ps s) }"

text \<open>
  A path that is no UTF-8 has a byte that is no digit, so it fails with the same error as a number
  that does not parse. \<open>NonZeroUsize\<close> rejects zero; the \<open>unwrap\<close> of the page count is a panic.
\<close>

definition dma_create :: "u8 list \<Rightarrow> dma_state \<Rightarrow> ((Error + DmaFrame) \<times> dma_state) panics" where
  "dma_create path s =
     (case parse_usize path of
        None \<Rightarrow> Some (Inl InvalidData, s)
      | Some n \<Rightarrow>
          if n = 0 then Some (Inl InvalidData, s)
          else do { assert (min_pages_for_bytes n \<noteq> 0); dma_new (min_pages_for_bytes n) s })"

section \<open>Initialisation\<close>

fun dma_init :: "MemoryRegion list \<Rightarrow> FixedBitmap \<Rightarrow> (MemoryRegion list \<times> FixedBitmap) panics" where
  "dma_init [] fb = Some ([], fb)"
| "dma_init (r # rs) fb =
     do { (r, fb) \<leftarrow> add_region r fb; (rs, fb) \<leftarrow> dma_init rs fb; Some (r # rs, fb) }"

definition frame_init ::
  "bool \<Rightarrow> MemoryRegion list \<Rightarrow> (chain \<times> phys_mem) \<times> FixedBitmap
    \<Rightarrow> ((chain \<times> phys_mem) \<times> FixedBitmap) panics" where
  "frame_init dbg rs = (\<lambda>(s, fb).
     do { (rs, fb) \<leftarrow> dma_init rs fb; Some (init_frames dbg rs s, fb) })"

section \<open>Facts\<close>

lemma dma_pages_distinct: "n \<le> 2 ^ 32 \<Longrightarrow> distinct (dma_pages base n)"
proof -
  assume n: "n \<le> 2 ^ 32"
  have "i = j" if "i < n" "j < n" "skip base (of_nat i) = skip base (of_nat j)" for i j
  proof -
    have "(of_nat i :: u32) = of_nat j" using that by (simp add: skip_def)
    then have "unat (of_nat i :: u32) = unat (of_nat j :: u32)" by simp
    then show "i = j" using that n by (simp add: unat_of_nat_small)
  qed
  then show ?thesis by (auto simp: dma_pages_def distinct_map inj_on_def)
qed

lemma iter_frames_pages:
  "n \<le> c \<Longrightarrow> iter_frames n \<lparr>it_base = p, it_count = c\<rparr> = Some (dma_pages p n)"
proof (induction n arbitrary: p c)
  case (Suc n)
  have "dma_pages p (Suc n) = p # dma_pages (p + 1) n"
    by (simp add: dma_pages_def skip_def upt_conv_Cons map_Suc_upt [symmetric] algebra_simps del: upt_Suc)
  then show ?case
    using Suc.prems Suc.IH [of "c - 1" "p + 1"] by (simp add: page_frame_next_def ppn_next_def)
qed (simp add: dma_pages_def)

lemma init_frames_deallocate:
  assumes "\<forall>r \<in> set rs. set (take_pages r) \<subseteq> range as_phys"
  shows "init_frames dbg rs s
    = deallocate dbg (map (\<lambda>a. of_nat (a div 4096)) (concat (map take_pages rs))) s"
  using assms
proof (induction rs arbitrary: s)
  case (Cons r rs)
  then show ?case
    by (simp add: init_frames_def push_region_spec) (simp add: deallocate_def)
qed (simp add: init_frames_def deallocate_def)

lemma frame_of_as_phys [simp]: "of_nat (as_phys p div 4096) = p"
  by (simp add: as_phys_def PAGE_SIZE_def)

lemma inj_frame_of: "inj_on (\<lambda>a. of_nat (a div 4096) :: ppn) (range as_phys)"
  by (auto simp: inj_on_def)

lemma init_frames_free:
  assumes "\<forall>r \<in> set rs. set (take_pages r) \<subseteq> range as_phys" and "distinct (concat (map take_pages rs))"
  shows "distinct (free_frames (init_frames dbg rs (chain_new, m)))
    \<and> set (free_frames (init_frames dbg rs (chain_new, m)))
      = {p. \<exists>r \<in> set rs. as_phys p \<in> set (take_pages r)}"
proof -
  let ?as = "concat (map take_pages rs)"
  have sub: "set ?as \<subseteq> range as_phys" using assms(1) by auto
  have d: "distinct (map (\<lambda>a. of_nat (a div 4096) :: ppn) ?as)"
    using assms(2) inj_on_subset [OF inj_frame_of sub] by (simp only: distinct_map)
  have "free_frames (init_frames dbg rs (chain_new, m)) = rev (map (\<lambda>a. of_nat (a div 4096)) ?as)"
    using deallocate_spec [OF d] by (simp add: init_frames_deallocate [OF assms(1)])
  moreover have "(\<lambda>a. of_nat (a div 4096) :: ppn) ` set ?as = {p. as_phys p \<in> set ?as}"
  proof (intro set_eqI iffI)
    fix p assume "p \<in> (\<lambda>a. of_nat (a div 4096) :: ppn) ` set ?as"
    then obtain a where a: "a \<in> set ?as" "p = of_nat (a div 4096)" by blast
    then obtain q :: ppn where "a = as_phys q" using sub by blast
    with a show "p \<in> {p. as_phys p \<in> set ?as}" by simp
  next
    fix p assume "p \<in> {p. as_phys p \<in> set ?as}"
    then show "p \<in> (\<lambda>a. of_nat (a div 4096) :: ppn) ` set ?as"
      by (intro image_eqI [of _ _ "as_phys p"]) simp_all
  qed
  ultimately show ?thesis using d by simp
qed

lemma bm_bit_all_ones: "bm_bit (map (\<lambda>_. -1) bs) i \<longleftrightarrow> i < 128 * length bs"
  using less_mult_imp_div_less [of i "length bs" 128] by (auto simp: bm_bit_def mult.commute)

text \<open>The DMA allocator takes its range from the first region that is large enough.\<close>

definition DMA_SIZE :: nat where
  "DMA_SIZE = 128 * BITMAP_LEN * PAGE_SIZE"

lemma dma_init_small:
  assumes "\<forall>r \<in> set rs. mr_size r < DMA_SIZE"
  shows "dma_init (rs @ post) fixed_bitmap_default
    = map_option (\<lambda>(rs', fb). (rs @ rs', fb)) (dma_init post fixed_bitmap_default)"
  using assms
proof (induction rs)
  case (Cons r rs)
  have "add_region r fixed_bitmap_default = Some (r, fixed_bitmap_default)"
    using Cons.prems by (simp add: add_region_def take_page_range_def fixed_bitmap_default_def DMA_SIZE_def BITMAP_LEN_def
        nth_opt_def PAGE_SIZE_def)
  then show ?case using Cons by (cases "dma_init post fixed_bitmap_default") auto
qed (cases "dma_init post fixed_bitmap_default"; simp)

lemma dma_init_taken: "fb_bitmap fb \<noteq> [] \<Longrightarrow> fb_bitmap fb ! 0 AND 1 \<noteq> 0 \<Longrightarrow> dma_init rs fb = Some (rs, fb)"
  by (induction rs) (simp_all add: add_region_def nth_opt_def)

definition dma_rest :: "MemoryRegion \<Rightarrow> MemoryRegion" where
  "dma_rest r = \<lparr>mr_base = mr_base r + PAGE_SIZE, mr_size = mr_size r - DMA_SIZE\<rparr>"

definition dma_full :: "ppn \<Rightarrow> FixedBitmap" where
  "dma_full b = \<lparr>fb_base = b, fb_bitmap = replicate BITMAP_LEN (-1)\<rparr>"

lemma dma_init_large:
  assumes "\<forall>x \<in> set pre. mr_size x < DMA_SIZE" and "DMA_SIZE \<le> mr_size r" and "mr_base r = as_phys b"
  shows "dma_init (pre @ r # post) fixed_bitmap_default = Some (pre @ dma_rest r # post, dma_full b)"
proof -
  have "as_phys b div 4096 < 2 ^ 32" using unat_bound [of b] by (simp add: as_phys_def PAGE_SIZE_def)
  then have "add_region r fixed_bitmap_default = Some (dma_rest r, dma_full b)"
    using assms(2,3) by (simp add: add_region_def take_page_range_def fixed_bitmap_default_def DMA_SIZE_def BITMAP_LEN_def
        nth_opt_def PAGE_SIZE_def dma_rest_def dma_full_def)
  moreover have "dma_init post (dma_full b) = Some (post, dma_full b)"
    by (rule dma_init_taken) (simp_all add: dma_full_def BITMAP_LEN_def)
  ultimately show ?thesis by (simp add: dma_init_small [OF assms(1)])
qed

text \<open>The pages of a region are consecutive frames.\<close>

lemma region_frames:
  assumes "set (take_pages r) \<subseteq> range as_phys" and "PAGE_SIZE \<le> mr_size r"
  obtains b where "mr_base r = as_phys b"
    and "\<And>i. i < mr_size r div PAGE_SIZE \<Longrightarrow> as_phys (skip b (of_nat i)) = mr_base r + i * PAGE_SIZE"
proof -
  have page: "mr_base r + i * PAGE_SIZE \<in> range as_phys" if "i < mr_size r div PAGE_SIZE" for i
  proof (rule subsetD [OF assms(1)])
    show "mr_base r + i * PAGE_SIZE \<in> set (take_pages r)" using that by (auto simp: take_pages_eq)
  qed
  have "0 < mr_size r div PAGE_SIZE" using assms(2) by (simp add: div_greater_zero_iff)
  then obtain b :: ppn where b: "mr_base r = as_phys b" using page [of 0] by auto
  have "as_phys (skip b (of_nat i)) = mr_base r + i * PAGE_SIZE" if lt: "i < mr_size r div PAGE_SIZE" for i
  proof -
    obtain q :: ppn where q: "mr_base r + i * PAGE_SIZE = as_phys q" using page [OF lt] by blast
    then have "unat q = unat b + i" using b by (simp add: as_phys_def PAGE_SIZE_def)
    then have "unat (skip b (of_nat i)) = unat b + i"
      using unat_bound [of q] unat_of_nat_small [where 'n = 32, of "unat b + i"] by (simp add: skip_def)
    then show ?thesis using b by (simp add: as_phys_def algebra_simps)
  qed
  with b show thesis by (rule that)
qed

lemma rest_frames:
  assumes "set (take_pages r) \<subseteq> range as_phys" and "DMA_SIZE \<le> mr_size r"
  obtains b where "mr_base r = as_phys b"
    and "as_phys ` set (dma_pages b 4096) \<subseteq> set (take_pages r)"
    and "set (take_pages (dma_rest r)) = as_phys ` set (dma_pages (skip b 1) (mr_size r div PAGE_SIZE - 4096))"
    and "set (take_pages (dma_rest r)) \<subseteq> set (take_pages r)" and "distinct (take_pages (dma_rest r))"
proof -
  let ?n = "mr_size r div PAGE_SIZE"
  have n: "4096 \<le> ?n" using assms(2) div_le_mono [of DMA_SIZE "mr_size r" PAGE_SIZE]
    by (simp add: DMA_SIZE_def BITMAP_LEN_def)
  have "PAGE_SIZE \<le> mr_size r" using assms(2) by (simp add: DMA_SIZE_def BITMAP_LEN_def)
  from region_frames [OF assms(1) this] obtain b where b: "mr_base r = as_phys b"
    "\<And>i. i < ?n \<Longrightarrow> as_phys (skip b (of_nat i)) = mr_base r + i * PAGE_SIZE" by blast
  have len: "(mr_size r - DMA_SIZE) div PAGE_SIZE = ?n - 4096"
    using assms(2) div_mult_self1 [of PAGE_SIZE "mr_size r - DMA_SIZE" 4096] by (simp add: DMA_SIZE_def BITMAP_LEN_def)
  have step: "skip (skip b 1) (of_nat i) = skip b (of_nat (Suc i))" for i by (simp add: skip_def)
  have tp: "take_pages (dma_rest r) = map (\<lambda>i. mr_base r + Suc i * PAGE_SIZE) [0..<?n - 4096]"
    by (simp add: take_pages_eq dma_rest_def len algebra_simps)
  also have "\<dots> = map (\<lambda>i. as_phys (skip (skip b 1) (of_nat i))) [0..<?n - 4096]"
    unfolding step by (intro map_cong refl b(2) [symmetric]) (use n in auto)
  finally have "set (take_pages (dma_rest r)) = as_phys ` set (dma_pages (skip b 1) (?n - 4096))"
    by (simp add: dma_pages_def image_image)
  moreover have "set (take_pages (dma_rest r)) \<subseteq> set (take_pages r)"
    unfolding tp take_pages_eq [of r] using n by (auto intro!: image_eqI simp del: mult_Suc)
  moreover have "distinct (take_pages (dma_rest r))"
    unfolding tp by (simp add: distinct_map inj_on_def PAGE_SIZE_def)
  moreover have "as_phys ` set (dma_pages b 4096) \<subseteq> set (take_pages r)"
    using n b(2) by (auto simp: dma_pages_def take_pages_eq)
  ultimately show thesis using that [OF b(1)] by blast
qed

lemma inj_as_phys: "inj as_phys"
  by (rule inj_on_inverseI [of _ "\<lambda>a. of_nat (a div 4096)"]) simp

text \<open>
  C12. The initialisation of both frame allocators from memory regions that have no page in common and
  lie below the 16 TiB limit. If no region has the 4096 pages of the DMA allocator, that allocator
  stays empty and the chain of free frames holds every page of every region exactly once. Otherwise
  the DMA allocator gets the first 4096 frames of the first region that has them, and the chain holds,
  each exactly once, every page of the other regions and as many frames as the region has beyond 4096,
  counted from its second frame on. (They should be counted from the end of the DMA range: the frames
  are given out twice, see \<open>frame_init_overlap\<close> below.)
\<close>

theorem frame_init_exact:
  assumes "\<forall>r \<in> set rs. set (take_pages r) \<subseteq> range as_phys" and "distinct (concat (map take_pages rs))"
  shows "((\<forall>r \<in> set rs. mr_size r < DMA_SIZE) \<longrightarrow>
      (\<exists>s. frame_init dbg rs ((chain_new, m), fixed_bitmap_default) = Some (s, fixed_bitmap_default)
        \<and> distinct (free_frames s) \<and> set (free_frames s) = {p. \<exists>r \<in> set rs. as_phys p \<in> set (take_pages r)}))
    \<and> (\<forall>pre r post. rs = pre @ r # post \<and> (\<forall>x \<in> set pre. mr_size x < DMA_SIZE) \<and> DMA_SIZE \<le> mr_size r \<longrightarrow>
      (\<exists>s fb. frame_init dbg rs ((chain_new, m), fixed_bitmap_default) = Some (s, fb)
        \<and> mr_base r = as_phys (fb_base fb) \<and> (\<forall>i. bm_bit (fb_bitmap fb) i \<longleftrightarrow> i < 4096)
        \<and> (\<forall>p \<in> set (dma_pages (fb_base fb) 4096). as_phys p \<in> set (take_pages r))
        \<and> distinct (free_frames s)
        \<and> set (free_frames s) = {p. \<exists>x \<in> set pre \<union> set post. as_phys p \<in> set (take_pages x)}
            \<union> set (dma_pages (skip (fb_base fb) 1) (mr_size r div PAGE_SIZE - 4096))))"
proof (intro conjI allI impI)
  assume small: "\<forall>r \<in> set rs. mr_size r < DMA_SIZE"
  have "frame_init dbg rs ((chain_new, m), fixed_bitmap_default) = Some (init_frames dbg rs (chain_new, m), fixed_bitmap_default)"
    using dma_init_small [OF small, of "[]"] by (simp add: frame_init_def)
  then show "\<exists>s. frame_init dbg rs ((chain_new, m), fixed_bitmap_default) = Some (s, fixed_bitmap_default)
        \<and> distinct (free_frames s) \<and> set (free_frames s) = {p. \<exists>r \<in> set rs. as_phys p \<in> set (take_pages r)}"
    using init_frames_free [OF assms, of dbg m] by blast
next
  fix pre r post
  assume h: "rs = pre @ r # post \<and> (\<forall>x \<in> set pre. mr_size x < DMA_SIZE) \<and> DMA_SIZE \<le> mr_size r"
  obtain b where b: "mr_base r = as_phys b" "as_phys ` set (dma_pages b 4096) \<subseteq> set (take_pages r)"
    "set (take_pages (dma_rest r)) = as_phys ` set (dma_pages (skip b 1) (mr_size r div PAGE_SIZE - 4096))"
    "set (take_pages (dma_rest r)) \<subseteq> set (take_pages r)" "distinct (take_pages (dma_rest r))"
    by (rule rest_frames [of r]) (use h assms(1) in auto)
  let ?rs = "pre @ dma_rest r # post" let ?s = "init_frames dbg ?rs (chain_new, m)"
  have "frame_init dbg rs ((chain_new, m), fixed_bitmap_default) = Some (?s, dma_full b)"
    using h dma_init_large [of pre r b post] b(1) by (simp add: frame_init_def)
  moreover have "\<forall>x \<in> set ?rs. set (take_pages x) \<subseteq> range as_phys" using assms(1) h b(4) by auto
  moreover have "distinct (concat (map take_pages ?rs))" using assms(2) h b(4,5) by auto
  ultimately have "frame_init dbg rs ((chain_new, m), fixed_bitmap_default) = Some (?s, dma_full b)"
    "distinct (free_frames ?s)" "set (free_frames ?s) = {p. \<exists>x \<in> set ?rs. as_phys p \<in> set (take_pages x)}"
    using init_frames_free [of ?rs dbg m] by blast+
  moreover have "bm_bit (fb_bitmap (dma_full b)) i \<longleftrightarrow> i < 4096" for i
    using bm_bit_all_ones [of "replicate BITMAP_LEN 0" i] by (simp add: dma_full_def BITMAP_LEN_def)
  ultimately show "\<exists>s fb. frame_init dbg rs ((chain_new, m), fixed_bitmap_default) = Some (s, fb)
        \<and> mr_base r = as_phys (fb_base fb) \<and> (\<forall>i. bm_bit (fb_bitmap fb) i \<longleftrightarrow> i < 4096)
        \<and> (\<forall>p \<in> set (dma_pages (fb_base fb) 4096). as_phys p \<in> set (take_pages r))
        \<and> distinct (free_frames s)
        \<and> set (free_frames s) = {p. \<exists>x \<in> set pre \<union> set post. as_phys p \<in> set (take_pages x)}
            \<union> set (dma_pages (skip (fb_base fb) 1) (mr_size r div PAGE_SIZE - 4096))"
    using b(1,2,3) by (intro exI [of _ ?s] exI [of _ "dma_full b"]) (auto simp: dma_full_def inj_image_mem_iff [OF inj_as_phys])
qed

theorem frame_init_exact_witness:
  "\<exists>s fb. frame_init False [\<lparr>mr_base = 8192, mr_size = 9000\<rparr>, \<lparr>mr_base = 65536, mr_size = 16785408\<rparr>]
      ((chain_new, \<lambda>_ _. 0), fixed_bitmap_default) = Some (s, fb)
    \<and> set (free_frames s) = {2, 3, 17, 18} \<and> fb_base fb = 16"
proof -
  let ?r1 = "\<lparr>mr_base = 8192, mr_size = 9000\<rparr>" and ?r2 = "\<lparr>mr_base = 65536, mr_size = 16785408\<rparr>"
  have tp1: "take_pages ?r1 = [as_phys 2, as_phys 3]"
    by (simp add: take_pages_eq PAGE_SIZE_def as_phys_def upt_conv_Cons)
  have ph: "as_phys (of_nat (16 + i)) = 65536 + i * 4096" if "i < 4098" for i
    using that unat_of_nat_small [where 'n = 32, of "16 + i"] by (simp add: as_phys_def PAGE_SIZE_def)
  have tp2: "take_pages ?r2 = map (\<lambda>i. 65536 + i * 4096) [0..<4098]"
    by (simp add: take_pages_eq PAGE_SIZE_def)
  also have "\<dots> = map (\<lambda>i. as_phys (of_nat (16 + i))) [0..<4098]" by (intro map_cong) (simp_all add: ph del: of_nat_add)
  finally have lim: "set (take_pages ?r2) \<subseteq> range as_phys" by auto
  have "distinct (concat (map take_pages [?r1, ?r2]))"
    by (simp add: tp1 tp2 as_phys_def PAGE_SIZE_def distinct_map inj_on_def) auto
  with frame_init_exact [of "[?r1, ?r2]" False "\<lambda>_ _. 0"] tp1 lim
  obtain s fb where s: "frame_init False [?r1, ?r2] ((chain_new, \<lambda>_ _. 0), fixed_bitmap_default) = Some (s, fb)"
      "mr_base ?r2 = as_phys (fb_base fb)"
      "set (free_frames s) = {p. as_phys p \<in> set (take_pages ?r1)} \<union> set (dma_pages (skip (fb_base fb) 1) 2)"
    by (auto simp: DMA_SIZE_def BITMAP_LEN_def PAGE_SIZE_def dest!: spec [of _ "[?r1]"])
  have "as_phys 16 = 65536" by (simp add: as_phys_def PAGE_SIZE_def)
  then have "as_phys (fb_base fb) = as_phys 16" using s(2) by simp
  then have "fb_base fb = 16" by (rule injD [OF inj_as_phys])
  moreover have "{p. as_phys p \<in> set (take_pages ?r1)} = {2, 3}" using inj_as_phys by (auto simp: tp1 inj_eq)
  moreover have "dma_pages (skip 16 1) 2 = [17, 18]" by (simp add: dma_pages_def skip_def upt_conv_Cons)
  ultimately show ?thesis using s by auto
qed

text \<open>
  With a region large enough for the DMA bitmap the two allocators overlap: \<open>take_page_range\<close> moves
  the base of the region by one page only, so the second frame of the DMA range is also put on the
  chain of free frames.
\<close>

theorem frame_init_overlap:
  assumes "b + 4096 + k < 2 ^ 32"
  shows "\<exists>s fb. frame_init dbg [\<lparr>mr_base = b * PAGE_SIZE, mr_size = (4096 + Suc k) * PAGE_SIZE\<rparr>]
      ((chain_new, m), fixed_bitmap_default) = Some (s, fb)
    \<and> fb_base fb = of_nat b \<and> bm_bit (fb_bitmap fb) 1
    \<and> of_nat (b + 1) \<in> set (free_frames s)"
proof -
  let ?r = "\<lparr>mr_base = b * PAGE_SIZE, mr_size = (4096 + Suc k) * PAGE_SIZE\<rparr>"
  let ?r' = "\<lparr>mr_base = b * PAGE_SIZE + PAGE_SIZE, mr_size = Suc k * PAGE_SIZE\<rparr>"
  let ?fb = "\<lparr>fb_base = of_nat b, fb_bitmap = map (\<lambda>_. -1) (fb_bitmap fixed_bitmap_default)\<rparr>"
  have "take_page_range 4096 ?r = Some (b * PAGE_SIZE, ?r')"
    by (simp add: take_page_range_def algebra_simps)
  then have "add_region ?r fixed_bitmap_default = Some (?r', ?fb)"
    using assms by (simp add: add_region_def fixed_bitmap_default_def BITMAP_LEN_def nth_opt_def)
  then have init: "frame_init dbg [?r] ((chain_new, m), fixed_bitmap_default)
      = Some (init_frames dbg [?r'] (chain_new, m), ?fb)"
    by (simp add: frame_init_def)
  have tp: "take_pages ?r' = map (\<lambda>i. (b + 1 + i) * PAGE_SIZE) [0..<Suc k]"
    by (simp add: take_pages_eq algebra_simps)
  have phys: "as_phys (of_nat (b + 1 + i)) = (b + 1 + i) * PAGE_SIZE" if "i \<le> k" for i
    using that assms unat_of_nat_small [where 'n = 32, of "b + 1 + i"] by (simp add: as_phys_def)
  have sub: "set (take_pages ?r') \<subseteq> range as_phys"
    unfolding tp using phys by (auto simp: image_iff simp del: of_nat_add of_nat_Suc upt_Suc) (metis less_Suc_eq_le)
  have "distinct (take_pages ?r')"
    unfolding tp by (auto simp: distinct_map inj_on_def PAGE_SIZE_def simp del: upt_Suc)
  then have "set (free_frames (init_frames dbg [?r'] (chain_new, m))) = {p. as_phys p \<in> set (take_pages ?r')}"
    using init_frames_free [of "[?r']" dbg m] sub by simp
  moreover have "as_phys (of_nat (b + 1)) \<in> set (take_pages ?r')"
    unfolding tp using phys [of 0] by (auto simp del: of_nat_add of_nat_Suc upt_Suc intro!: image_eqI [of _ _ 0])
  moreover have "bm_bit (fb_bitmap ?fb) 1"
    unfolding FixedBitmap.simps bm_bit_all_ones by (simp add: fixed_bitmap_default_def BITMAP_LEN_def)
  ultimately show ?thesis
    unfolding init by (intro exI [of _ "init_frames dbg [?r'] (chain_new, m)"] exI [of _ ?fb]) auto
qed

text \<open>
  C13. The address and the size that a program reads from a DMA object as decimals are those of its
  frames, and a created object covers the requested number of bytes with zeroed, consecutive frames
  that no other frame's contents are changed by.
\<close>

theorem dma_object_correct:
  assumes "dma_create path (fb, m) = Some (Inr f, fb', m')" and "parse_usize path = Some n"
    and "n \<le> isize_MAX"
  shows "n \<le> length (dma_physical_pages f) * PAGE_SIZE
    \<and> dma_physical_pages f = map (\<lambda>i. dma_base f + of_nat i) [0..<min_pages_for_bytes n]
    \<and> (\<forall>p. m' p = (if p \<in> set (dma_physical_pages f) then (\<lambda>_. 0) else m p))
    \<and> (\<exists>prop s. dma_open f [0x70, 0x68, 0x79, 0x73] = Inr prop \<and> dma_property_read prop 20 = Inr s
         \<and> parse_usize s = Some (as_phys (dma_base f)))
    \<and> (\<exists>prop s. dma_open f [0x73, 0x69, 0x7a, 0x65] = Inr prop \<and> dma_property_read prop 20 = Inr s
         \<and> parse_usize s = Some (length (dma_physical_pages f) * PAGE_SIZE))"
proof -
  let ?n = "min_pages_for_bytes n"
  have new: "dma_new ?n (fb, m) = Some (Inr f, fb', m')"
    using assms(1,2) by (auto simp: dma_create_def split: if_splits)
  then obtain base where f: "f = \<lparr>dma_base = base, dma_count = of_nat ?n\<rparr>" "?n < 2 ^ 32"
    "m' = owned_clear (dma_pages base ?n) m"
    by (auto simp: dma_new_def owned_clear_def split: option.splits if_splits)
  have cnt: "unat (dma_count f) = ?n" using f by (simp add: unat_of_nat_small)
  have pages: "dma_physical_pages f = dma_pages base ?n" unfolding dma_physical_pages_def cnt by (simp add: f(1))
  have dec: "length (to_string v) \<le> 20 \<and> parse_usize (to_string v) = Some v" if "v < 2 ^ 32 * PAGE_SIZE" for v
    using that length_to_string [of 20 v] parse_to_string [of v] by (simp add: PAGE_SIZE_def usize_MAX_def)
  have "as_phys (dma_base f) < 2 ^ 32 * PAGE_SIZE"
    using unat_bound [of "dma_base f"] by (simp add: as_phys_def)
  moreover have "?n * PAGE_SIZE < 2 ^ 32 * PAGE_SIZE" using f(2) by simp
  ultimately show ?thesis
    using dec [of "as_phys (dma_base f)"] dec [of "?n * PAGE_SIZE"] min_pages_for_bytes_covers [OF assms(3)]
    by (simp add: dma_open_def cnt pages f(3) owned_clear_mem Let_def)
       (simp add: dma_pages_def skip_def f(1))
qed

text \<open>A size so large that the page count wraps to zero panics the kernel.\<close>

theorem dma_create_panics: "dma_create (to_string usize_MAX) s = None"
proof -
  have "min_pages_for_bytes usize_MAX = 0"
    by (simp add: min_pages_for_bytes_def usize_MAX_def PAGE_SIZE_def)
  then show ?thesis by (simp add: dma_create_def parse_to_string) (simp add: usize_MAX_def)
qed

theorem dma_object_correct_witness:
  "\<exists>f fb' m'. dma_create (to_string 5000) (\<lparr>fb_base = 256, fb_bitmap = replicate 32 (-1)\<rparr>, \<lambda>_ _. 1)
      = Some (Inr f, fb', m') \<and> 5000 \<le> length (dma_physical_pages f) * PAGE_SIZE"
proof -
  let ?fb = "\<lparr>fb_base = 256, fb_bitmap = replicate 32 (-1)\<rparr>"
  have n: "min_pages_for_bytes 5000 = 2" by (simp add: min_pages_for_bytes_def PAGE_SIZE_def)
  have "bm_bit (replicate 32 (-1)) i \<longleftrightarrow> i < 4096" for i
    using bm_bit_all_ones [of "replicate 32 0" i] by simp
  then have "range_free (replicate 32 (-1)) 2 0" by (auto simp: range_free_def)
  then have "\<not> (\<forall>t < 128 * length (replicate 32 (-1 :: u128)). \<not> range_free (replicate 32 (-1)) 2 t)"
    by (auto intro!: exI [of _ "0 :: nat"])
  then obtain p fb' where "pop_range 2 ?fb = Some (Some p, fb')"
    using pop_range_cases [of 2 ?fb] by auto
  then obtain f m' where "dma_create (to_string 5000) (?fb, \<lambda>_ _. 1) = Some (Inr f, fb', m')"
    by (simp add: dma_create_def parse_to_string usize_MAX_def n dma_new_def)
  moreover from dma_object_correct [OF this, of 5000]
  have "5000 \<le> length (dma_physical_pages f) * PAGE_SIZE"
    by (simp add: parse_to_string usize_MAX_def isize_MAX_def n PAGE_SIZE_def)
  ultimately show ?thesis by blast
qed

end
