(* ===== verification/Ticket.thy ===== *)
theory Ticket
  imports Kernel_Api
begin

text \<open>
  Tickets for jobs that complete later, \<open>kernel/src/object_table/ticket.rs\<close>. A ticket and its waker
  share a cell that the ticket store holds at the ticket's number; threads are named by numbers, and
  the store logs which threads have been woken.
\<close>

section \<open>Operations\<close>

record 'a TicketInner =
  tk_waker :: "nat option"
  tk_status :: "(Error + 'a) option"

record 'a tickets =
  cells :: "'a TicketInner list"
  woken :: "nat list"

type_synonym ticket = nat

definition ticket_new_complete :: "Error + 'a \<Rightarrow> 'a tickets \<Rightarrow> ticket \<times> 'a tickets" where
  "ticket_new_complete st ts =
     (length (cells ts), ts\<lparr>cells := cells ts @ [\<lparr>tk_waker = None, tk_status = Some st\<rparr>]\<rparr>)"

definition ticket_new :: "'a tickets \<Rightarrow> ticket \<times> 'a tickets" where
  "ticket_new ts = (length (cells ts), ts\<lparr>cells := cells ts @ [\<lparr>tk_waker = None, tk_status = None\<rparr>]\<rparr>)"

definition ticket_from_error :: "Error \<Rightarrow> 'a tickets \<Rightarrow> ticket \<times> 'a tickets" where
  "ticket_from_error e ts = ticket_new_complete (Inl e) ts"

definition ticket_from_value :: "'a \<Rightarrow> 'a tickets \<Rightarrow> ticket \<times> 'a tickets" where
  "ticket_from_value v ts = ticket_new_complete (Inr v) ts"

text \<open>\<open>isr_complete\<close> differs from \<open>complete\<close> only in how it takes the lock.\<close>

definition complete :: "ticket \<Rightarrow> Error + 'a \<Rightarrow> 'a tickets \<Rightarrow> 'a tickets" where
  "complete t st ts =
     (let l = cells ts ! t in
      ts\<lparr>woken := woken ts @ (case tk_waker l of None \<Rightarrow> [] | Some w \<Rightarrow> [w]),
         cells := (cells ts)[t := \<lparr>tk_waker = None, tk_status = Some st\<rparr>]\<rparr>)"

definition ticket_poll :: "ticket \<Rightarrow> nat \<Rightarrow> 'a tickets \<Rightarrow> (Error + 'a) option \<times> 'a tickets" where
  "ticket_poll t w ts =
     (let l = cells ts ! t in
      case tk_status l of
        Some s \<Rightarrow> (Some s, ts\<lparr>cells := (cells ts)[t := l\<lparr>tk_status := None\<rparr>]\<rparr>)
      | None \<Rightarrow> (None, ts\<lparr>cells := (cells ts)[t := l\<lparr>tk_waker := Some w\<rparr>]\<rparr>))"

definition complete_err :: "ticket \<Rightarrow> Error \<Rightarrow> 'a tickets \<Rightarrow> 'a tickets" where
  "complete_err t e ts = complete t (Inl e) ts"

section \<open>Facts\<close>

lemma cells_new_complete [simp]:
  "cells (snd (ticket_new_complete st ts)) = cells ts @ [\<lparr>tk_waker = None, tk_status = Some st\<rparr>]"
  "woken (snd (ticket_new_complete st ts)) = woken ts"
  "fst (ticket_new_complete st ts) = length (cells ts)"
  by (simp_all add: ticket_new_complete_def)

lemma cells_new [simp]:
  "cells (snd (ticket_new ts)) = cells ts @ [\<lparr>tk_waker = None, tk_status = None\<rparr>]"
  "woken (snd (ticket_new ts)) = woken ts"
  "fst (ticket_new ts) = length (cells ts)"
  by (simp_all add: ticket_new_def)

lemma cells_complete [simp]:
  "cells (complete t st ts) = (cells ts)[t := \<lparr>tk_waker = None, tk_status = Some st\<rparr>]"
  by (simp add: complete_def Let_def)

text \<open>The answer that a ticket would give to the next poll.\<close>

definition status_of :: "'a tickets \<Rightarrow> ticket \<Rightarrow> (Error + 'a) option" where
  "status_of ts t = (if t < length (cells ts) then tk_status (cells ts ! t) else None)"

lemma status_of_complete [simp]:
  "status_of (complete t st ts) u = (if u = t \<and> t < length (cells ts) then Some st else status_of ts u)"
  by (auto simp: status_of_def nth_list_update)

lemma status_of_new_complete [simp]:
  "status_of (snd (ticket_new_complete st ts)) u = (if u = length (cells ts) then Some st else status_of ts u)"
  by (auto simp: status_of_def nth_append)

lemma status_of_new [simp]:
  "status_of (snd (ticket_new ts)) u = (if u = length (cells ts) then None else status_of ts u)"
  by (auto simp: status_of_def nth_append)

fun polls :: "ticket \<Rightarrow> nat list \<Rightarrow> 'a tickets \<Rightarrow> (Error + 'a) option list \<times> 'a tickets" where
  "polls t [] ts = ([], ts)"
| "polls t (w # ws) ts = (let (r, ts) = ticket_poll t w ts; (rs, ts) = polls t ws ts in (r # rs, ts))"

lemma polls_pending:
  assumes "t < length (cells ts)" and "tk_status (cells ts ! t) = None"
  shows "fst (polls t ws ts) = replicate (length ws) None \<and> woken (snd (polls t ws ts)) = woken ts
    \<and> length (cells (snd (polls t ws ts))) = length (cells ts)
    \<and> cells (snd (polls t ws ts)) ! t = (cells ts ! t)\<lparr>tk_waker :=
        (if ws = [] then tk_waker (cells ts ! t) else Some (last ws))\<rparr>"
  using assms
proof (induction ws arbitrary: ts)
  case (Cons w ws)
  let ?ts = "ts\<lparr>cells := (cells ts)[t := (cells ts ! t)\<lparr>tk_waker := Some w\<rparr>]\<rparr>"
  have "ticket_poll t w ts = (None, ?ts)" using Cons.prems by (simp add: ticket_poll_def Let_def)
  then show ?case using Cons.IH [of ?ts] Cons.prems by (simp add: split_beta Let_def)
qed simp

text \<open>
  C17. A job's ticket is pending until the job is completed; completing it wakes exactly the thread
  that polled it last, if any; the next poll then yields the result, and only that one.
\<close>

theorem ticket_completes_once:
  assumes "ticket_new ts = (t, ts1)"
  shows "(let (rs, ts2) = polls t ws ts1; ts3 = complete t st ts2; (r, ts4) = ticket_poll t w ts3
    in rs = replicate (length ws) None \<and> r = Some st
      \<and> woken ts4 = woken ts @ (if ws = [] then [] else [last ws])
      \<and> fst (polls t ws' ts4) = replicate (length ws') None)"
proof -
  have t: "t < length (cells ts1)" "cells ts1 ! t = \<lparr>tk_waker = None, tk_status = None\<rparr>" "woken ts1 = woken ts"
    using assms by (auto simp: ticket_new_def)
  define ts2 where "ts2 = snd (polls t ws ts1)"
  have p: "fst (polls t ws ts1) = replicate (length ws) None" "woken ts2 = woken ts" "t < length (cells ts2)"
    "cells ts2 ! t = \<lparr>tk_waker = if ws = [] then None else Some (last ws), tk_status = None\<rparr>"
    using polls_pending [of t ts1 ws] t by (auto simp: ts2_def)
  let ?ts4 = "(complete t st ts2)\<lparr>cells := (cells ts2)[t := \<lparr>tk_waker = None, tk_status = None\<rparr>]\<rparr>"
  have poll: "ticket_poll t w (complete t st ts2) = (Some st, ?ts4)"
    using p by (simp add: ticket_poll_def Let_def)
  have "fst (polls t ws' ?ts4) = replicate (length ws') None"
    using polls_pending [of t ?ts4 ws'] p(3) by simp
  then show ?thesis
    using p poll by (simp add: split_beta Let_def complete_def flip: ts2_def)
qed

theorem ticket_completes_once_witness:
  "fst (ticket_poll 0 4 (complete 0 (Inr (8 :: nat)) (snd (polls 0 [3] \<lparr>cells = [\<lparr>tk_waker = None, tk_status = None\<rparr>],
     woken = []\<rparr>)))) = Some (Inr 8)"
  using ticket_completes_once [of "\<lparr>cells = [], woken = []\<rparr>" 0 "snd (ticket_new \<lparr>cells = [], woken = []\<rparr>)"
      "[3]" "Inr (8 :: nat)" 4 "[]"]
  by (simp add: ticket_new_def split_beta Let_def)

end
