(* ===== verification/Pipe.thy ===== *)
theory Pipe
  imports Ticket
begin

text \<open>
  The byte pipe, \<open>kernel/src/object_table/pipe.rs\<close>. The state is the shared inner structure together
  with the ticket stores of reads and of writes. Slicing out of range is a panic.
\<close>

section \<open>Operations\<close>

definition MAX_SIZE :: nat where
  "MAX_SIZE = 65536"

definition WRITE_CLOSED :: u8 where "WRITE_CLOSED = 1"
definition READ_CLOSED :: u8 where "READ_CLOSED = 2"

record PipeInner =
  pi_buf :: "u8 list"
  pi_wake_read :: "(nat \<times> ticket) list"
  pi_wake_write :: "(u8 list \<times> ticket) list"
  pi_flags :: u8

record pipe_sys = PipeInner +
  pi_data :: "u8 list tickets"
  pi_u64 :: "u64 tickets"

definition pipe_new :: "u8 list tickets \<Rightarrow> u64 tickets \<Rightarrow> pipe_sys" where
  "pipe_new D U = \<lparr>pi_buf = [], pi_wake_read = [], pi_wake_write = [], pi_flags = 0,
     pi_data = D, pi_u64 = U\<rparr>"

text \<open>Answer a write at once.\<close>

definition answer_u64 :: "u64 \<Rightarrow> pipe_sys \<Rightarrow> ticket \<times> pipe_sys" where
  "answer_u64 n s = (let (t, U) = ticket_from_value n (pi_u64 s) in (t, s\<lparr>pi_u64 := U\<rparr>))"

definition answer_data :: "u8 list \<Rightarrow> pipe_sys \<Rightarrow> ticket \<times> pipe_sys" where
  "answer_data bs s = (let (t, D) = ticket_from_value bs (pi_data s) in (t, s\<lparr>pi_data := D\<rparr>))"

text \<open>
  The loop of \<open>write\<close> that serves waiting readers: the answer tells whether all data is consumed, and
  how much of it is.
\<close>

fun feed_readers ::
  "u8 list \<Rightarrow> nat \<Rightarrow> (nat \<times> ticket) list \<Rightarrow> u8 list tickets
    \<Rightarrow> (bool \<times> nat \<times> (nat \<times> ticket) list \<times> u8 list tickets) panics" where
  "feed_readers dat offt [] D = Some (False, offt, [], D)"
| "feed_readers dat offt ((max_len, w) # ws) D =
     (let max_len = min max_len (length dat) in
      do { assert (offt \<le> length dat \<and> max_len \<le> length dat - offt);
           let D = complete w (Inr (take max_len (drop offt dat))) D;
           let offt = offt + max_len;
           if offt = length dat then Some (True, offt, ws, D)
           else feed_readers dat offt ws D })"

definition pipe_write :: "u8 list \<Rightarrow> pipe_sys \<Rightarrow> (ticket \<times> pipe_sys) panics" where
  "pipe_write dat s =
     (if dat = [] then Some (answer_u64 0 s)
      else if pi_flags s AND READ_CLOSED \<noteq> 0 then Some (answer_u64 0 s)
      else do {
        (all, offt, ws, D) \<leftarrow> feed_readers dat 0 (pi_wake_read s) (pi_data s);
        let s = s\<lparr>pi_wake_read := ws, pi_data := D\<rparr>;
        if all then Some (answer_u64 (of_nat offt) s)
        else do {
          let dat = drop offt dat;
          let max_enqueue = min (length dat) (MAX_SIZE - length (pi_buf s));
          let s = s\<lparr>pi_buf := pi_buf s @ take max_enqueue dat\<rparr>;
          let dat = drop max_enqueue dat;
          let offt = offt + max_enqueue;
          if 0 < offt then Some (answer_u64 (of_nat offt) s)
          else do {
            let max_len = min (length dat) (MAX_SIZE - length (pi_buf s));
            let (t, U) = ticket_new (pi_u64 s);
            Some (t, s\<lparr>pi_u64 := U, pi_wake_write := pi_wake_write s @ [(take max_len dat, t)]\<rparr>) } } })"

text \<open>The two slices of the deque are the front and the back of the buffer.\<close>

definition pipe_read :: "nat \<Rightarrow> pipe_sys \<Rightarrow> ticket \<times> pipe_sys" where
  "pipe_read len s =
     (if pi_buf s \<noteq> [] then
        let len = min len (length (pi_buf s)) in
        answer_data (take len (pi_buf s)) (s\<lparr>pi_buf := drop len (pi_buf s)\<rparr>)
      else case pi_wake_write s of
        (b, w) # ws \<Rightarrow>
          let b = take (min len (length b)) b in
          answer_data b (s\<lparr>pi_wake_write := ws,
            pi_u64 := complete w (Inr (of_nat (length b))) (pi_u64 s)\<rparr>)
      | [] \<Rightarrow>
          if pi_flags s AND WRITE_CLOSED \<noteq> 0 then answer_data [] s
          else let (t, D) = ticket_new (pi_data s)
               in (t, s\<lparr>pi_data := D, pi_wake_read := pi_wake_read s @ [(min len MAX_SIZE, t)]\<rparr>))"

definition pipe_in_drop :: "pipe_sys \<Rightarrow> pipe_sys" where
  "pipe_in_drop s = s\<lparr>pi_flags := pi_flags s OR WRITE_CLOSED, pi_wake_read := [],
     pi_data := fold (\<lambda>(_, w) D. complete w (Inr []) D) (pi_wake_read s) (pi_data s)\<rparr>"

definition pipe_out_drop :: "pipe_sys \<Rightarrow> pipe_sys" where
  "pipe_out_drop s = s\<lparr>pi_flags := pi_flags s OR READ_CLOSED, pi_wake_write := [],
     pi_u64 := fold (\<lambda>(_, w) U. complete w (Inr 0) U) (pi_wake_write s) (pi_u64 s)\<rparr>"

section \<open>The stream\<close>

text \<open>
  What has been delivered to readers whose ticket has not been polled yet, in the order of their
  tickets.
\<close>

definition delivered :: "u8 list tickets \<Rightarrow> u8 list" where
  "delivered D = concat (map (\<lambda>c. case tk_status c of Some (Inr bs) \<Rightarrow> bs | _ \<Rightarrow> []) (cells D))"

text \<open>
  The invariant under one reader at a time: the buffer respects its limit, and a waiting reader is
  the newest ticket, is pending, and waits on an empty pipe. A blocked writer leaves no data behind.
\<close>

definition pipe_inv :: "pipe_sys \<Rightarrow> bool" where
  "pipe_inv s \<longleftrightarrow> length (pi_buf s) \<le> MAX_SIZE \<and> fst ` set (pi_wake_write s) \<subseteq> {[]} \<and> (pi_wake_read s = [] \<or>
     (\<exists>n t. pi_wake_read s = [(n, t)] \<and> pi_buf s = [] \<and> Suc t = length (cells (pi_data s))
        \<and> tk_status (cells (pi_data s) ! t) = None))"

datatype pipe_op = PipeWrite "u8 list" | PipeRead nat

text \<open>
  A writer, and a reader that does not read again before its last read is answered. The second
  component of the result collects what the writer was told to be accepted.
\<close>

fun pipe_run :: "pipe_op list \<Rightarrow> pipe_sys \<Rightarrow> u8 list \<Rightarrow> (pipe_sys \<times> u8 list) panics" where
  "pipe_run [] s acc = Some (s, acc)"
| "pipe_run (PipeWrite dat # ops) s acc =
     do { (t, s) \<leftarrow> pipe_write dat s;
          pipe_run ops s (acc @ (case status_of (pi_u64 s) t of
             Some (Inr n) \<Rightarrow> take (unat n) dat | _ \<Rightarrow> [])) }"
| "pipe_run (PipeRead len # ops) s acc =
     (if pi_wake_read s = [] then pipe_run ops (snd (pipe_read len s)) acc else pipe_run ops s acc)"

lemma delivered_append:
  "delivered (snd (ticket_from_value bs D)) = delivered D @ bs"
  "delivered (snd (ticket_new D)) = delivered D"
  by (simp_all add: delivered_def ticket_from_value_def)

lemma delivered_complete_last:
  assumes "Suc t = length (cells D)" and "tk_status (cells D ! t) = None"
  shows "delivered (complete t (Inr bs) D) = delivered D @ bs"
proof -
  obtain cs c where D: "cells D = cs @ [c]" using assms(1) by (cases "cells D" rule: rev_cases) auto
  then have "t = length cs" "tk_status c = None" using assms by auto
  then show ?thesis by (simp add: delivered_def D)
qed

lemma answer_data_simps [simp]:
  "snd (answer_data bs s) = s\<lparr>pi_data := snd (ticket_from_value bs (pi_data s))\<rparr>"
  by (simp add: answer_data_def split_beta Let_def)

lemma answer_u64_simps [simp]:
  "snd (answer_u64 n s) = s\<lparr>pi_u64 := snd (ticket_from_value n (pi_u64 s))\<rparr>"
  "status_of (pi_u64 (snd (answer_u64 n s))) (fst (answer_u64 n s)) = Some (Inr n)"
  by (simp_all add: answer_u64_def ticket_from_value_def split_beta Let_def)

lemma pipe_read_stream:
  assumes "pipe_inv s" and "pi_wake_read s = []"
  shows "pipe_inv (snd (pipe_read len s))
    \<and> delivered (pi_data (snd (pipe_read len s))) @ pi_buf (snd (pipe_read len s)) = delivered (pi_data s) @ pi_buf s"
proof -
  consider "pi_buf s \<noteq> []" | b w ws where "pi_buf s = []" "pi_wake_write s = (b, w) # ws"
    | "pi_buf s = []" "pi_wake_write s = []" by (cases "pi_wake_write s") auto
  then show ?thesis
    using assms by cases (auto simp: pipe_read_def pipe_inv_def Let_def delivered_append split_beta)
qed

lemma feed_one:
  assumes "dat \<noteq> []"
  shows "feed_readers dat 0 [(n, t)] D =
    (let ml = min n (length dat) in
     Some (ml = length dat, ml, [], complete t (Inr (take ml dat)) D))"
  using assms by (auto simp: Let_def)

text \<open>What a write tells to be accepted.\<close>

definition accepted :: "u8 list \<Rightarrow> pipe_sys \<Rightarrow> ticket \<Rightarrow> u8 list" where
  "accepted dat s t = (case status_of (pi_u64 s) t of Some (Inr n) \<Rightarrow> take (unat n) dat | _ \<Rightarrow> [])"

definition write_ok :: "u8 list \<Rightarrow> pipe_sys \<Rightarrow> ticket \<Rightarrow> pipe_sys \<Rightarrow> bool" where
  "write_ok dat s t s' \<longleftrightarrow> pipe_inv s' \<and>
     delivered (pi_data s') @ pi_buf s' = delivered (pi_data s) @ pi_buf s @ accepted dat s' t"

lemma write_ok_answer:
  assumes "pipe_inv s'" and "delivered (pi_data s') @ pi_buf s' = delivered (pi_data s) @ pi_buf s @ take n dat"
    and "n \<le> length dat" and "length dat \<le> usize_MAX"
  shows "write_ok dat s (fst (answer_u64 (of_nat n) s')) (snd (answer_u64 (of_nat n) s'))"
proof -
  have "unat (of_nat n :: u64) = n" using assms(3,4) by (simp add: unat_of_nat_small usize_MAX_def)
  then have "accepted dat (snd (answer_u64 (of_nat n) s')) (fst (answer_u64 (of_nat n) s')) = take n dat"
    by (simp add: accepted_def del: answer_u64_simps(1))
  then show ?thesis using assms(1,2) by (simp add: write_ok_def pipe_inv_def)
qed

lemma pipe_write_no_reader:
  assumes "pipe_inv s" and "length dat \<le> usize_MAX" and "pi_wake_read s = []"
    and "dat \<noteq> []" and "pi_flags s AND READ_CLOSED = 0"
  shows "\<exists>t s'. pipe_write dat s = Some (t, s') \<and> write_ok dat s t s'"
proof -
  let ?m = "min (length dat) (MAX_SIZE - length (pi_buf s))"
  let ?s = "s\<lparr>pi_buf := pi_buf s @ take ?m dat\<rparr>"
  have inv: "pipe_inv ?s" using assms(1,3) by (auto simp: pipe_inv_def)
  have same: "s\<lparr>pi_wake_read := [], pi_buf := b\<rparr> = s\<lparr>pi_buf := b\<rparr>" for b using assms(3) by (cases s) simp
  show ?thesis
  proof (cases "?m = 0")
    case True
    then have "MAX_SIZE - length (pi_buf s) = 0" using assms(4) by (simp add: min_def split: if_splits)
    then have full: "length (pi_buf s) = MAX_SIZE" using assms(1) by (simp add: pipe_inv_def)
    let ?t = "length (cells (pi_u64 s))"
    let ?s' = "s\<lparr>pi_u64 := snd (ticket_new (pi_u64 s)), pi_wake_write := pi_wake_write s @ [([], ?t)]\<rparr>"
    have "pipe_write dat s = Some (?t, ?s')"
      using assms(3-5) True full by (simp add: pipe_write_def Let_def split_beta)
    moreover have "write_ok dat s ?t ?s'"
      using assms(1,3) by (auto simp: write_ok_def pipe_inv_def accepted_def)
    ultimately show ?thesis by blast
  next
    case False
    then have "pipe_write dat s = Some (answer_u64 (of_nat ?m) ?s)"
      using assms(3-5) by (simp add: pipe_write_def Let_def same)
    moreover have "write_ok dat s (fst (answer_u64 (of_nat ?m) ?s)) (snd (answer_u64 (of_nat ?m) ?s))"
      using assms(2) by (intro write_ok_answer [OF inv]) simp_all
    ultimately show ?thesis by (metis prod.collapse)
  qed
qed

lemma pipe_write_one_reader:
  assumes "pipe_inv s" and "length dat \<le> usize_MAX" and "pi_wake_read s = [(n, t)]"
    and "dat \<noteq> []" and "pi_flags s AND READ_CLOSED = 0"
  shows "\<exists>t s'. pipe_write dat s = Some (t, s') \<and> write_ok dat s t s'"
proof -
  let ?ml = "min n (length dat)" and ?D = "complete t (Inr (take (min n (length dat)) dat)) (pi_data s)"
  have buf: "pi_buf s = []" and D: "delivered ?D = delivered (pi_data s) @ take ?ml dat"
    using assms(1,3) delivered_complete_last by (auto simp: pipe_inv_def)
  let ?m = "min (length dat - ?ml) MAX_SIZE"
  let ?s = "s\<lparr>pi_wake_read := [], pi_data := ?D, pi_buf := take ?m (drop ?ml dat)\<rparr>"
  have inv: "pipe_inv ?s" using assms(1) by (auto simp: pipe_inv_def)
  have str: "delivered (pi_data ?s) @ pi_buf ?s = delivered (pi_data s) @ pi_buf s @ take (?ml + ?m) dat"
    by (simp add: D buf take_add)
  have "pipe_write dat s = Some (answer_u64 (of_nat (?ml + ?m)) ?s)"
  proof (cases "?ml = length dat")
    case True
    have "s\<lparr>pi_wake_read := [], pi_data := ?D\<rparr> = s\<lparr>pi_wake_read := [], pi_data := ?D, pi_buf := []\<rparr>"
      using buf by (cases s) simp
    with True show ?thesis
      using assms(3-5) feed_one [OF assms(4), of n t "pi_data s"]
      by (simp only: pipe_write_def Let_def if_False bind.bind_lunit prod.case if_True) simp
  next
    case False
    then have "0 < ?m" "n < length dat" by (auto simp: MAX_SIZE_def)
    with False show ?thesis
      using assms(3-5) feed_one [OF assms(4), of n t "pi_data s"] buf
      by (simp add: pipe_write_def Let_def del: feed_readers.simps)
  qed
  moreover have "write_ok dat s (fst (answer_u64 (of_nat (?ml + ?m)) ?s)) (snd (answer_u64 (of_nat (?ml + ?m)) ?s))"
    using assms(2) str by (intro write_ok_answer [OF inv]) simp_all
  ultimately show ?thesis by (metis prod.collapse)
qed

lemma pipe_write_stream:
  assumes "pipe_inv s" and "length dat \<le> usize_MAX"
  shows "\<exists>t s'. pipe_write dat s = Some (t, s') \<and> write_ok dat s t s'"
proof -
  consider "dat = [] \<or> pi_flags s AND READ_CLOSED \<noteq> 0"
    | "dat \<noteq> []" "pi_flags s AND READ_CLOSED = 0" "pi_wake_read s = []"
    | n t where "dat \<noteq> []" "pi_flags s AND READ_CLOSED = 0" "pi_wake_read s = [(n, t)]"
    using assms(1) by (auto simp: pipe_inv_def)
  then show ?thesis
  proof cases
    case 1
    then have "pipe_write dat s = Some (answer_u64 (of_nat 0) s)" by (auto simp: pipe_write_def)
    moreover have "write_ok dat s (fst (answer_u64 (of_nat 0) s)) (snd (answer_u64 (of_nat 0) s))"
      using assms by (intro write_ok_answer) simp_all
    ultimately show ?thesis by (metis prod.collapse)
  qed (use assms pipe_write_no_reader pipe_write_one_reader in blast)+
qed

text \<open>
  C18. A pipe with a writer and a reader that waits for its answers never panics, and the bytes
  delivered to the reader followed by those in the buffer are exactly the bytes that the writer was
  told to be accepted, in order; the buffer never exceeds 64 KiB.
\<close>

theorem pipe_preserves_stream:
  assumes "\<And>dat. PipeWrite dat \<in> set ops \<Longrightarrow> length dat \<le> usize_MAX" and "delivered D = []"
  shows "\<exists>s acc. pipe_run ops (pipe_new D U) [] = Some (s, acc)
    \<and> acc = delivered (pi_data s) @ pi_buf s \<and> length (pi_buf s) \<le> MAX_SIZE"
proof -
  have run: "\<exists>s' acc'. pipe_run ops s acc = Some (s', acc') \<and> pipe_inv s' \<and> acc' = delivered (pi_data s') @ pi_buf s'"
    if "pipe_inv s" and "acc = delivered (pi_data s) @ pi_buf s"
      and "\<And>dat. PipeWrite dat \<in> set ops \<Longrightarrow> length dat \<le> usize_MAX" for s acc
    using that
  proof (induction ops s acc rule: pipe_run.induct)
    case (2 dat ops s acc)
    obtain t s' where w: "pipe_write dat s = Some (t, s')" "write_ok dat s t s'"
      using pipe_write_stream [OF "2.prems"(1)] "2.prems"(3) [of dat] by force
    then show ?case
      using "2.IH" [of "(t, s')" t s'] "2.prems" by (simp add: write_ok_def flip: accepted_def)
  next
    case (3 len ops s acc)
    then show ?case using pipe_read_stream [of s len] by (cases "pi_wake_read s = []") simp_all
  qed simp
  have "pipe_inv (pipe_new D U)" by (simp add: pipe_inv_def pipe_new_def)
  then show ?thesis
    using run [of "pipe_new D U" "[]"] assms by (fastforce simp: pipe_new_def pipe_inv_def)
qed

theorem pipe_preserves_stream_witness:
  "\<exists>s acc. pipe_run [PipeRead 1, PipeWrite [1, 2, 3], PipeRead 9]
      (pipe_new \<lparr>cells = [], woken = []\<rparr> \<lparr>cells = [], woken = []\<rparr>) [] = Some (s, acc)
    \<and> acc = delivered (pi_data s) @ pi_buf s"
  using pipe_preserves_stream [of "[PipeRead 1, PipeWrite [1, 2, 3], PipeRead 9]" "\<lparr>cells = [], woken = []\<rparr>"
      "\<lparr>cells = [], woken = []\<rparr>"]
  by (fastforce simp: usize_MAX_def delivered_def)

text \<open>With two waiting readers a write can panic: the second slice is taken as if the first had not been.\<close>

theorem pipe_write_panics:
  assumes "length dat = 4" and "pi_wake_read s = [(3, a), (3, b)]" and "pi_flags s AND READ_CLOSED = 0"
  shows "pipe_write dat s = None"
proof -
  have "dat \<noteq> []" using assms(1) by auto
  then show ?thesis using assms by (simp add: pipe_write_def)
qed

text \<open>
  A write to a full pipe blocks with no data; once the buffer is drained the next read is answered
  with an empty block, as at the end of the stream, and the write with 0.
\<close>

theorem pipe_blocked_write_reads_empty:
  assumes "pi_buf s = []" and "pi_wake_write s = [([], w)]" and "w < length (cells (pi_u64 s))"
  shows "status_of (pi_data (snd (pipe_read len s))) (fst (pipe_read len s)) = Some (Inr [])
    \<and> status_of (pi_u64 (snd (pipe_read len s))) w = Some (Inr 0)"
  using assms by (simp add: pipe_read_def Let_def answer_data_def split_beta ticket_from_value_def)

end
