(* ===== verification/Message_Pipe.thy ===== *)
theory Message_Pipe
  imports Pipe
begin

text \<open>
  The message pipe, \<open>kernel/src/object_table/message_pipe.rs\<close>: a pipe that keeps message boundaries
  and can hand over objects. Objects are values of an arbitrary type.
\<close>

section \<open>Operations\<close>

definition SOFT_TOTAL_BYTE_LIMIT :: nat where "SOFT_TOTAL_BYTE_LIMIT = 65536"
definition PACKET_MAX_SIZE :: nat where "PACKET_MAX_SIZE = 65536"
definition MAX_SHARE :: nat where "MAX_SHARE = 8"

record 'o message_pipe =
  mp_queue :: "u8 list list"
  mp_total_bytes :: nat
  mp_wake_read :: "(nat \<times> ticket) list"
  mp_wake_write :: "ticket list"
  mp_flags :: u8
  mp_share :: "'o list"
  mp_wake_share :: "ticket list"
  mp_wake_open :: "ticket list"

record 'o message_sys = "'o message_pipe" +
  mp_data :: "u8 list tickets"
  mp_u64 :: "u64 tickets"
  mp_obj :: "'o tickets"

definition mp_new :: "u8 list tickets \<Rightarrow> u64 tickets \<Rightarrow> 'o tickets \<Rightarrow> 'o message_sys" where
  "mp_new D U B = \<lparr>mp_queue = [], mp_total_bytes = 0, mp_wake_read = [], mp_wake_write = [], mp_flags = 0,
     mp_share = [], mp_wake_share = [], mp_wake_open = [], mp_data = D, mp_u64 = U, mp_obj = B\<rparr>"

definition mp_answer_u64 :: "Error + u64 \<Rightarrow> 'o message_sys \<Rightarrow> ticket \<times> 'o message_sys" where
  "mp_answer_u64 r s = (let (t, U) = ticket_new_complete r (mp_u64 s) in (t, s\<lparr>mp_u64 := U\<rparr>))"

definition mp_answer_data :: "Error + u8 list \<Rightarrow> 'o message_sys \<Rightarrow> ticket \<times> 'o message_sys" where
  "mp_answer_data r s = (let (t, D) = ticket_new_complete r (mp_data s) in (t, s\<lparr>mp_data := D\<rparr>))"

definition mp_answer_obj :: "Error + 'o \<Rightarrow> 'o message_sys \<Rightarrow> ticket \<times> 'o message_sys" where
  "mp_answer_obj r s = (let (t, B) = ticket_new_complete r (mp_obj s) in (t, s\<lparr>mp_obj := B\<rparr>))"

text \<open>
  The loop of \<open>write\<close>: the first waiting reader with enough room gets the message, those before it
  get an error.
\<close>

fun mp_feed ::
  "u8 list \<Rightarrow> (nat \<times> ticket) list \<Rightarrow> u8 list tickets \<Rightarrow> bool \<times> (nat \<times> ticket) list \<times> u8 list tickets" where
  "mp_feed dat [] D = (False, [], D)"
| "mp_feed dat ((max_len, w) # ws) D =
     (if length dat \<le> max_len then (True, ws, complete w (Inr dat) D)
      else mp_feed dat ws (complete w (Inl InvalidData) D))"

definition mp_write :: "u8 list \<Rightarrow> 'o message_sys \<Rightarrow> ticket \<times> 'o message_sys" where
  "mp_write dat s =
     (if PACKET_MAX_SIZE \<le> length dat then mp_answer_u64 (Inl InvalidData) s
      else if mp_flags s AND READ_CLOSED \<noteq> 0 then mp_answer_u64 (Inr 0) s
      else
        let (found, ws, D) = mp_feed dat (mp_wake_read s) (mp_data s);
            s = s\<lparr>mp_wake_read := ws, mp_data := D\<rparr>
        in if found then mp_answer_u64 (Inr (of_nat (length dat))) s
           else
             let s = s\<lparr>mp_queue := mp_queue s @ [dat]\<rparr>
             in if mp_total_bytes s < SOFT_TOTAL_BYTE_LIMIT
                then mp_answer_u64 (Inr (of_nat (length dat))) s
                else let (t, U) = ticket_new (mp_u64 s)
                     in (t, s\<lparr>mp_u64 := U, mp_wake_write := mp_wake_write s @ [t]\<rparr>))"

definition mp_share_object :: "'o \<Rightarrow> 'o message_sys \<Rightarrow> ticket \<times> 'o message_sys" where
  "mp_share_object obj s =
     (case mp_wake_open s of
        w # ws \<Rightarrow> mp_answer_u64 (Inr 0) (s\<lparr>mp_wake_open := ws, mp_obj := complete w (Inr obj) (mp_obj s)\<rparr>)
      | [] \<Rightarrow>
          if length (mp_share s) < MAX_SHARE
          then mp_answer_u64 (Inr 0) (s\<lparr>mp_share := mp_share s @ [obj]\<rparr>)
          else let (t, U) = ticket_new (mp_u64 s)
               in (t, s\<lparr>mp_u64 := U, mp_wake_share := mp_wake_share s @ [t]\<rparr>))"

definition mp_read :: "nat \<Rightarrow> 'o message_sys \<Rightarrow> ticket \<times> 'o message_sys" where
  "mp_read len s =
     (case mp_queue s of
        msg # q \<Rightarrow>
          if len < length msg then mp_answer_data (Inl InvalidData) s
          else mp_answer_data (Inr msg)
            (case mp_wake_write s of
               [] \<Rightarrow> s\<lparr>mp_queue := q\<rparr>
             | w # ws \<Rightarrow> s\<lparr>mp_queue := q, mp_wake_write := ws,
                 mp_u64 := complete w (Inr (of_nat (length msg))) (mp_u64 s)\<rparr>)
      | [] \<Rightarrow>
          if mp_flags s AND WRITE_CLOSED \<noteq> 0 then mp_answer_data (Inr []) s
          else let (t, D) = ticket_new (mp_data s)
               in (t, s\<lparr>mp_data := D, mp_wake_read := mp_wake_read s @ [(len, t)]\<rparr>))"

definition mp_open :: "u8 list \<Rightarrow> 'o message_sys \<Rightarrow> ticket \<times> 'o message_sys" where
  "mp_open path s =
     (if path \<noteq> [] then mp_answer_obj (Inl InvalidData) s
      else case mp_share s of
        obj # os \<Rightarrow> mp_answer_obj (Inr obj)
          (case mp_wake_share s of
             [] \<Rightarrow> s\<lparr>mp_share := os\<rparr>
           | w # ws \<Rightarrow> s\<lparr>mp_share := os, mp_wake_share := ws, mp_u64 := complete w (Inr 0) (mp_u64 s)\<rparr>)
      | [] \<Rightarrow>
          let (t, B) = ticket_new (mp_obj s)
          in (t, s\<lparr>mp_obj := B, mp_wake_open := mp_wake_open s @ [t]\<rparr>))"

definition mp_in_drop :: "'o message_sys \<Rightarrow> 'o message_sys" where
  "mp_in_drop s = s\<lparr>mp_flags := mp_flags s OR WRITE_CLOSED, mp_wake_read := [],
     mp_data := fold (\<lambda>(_, w) D. complete w (Inr []) D) (mp_wake_read s) (mp_data s)\<rparr>"

definition mp_out_drop :: "'o message_sys \<Rightarrow> 'o message_sys" where
  "mp_out_drop s = s\<lparr>mp_flags := mp_flags s OR READ_CLOSED, mp_wake_write := [],
     mp_u64 := fold (\<lambda>w U. complete w (Inr 0) U) (mp_wake_write s) (mp_u64 s)\<rparr>"

section \<open>Messages\<close>

text \<open>The messages handed out so far, by the order of the reads; tickets are not polled in between.\<close>

definition messages :: "u8 list tickets \<Rightarrow> u8 list list" where
  "messages D = concat (map (\<lambda>c. case tk_status c of Some (Inr m) \<Rightarrow> [m] | _ \<Rightarrow> []) (cells D))"

definition pending_from :: "nat \<Rightarrow> 'a tickets \<Rightarrow> bool" where
  "pending_from k D \<longleftrightarrow> k \<le> length (cells D) \<and> (\<forall>i. k \<le> i \<and> i < length (cells D) \<longrightarrow> tk_status (cells D ! i) = None)"

text \<open>
  The waiting readers are the newest reads, in order and all pending, and they wait on an empty queue.
\<close>

definition mp_inv :: "'o message_sys \<Rightarrow> bool" where
  "mp_inv s \<longleftrightarrow> mp_total_bytes s = 0 \<and> mp_wake_write s = [] \<and> (mp_wake_read s \<noteq> [] \<longrightarrow> mp_queue s = [])
     \<and> (\<exists>k. pending_from k (mp_data s) \<and> map snd (mp_wake_read s) = [k..<length (cells (mp_data s))])"

lemma messages_complete:
  assumes "pending_from k D" and "k < length (cells D)"
  shows "messages (complete k (Inr m) D) = messages D @ [m]" and "messages (complete k (Inl e) D) = messages D"
    and "pending_from (Suc k) (complete k r D)"
proof -
  let ?f = "\<lambda>c. case tk_status c of Some (Inr m) \<Rightarrow> [m] | _ \<Rightarrow> []"
  have split: "cells D = take k (cells D) @ cells D ! k # drop (Suc k) (cells D)"
    using assms(2) by (rule id_take_nth_drop)
  have upd: "cells (complete k r D) = take k (cells D) @ \<lparr>tk_waker = None, tk_status = Some r\<rparr> # drop (Suc k) (cells D)" for r
    using assms(2) by (simp add: upd_conv_take_nth_drop)
  have tail: "concat (map ?f (drop (Suc k) (cells D))) = []"
    using assms(1) by (force simp: pending_from_def in_set_conv_nth)
  have "?f (cells D ! k) = []" using assms by (simp add: pending_from_def)
  then have "messages D = concat (map ?f (take k (cells D)))"
    unfolding messages_def by (subst split) (simp add: tail)
  then show "messages (complete k (Inr m) D) = messages D @ [m]" and "messages (complete k (Inl e) D) = messages D"
    unfolding messages_def upd by (simp_all add: tail)
  show "pending_from (Suc k) (complete k r D)" using assms by (auto simp: pending_from_def nth_list_update)
qed

lemma mp_feed_spec:
  assumes "pending_from k D" and "map snd ws = [k..<length (cells D)]"
    and "mp_feed dat ws D = (found, ws', D')"
  shows "\<exists>k'. pending_from k' D' \<and> map snd ws' = [k'..<length (cells D')]
    \<and> messages D' = messages D @ (if found then [dat] else []) \<and> (\<not> found \<longrightarrow> ws' = [])"
  using assms
proof (induction dat ws D arbitrary: k rule: mp_feed.induct)
  case (2 dat max_len w ws D)
  have kn: "k < length (cells D)" "w = k" "map snd ws = [Suc k..<length (cells D)]"
    using "2.prems"(2) by (cases "k < length (cells D)"; simp add: upt_conv_Cons)+
  note c = messages_complete [OF "2.prems"(1) kn(1)]
  show ?case
  proof (cases "length dat \<le> max_len")
    case True
    then show ?thesis using "2.prems"(3) c kn by (intro exI [of _ "Suc k"]) auto
  next
    case False
    then show ?thesis using "2.IH" [OF False, of "Suc k"] "2.prems"(3) c kn by simp
  qed
qed auto

lemma mp_answer_simps [simp]:
  "snd (mp_answer_u64 r s) = s\<lparr>mp_u64 := snd (ticket_new_complete r (mp_u64 s))\<rparr>"
  "fst (mp_answer_u64 r s) = length (cells (mp_u64 s))"
  "snd (mp_answer_data q s) = s\<lparr>mp_data := snd (ticket_new_complete q (mp_data s))\<rparr>"
  by (simp_all add: mp_answer_u64_def mp_answer_data_def split_beta Let_def)

definition mp_accepted :: "u8 list \<Rightarrow> 'o message_sys \<Rightarrow> ticket \<Rightarrow> u8 list list" where
  "mp_accepted dat s t = (case status_of (mp_u64 s) t of Some (Inr _) \<Rightarrow> [dat] | _ \<Rightarrow> [])"

lemma mp_write_messages:
  assumes "mp_inv s" and "mp_flags s AND READ_CLOSED = 0" and "mp_write dat s = (t, s')"
  shows "mp_inv s' \<and> mp_flags s' = mp_flags s
    \<and> messages (mp_data s') @ mp_queue s' = messages (mp_data s) @ mp_queue s @ mp_accepted dat s' t"
proof (cases "PACKET_MAX_SIZE \<le> length dat")
  case True
  then have "s' = snd (mp_answer_u64 (Inl InvalidData) s)" "t = fst (mp_answer_u64 (Inl InvalidData) s)"
    using assms(3) by (auto simp: mp_write_def)
  then show ?thesis using assms(1) by (simp add: mp_accepted_def mp_inv_def)
next
  case False
  obtain found ws D where feed: "mp_feed dat (mp_wake_read s) (mp_data s) = (found, ws, D)"
    by (cases "mp_feed dat (mp_wake_read s) (mp_data s)") auto
  obtain k where k: "pending_from k (mp_data s)" "map snd (mp_wake_read s) = [k..<length (cells (mp_data s))]"
    using assms(1) by (auto simp: mp_inv_def)
  have nil: "mp_wake_read s = [] \<Longrightarrow> \<not> found" using feed by auto
  let ?a = "mp_answer_u64 (Inr (of_nat (length dat)))
    (s\<lparr>mp_wake_read := ws, mp_data := D, mp_queue := mp_queue s @ (if found then [] else [dat])\<rparr>)"
  have "mp_write dat s = ?a"
    using False assms(1,2) feed
    by (cases s) (simp add: mp_write_def mp_inv_def Let_def SOFT_TOTAL_BYTE_LIMIT_def)
  then have "t = fst ?a" "s' = snd ?a" using assms(3) by (metis fst_conv, metis snd_conv)
  then show ?thesis
    using mp_feed_spec [OF k feed] assms(1) nil by (auto simp: mp_accepted_def mp_inv_def)
qed

lemma pending_append:
  assumes "pending_from k D"
  shows "pending_from k (snd (ticket_new D))"
    and "pending_from (Suc (length (cells D))) (snd (ticket_new_complete r D))"
  using assms by (auto simp: pending_from_def nth_append)

lemma messages_append [simp]:
  "messages (snd (ticket_new D)) = messages D"
  "messages (snd (ticket_new_complete r D)) = messages D @ (case r of Inr m \<Rightarrow> [m] | Inl _ \<Rightarrow> [])"
  by (simp_all add: messages_def split: sum.splits)

lemma mp_read_messages:
  assumes "mp_inv s" and "mp_flags s AND WRITE_CLOSED = 0"
  shows "mp_inv (snd (mp_read len s)) \<and> mp_flags (snd (mp_read len s)) = mp_flags s
    \<and> messages (mp_data (snd (mp_read len s))) @ mp_queue (snd (mp_read len s)) = messages (mp_data s) @ mp_queue s"
proof -
  obtain k where k: "pending_from k (mp_data s)" "map snd (mp_wake_read s) = [k..<length (cells (mp_data s))]"
    using assms(1) by (auto simp: mp_inv_def)
  show ?thesis
  proof (cases "mp_queue s")
    case Nil
    have "[k..<length (cells (mp_data s))] @ [length (cells (mp_data s))] = [k..<Suc (length (cells (mp_data s)))]"
      using k(1) by (simp add: pending_from_def)
    with Nil show ?thesis using assms k pending_append(1) [OF k(1)]
      by (auto simp: mp_read_def mp_inv_def Let_def split_beta simp del: upt_Suc)
  next
    case (Cons msg q)
    let ?r = "if len < length msg then Inl InvalidData else Inr msg"
    have "mp_wake_read s = []" using assms(1) Cons by (auto simp: mp_inv_def)
    moreover have "pending_from (Suc (length (cells (mp_data s)))) (snd (ticket_new_complete ?r (mp_data s)))"
      using pending_append(2) [OF k(1)] .
    ultimately show ?thesis using assms(1) Cons
      by (auto simp: mp_read_def mp_inv_def intro!: exI [of _ "Suc (length (cells (mp_data s)))"])
  qed
qed

datatype mp_op = MpWrite "u8 list" | MpRead nat

fun mp_run :: "mp_op list \<Rightarrow> 'o message_sys \<Rightarrow> u8 list list \<Rightarrow> 'o message_sys \<times> u8 list list" where
  "mp_run [] s acc = (s, acc)"
| "mp_run (MpWrite dat # ops) s acc = (let (t, s) = mp_write dat s in mp_run ops s (acc @ mp_accepted dat s t))"
| "mp_run (MpRead len # ops) s acc = mp_run ops (snd (mp_read len s)) acc"

text \<open>
  C19. Whatever reads and writes are made on a message pipe, by any number of readers, the messages
  handed out followed by those queued are exactly the messages whose write succeeded, whole and in
  order; a read with too little room fails and loses nothing.
\<close>

theorem message_pipe_preserves_messages:
  assumes "cells D = []"
  shows "(let (s, acc) = mp_run ops (mp_new D U B) [] in acc = messages (mp_data s) @ mp_queue s)"
proof -
  have run: "snd (mp_run ops s acc) = messages (mp_data (fst (mp_run ops s acc))) @ mp_queue (fst (mp_run ops s acc))"
    if "mp_inv s" "mp_flags s = 0" "acc = messages (mp_data s) @ mp_queue s" for s :: "'b message_sys" and acc
    using that
  proof (induction ops s acc rule: mp_run.induct)
    case (2 dat ops s acc)
    obtain t s' where w: "mp_write dat s = (t, s')" by fastforce
    then show ?case using mp_write_messages [OF "2.prems"(1) _ w] "2.IH" [of "(t, s')" t s'] "2.prems" by simp
  next
    case (3 len ops s acc)
    then show ?case using mp_read_messages [of s len] by simp
  qed simp
  have "mp_inv (mp_new D U B)"
    using assms by (auto simp: mp_inv_def mp_new_def pending_from_def)
  then show ?thesis using run [of "mp_new D U B" "[]"] assms by (simp add: mp_new_def messages_def split_beta)
qed

theorem message_pipe_preserves_messages_witness:
  "(let (s, acc) = mp_run [MpRead 1, MpRead 5, MpWrite [1, 2], MpWrite [3]]
      (mp_new \<lparr>cells = [], woken = []\<rparr> \<lparr>cells = [], woken = []\<rparr> (\<lparr>cells = [], woken = []\<rparr> :: unit tickets)) []
    in acc = messages (mp_data s) @ mp_queue s)"
  by (rule message_pipe_preserves_messages) simp

text \<open>
  The soft limit has no effect: the number of queued bytes is never updated, so a write to an open
  pipe is always answered at once.
\<close>

theorem message_pipe_never_blocks:
  assumes "mp_inv s" and "mp_flags s AND READ_CLOSED = 0" and "mp_write dat s = (t, s')"
  shows "status_of (mp_u64 s') t \<noteq> None"
proof (cases "PACKET_MAX_SIZE \<le> length dat")
  case False
  with assms show ?thesis
    by (auto simp: mp_write_def mp_inv_def Let_def SOFT_TOTAL_BYTE_LIMIT_def mp_answer_u64_def split_beta
        split: prod.splits if_splits)
qed (use assms in \<open>auto simp: mp_write_def mp_answer_u64_def split_beta\<close>)

text \<open>An object that is shared while eight are waiting is dropped, although the share later succeeds.\<close>

theorem message_pipe_drops_object:
  assumes "mp_wake_open s = []" and "MAX_SHARE \<le> length (mp_share s)"
  shows "mp_share (snd (mp_share_object obj s)) = mp_share s"
  using assms by (simp add: mp_share_object_def Let_def split_beta)

end
