(* ===== verification/Arena.thy ===== *)
theory Arena
  imports Prelude
begin

text \<open>
  The typed arena of \<open>lib/rust/arena/src/lib.rs\<close>: a vector of entries, the free ones chained
  through their \<open>next\<close> index, with a generation counter that is stored in every occupied entry
  and in the handle that names it. It is the object table and the thread table of every process
  and the job table of every stream table.

  The state \<open>arena\<close> mirrors the struct. The trait \<open>Generation\<close> is the argument \<open>inc\<close> of the
  operations (\<open>increment\<close>): wrapping addition for the integer instances, the identity for \<open>()\<close>.
  The abstraction is \<open>get\<close> itself, read as a finite map from handles to values.
\<close>

section \<open>Data\<close>

datatype ('v, 'g) entry = Free nat | Occupied 'v 'g

record 'g handle =
  h_index :: nat
  h_generation :: 'g

record ('v, 'g) arena =
  storage :: "('v, 'g) entry list"
  free :: nat
  generation :: 'g
  count :: nat

fun is_occupied :: "('v, 'g) entry \<Rightarrow> bool" where
  "is_occupied (Free n) = False"
| "is_occupied (Occupied v g) = True"

definition into_raw :: "'g handle \<Rightarrow> nat \<times> 'g" where
  "into_raw h = (h_index h, h_generation h)"

definition from_raw :: "nat \<Rightarrow> 'g \<Rightarrow> 'g handle" where
  "from_raw i g = \<lparr>h_index = i, h_generation = g\<rparr>"

text \<open>The two kinds of instances of \<open>Generation\<close>.\<close>

definition increment_unit :: "unit \<Rightarrow> unit" where
  "increment_unit g = g"

definition increment_int :: "'n::len word \<Rightarrow> 'n word" where
  "increment_int g = g + 1"

section \<open>Operations\<close>

definition arena_default :: "'g \<Rightarrow> ('v, 'g) arena" where
  "arena_default g0 = \<lparr>storage = [], free = usize_MAX, generation = g0, count = 0\<rparr>"

text \<open>
  \<open>Vec::push\<close> panics when the capacity would exceed \<open>isize::MAX\<close> bytes, so a vector never has
  more than \<open>isize::MAX\<close> elements. The model's limit is that of elements of one byte: for larger ones the
  code runs out of memory earlier, which the model leaves out as it does all of the heap.
\<close>

definition vec_push :: "'a list \<Rightarrow> 'a \<Rightarrow> 'a list panics" where
  "vec_push xs x = (if length xs < isize_MAX then Some (xs @ [x]) else None)"

definition insert_with ::
  "('g \<Rightarrow> 'g) \<Rightarrow> ('g handle \<Rightarrow> 'v) \<Rightarrow> ('v, 'g) arena \<Rightarrow> ('g handle \<times> ('v, 'g) arena) panics" where
  "insert_with inc f a =
     (let g = generation a;
          a = a\<lparr>generation := inc g\<rparr>
      in if free a \<noteq> usize_MAX then
           (let h = \<lparr>h_index = free a, h_generation = g\<rparr> in
            case nth_opt (storage a) (free a) of
              Some (Free n) \<Rightarrow>
                Some (h, a\<lparr>storage := (storage a)[free a := Occupied (f h) g],
                           free := n, count := count a + 1\<rparr>)
            | Some (Occupied _ _) \<Rightarrow> None
            | None \<Rightarrow> None)
         else
           (let h = \<lparr>h_index = length (storage a), h_generation = g\<rparr> in
            do { st \<leftarrow> vec_push (storage a) (Occupied (f h) g);
                 Some (h, a\<lparr>storage := st, count := count a + 1\<rparr>) }))"

definition insert :: "('g \<Rightarrow> 'g) \<Rightarrow> 'v \<Rightarrow> ('v, 'g) arena \<Rightarrow> ('g handle \<times> ('v, 'g) arena) panics" where
  "insert inc v a = insert_with inc (\<lambda>_. v) a"

text \<open>
  \<open>remove\<close> answers \<open>None\<close> for an index out of range, for a free entry and for a wrong generation.
  The subtraction from \<open>count\<close> wraps as in a release build.
\<close>

definition remove :: "'g handle \<Rightarrow> ('v, 'g) arena \<Rightarrow> ('v option \<times> ('v, 'g) arena) panics" where
  "remove h a =
     (case nth_opt (storage a) (h_index h) of
        None \<Rightarrow> Some (None, a)
      | Some (Free _) \<Rightarrow> Some (None, a)
      | Some (Occupied v g) \<Rightarrow>
          if g \<noteq> h_generation h then Some (None, a)
          else Some (Some v, a\<lparr>storage := (storage a)[h_index h := Free (free a)],
                               free := h_index h, count := if count a = 0 then usize_MAX else count a - 1\<rparr>))"

definition get :: "('v, 'g) arena \<Rightarrow> 'g handle \<Rightarrow> 'v option" where
  "get a h =
     (case nth_opt (storage a) (h_index h) of
        Some (Occupied v g) \<Rightarrow> if g = h_generation h then Some v else None
      | _ \<Rightarrow> None)"

text \<open>
  \<open>get_mut\<close> hands out a mutable reference; a use of it is the application of a function to the
  value in place.
\<close>

definition get_mut :: "'g handle \<Rightarrow> ('v \<Rightarrow> 'v) \<Rightarrow> ('v, 'g) arena \<Rightarrow> ('v, 'g) arena option" where
  "get_mut h f a =
     (case nth_opt (storage a) (h_index h) of
        Some (Occupied v g) \<Rightarrow>
          if g = h_generation h
          then Some (a\<lparr>storage := (storage a)[h_index h := Occupied (f v) g]\<rparr>) else None
      | _ \<Rightarrow> None)"

text \<open>\<open>Index\<close> and \<open>IndexMut\<close> panic where \<open>get\<close> and \<open>get_mut\<close> answer \<open>None\<close>.\<close>

definition index :: "('v, 'g) arena \<Rightarrow> 'g handle \<Rightarrow> 'v panics" where
  "index a h = get a h"

definition index_mut :: "'g handle \<Rightarrow> ('v \<Rightarrow> 'v) \<Rightarrow> ('v, 'g) arena \<Rightarrow> ('v, 'g) arena panics" where
  "index_mut h f a = get_mut h f a"

definition len :: "('v, 'g) arena \<Rightarrow> nat" where
  "len a = count a"

definition is_empty :: "('v, 'g) arena \<Rightarrow> bool" where
  "is_empty a = (len a = 0)"

definition clear :: "('v, 'g) arena \<Rightarrow> ('v, 'g) arena" where
  "clear a = a\<lparr>storage := [], count := 0, free := usize_MAX\<rparr>"

text \<open>The iterators walk the enumerated storage and skip the free entries.\<close>

fun iter_from :: "nat \<Rightarrow> ('v, 'g) entry list \<Rightarrow> ('g handle \<times> 'v) list" where
  "iter_from i [] = []"
| "iter_from i (Free _ # es) = iter_from (Suc i) es"
| "iter_from i (Occupied v g # es) = (\<lparr>h_index = i, h_generation = g\<rparr>, v) # iter_from (Suc i) es"

definition iter :: "('v, 'g) arena \<Rightarrow> ('g handle \<times> 'v) list" where
  "iter a = iter_from 0 (storage a)"

definition drain :: "('v, 'g) arena \<Rightarrow> ('g handle \<times> 'v) list \<times> ('v, 'g) arena" where
  "drain a = (iter_from 0 (storage a), a\<lparr>free := usize_MAX, count := 0, storage := []\<rparr>)"

section \<open>The invariant\<close>

text \<open>
  The free entries form a chain from \<open>free\<close> to the sentinel \<open>usize::MAX\<close> that visits every free
  entry once.
\<close>

fun free_chain :: "('v, 'g) entry list \<Rightarrow> nat \<Rightarrow> nat list \<Rightarrow> bool" where
  "free_chain st f [] \<longleftrightarrow> f = usize_MAX"
| "free_chain st f (i # is) \<longleftrightarrow>
     f = i \<and> (\<exists>n. nth_opt st i = Some (Free n) \<and> free_chain st n is)"

definition free_slots :: "('v, 'g) entry list \<Rightarrow> nat set" where
  "free_slots st = {i. i < length st \<and> \<not> is_occupied (st ! i)}"

definition arena_inv :: "('v, 'g) arena \<Rightarrow> bool" where
  "arena_inv a \<longleftrightarrow>
     length (storage a) \<le> isize_MAX
   \<and> count a = length (filter is_occupied (storage a))
   \<and> (\<exists>is. free_chain (storage a) (free a) is \<and> distinct is \<and> set is = free_slots (storage a))"

text \<open>An insertion succeeds unless the vector is at its maximal length.\<close>

definition has_room :: "('v, 'g) arena \<Rightarrow> bool" where
  "has_room a \<longleftrightarrow> free a \<noteq> usize_MAX \<or> length (storage a) < isize_MAX"

lemmas arena_op_defs = insert_with_def insert_def remove_def get_def get_mut_def clear_def
  drain_def vec_push_def Let_def

lemma not_occupied_iff: "\<not> is_occupied e \<longleftrightarrow> (\<exists>n. e = Free n)"
  by (cases e) auto

lemma is_occupied_iff: "is_occupied e \<longleftrightarrow> (\<exists>v g. e = Occupied v g)"
  by (cases e) auto

lemma free_chain_update:
  "i \<notin> set is \<Longrightarrow> free_chain (st[i := e]) f is = free_chain st f is"
  by (induction "is" arbitrary: f) (auto simp: nth_opt_update)

lemma free_chain_append:
  "\<forall>i \<in> set is. i < length st \<Longrightarrow> free_chain (st @ [e]) f is = free_chain st f is"
proof (induction "is" arbitrary: f)
  case (Cons i "is")
  then show ?case by (auto simp: nth_opt_append)
qed simp

lemma free_slots_occupy:
  "i < length st \<Longrightarrow> is_occupied e \<Longrightarrow> free_slots (st[i := e]) = free_slots st - {i}"
  by (auto simp: free_slots_def nth_list_update)

lemma free_slots_release:
  "i < length st \<Longrightarrow> \<not> is_occupied e \<Longrightarrow> free_slots (st[i := e]) = Set.insert i (free_slots st)"
  by (auto simp: free_slots_def nth_list_update)

lemma free_slots_push: "is_occupied e \<Longrightarrow> free_slots (st @ [e]) = free_slots st"
  by (auto simp: free_slots_def nth_append less_Suc_eq)

lemma arena_invE:
  assumes "arena_inv a"
  obtains "is" where "length (storage a) \<le> isize_MAX"
    and "count a = length (filter is_occupied (storage a))"
    and "free_chain (storage a) (free a) is" and "distinct is"
    and "set is = free_slots (storage a)"
  using assms by (auto simp: arena_inv_def)

lemma arena_inv_default: "arena_inv (arena_default g)"
  by (auto simp: arena_inv_def arena_default_def free_slots_def intro: exI [of _ "[]"])

text \<open>With the invariant, \<open>free\<close> is the sentinel or the head of the chain.\<close>

lemma arena_inv_free:
  assumes inv: "arena_inv a" and f: "free a \<noteq> usize_MAX"
  obtains n "is" where "free a < length (storage a)" and "storage a ! free a = Free n"
    and "free_chain (storage a) n is" and "distinct (free a # is)"
    and "Set.insert (free a) (set is) = free_slots (storage a)"
proof -
  from inv obtain js where js: "free_chain (storage a) (free a) js" "distinct js"
      "set js = free_slots (storage a)"
    by (rule arena_invE)
  with f obtain i "is" where "js = i # is" by (cases js) auto
  with js that show thesis by auto
qed

lemma insert_with_inv:
  assumes inv: "arena_inv a" and ins: "insert_with inc f a = Some (h, a')"
  shows "arena_inv a'"
proof (cases "free a = usize_MAX")
  case True
  from inv obtain "is" where i: "length (storage a) \<le> isize_MAX"
    "count a = length (filter is_occupied (storage a))"
    "free_chain (storage a) (free a) is" "distinct is" "set is = free_slots (storage a)"
    by (rule arena_invE)
  then have "free_chain (storage a @ [Occupied v g]) (free a) is" for v g
    by (subst free_chain_append) (auto simp: free_slots_def)
  with i have "\<exists>is. free_chain (storage a @ [Occupied v g]) (free a) is \<and> distinct is
      \<and> set is = free_slots (storage a)" for v g
    by blast
  with True ins i show ?thesis
    by (auto simp: arena_op_defs arena_inv_def free_slots_push split: if_splits)
next
  case False
  with inv obtain n "is" where n: "free a < length (storage a)" "storage a ! free a = Free n"
    "free_chain (storage a) n is" "distinct (free a # is)"
    "Set.insert (free a) (set is) = free_slots (storage a)"
    by (rule arena_inv_free)
  let ?st = "\<lambda>v. (storage a)[free a := Occupied v (generation a)]"
  have "free_chain (?st v) n is \<and> distinct is \<and> set is = free_slots (?st v)" for v
    using n by (auto simp: free_chain_update free_slots_occupy)
  then have "\<exists>is. free_chain (?st v) n is \<and> distinct is \<and> set is = free_slots (?st v)" for v
    by blast
  with False ins n inv show ?thesis
    by (auto simp: arena_op_defs arena_inv_def length_filter_set nth_opt_def
        split: if_splits entry.splits)
qed

lemma insert_with_total:
  assumes inv: "arena_inv a" and room: "has_room a"
  shows "\<exists>h a'. insert_with inc f a = Some (h, a')"
proof (cases "free a = usize_MAX")
  case True
  with room show ?thesis by (simp add: arena_op_defs has_room_def)
next
  case False
  with inv obtain n where "free a < length (storage a)" "storage a ! free a = Free n"
    by (rule arena_inv_free)
  with False show ?thesis by (simp add: arena_op_defs nth_opt_def)
qed

lemma get_SomeD:
  "get a h = Some v \<Longrightarrow> h_index h < length (storage a)
     \<and> storage a ! h_index h = Occupied v (h_generation h)"
  by (auto simp: get_def nth_opt_def split: if_splits entry.splits option.splits)

lemma arena_inv_count_pos: "arena_inv a \<Longrightarrow> get a h = Some v \<Longrightarrow> 0 < count a"
  using length_filter_pos [of "h_index h" "storage a" is_occupied]
  by (auto simp: arena_inv_def dest: get_SomeD)

lemma remove_None: "get a h = None \<Longrightarrow> remove h a = Some (None, a)"
  by (auto simp: remove_def get_def split: option.splits entry.splits if_splits)

lemma remove_Some:
  assumes "arena_inv a" and "get a h = Some v"
  shows "remove h a = Some (Some v, a\<lparr>storage := (storage a)[h_index h := Free (free a)],
    free := h_index h, count := count a - 1\<rparr>)"
  using assms arena_inv_count_pos [OF assms]
  by (auto simp: remove_def get_def split: option.splits entry.splits if_splits)

text \<open>Under the invariant \<open>remove\<close> never panics, and it answers what \<open>get\<close> answers.\<close>

lemma remove_total:
  assumes "arena_inv a"
  shows "\<exists>a'. remove h a = Some (get a h, a')"
  using assms by (cases "get a h") (auto simp: remove_None remove_Some)

lemma remove_inv:
  assumes inv: "arena_inv a" and rem: "remove h a = Some (r, a')"
  shows "arena_inv a'"
proof (cases "get a h")
  case None
  with rem inv show ?thesis by (simp add: remove_None)
next
  case (Some v)
  let ?i = "h_index h" and ?st = "(storage a)[h_index h := Free (free a)]"
  from Some have i: "?i < length (storage a)" "storage a ! ?i = Occupied v (h_generation h)"
    by (auto dest: get_SomeD)
  from inv obtain "is" where c: "length (storage a) \<le> isize_MAX"
    "count a = length (filter is_occupied (storage a))"
    "free_chain (storage a) (free a) is" "distinct is" "set is = free_slots (storage a)"
    by (rule arena_invE)
  have "?i \<notin> set is" using c i by (auto simp: free_slots_def)
  with c i have "free_chain ?st ?i (?i # is)" "distinct (?i # is)"
    "set (?i # is) = free_slots ?st"
    by (auto simp: free_chain_update nth_opt_update free_slots_release)
  then have "\<exists>js. free_chain ?st ?i js \<and> distinct js \<and> set js = free_slots ?st" by blast
  with rem Some inv c i show ?thesis
    by (auto simp: remove_Some arena_inv_def length_filter_flip)
qed

lemma clear_inv: "arena_inv (clear a)"
  by (auto simp: arena_inv_def clear_def free_slots_def intro: exI [of _ "[]"])

lemma drain_inv: "arena_inv (snd (drain a))"
  by (auto simp: arena_inv_def drain_def free_slots_def intro: exI [of _ "[]"])

lemma get_mut_inv:
  assumes "arena_inv a" and "get_mut h f a = Some a'"
  shows "arena_inv a'"
proof -
  from assms(2) obtain v where v: "h_index h < length (storage a)"
      "storage a ! h_index h = Occupied v (h_generation h)"
      "a' = a\<lparr>storage := (storage a)[h_index h := Occupied (f v) (h_generation h)]\<rparr>"
    by (auto simp: get_mut_def split: option.splits entry.splits if_splits)
  from assms(1) obtain "is" where c: "length (storage a) \<le> isize_MAX"
    "count a = length (filter is_occupied (storage a))"
    "free_chain (storage a) (free a) is" "distinct is" "set is = free_slots (storage a)"
    by (rule arena_invE)
  have i: "h_index h \<notin> set is" using c v by (auto simp: free_slots_def)
  have "length (filter is_occupied (storage a')) = length (filter is_occupied (storage a))"
    using v length_filter_update [of "h_index h" "storage a" is_occupied "Occupied (f v) (h_generation h)"]
    by simp
  moreover have "free_slots (storage a') = free_slots (storage a) - {h_index h}"
    using v by (simp add: free_slots_occupy)
  moreover have "free_slots (storage a) - {h_index h} = set is" using c i by auto
  ultimately show ?thesis
    using c v i unfolding arena_inv_def
    by (intro conjI exI [of _ "is"]) (auto simp: free_chain_update)
qed

section \<open>The map of handles to values\<close>

lemma handle_eq_iff:
  "(h :: 'g handle) = h' \<longleftrightarrow> h_index h = h_index h' \<and> h_generation h = h_generation h'"
  by (cases h; cases h') simp

lemma insert_with_handle:
  "insert_with inc f a = Some (h, a') \<Longrightarrow> h_generation h = generation a \<and> generation a' = inc (generation a)"
  by (auto simp: arena_op_defs split: if_splits option.splits entry.splits)

lemma insert_with_fresh:
  "insert_with inc f a = Some (h, a') \<Longrightarrow> get a h = None"
  by (auto simp: arena_op_defs nth_opt_def split: if_splits option.splits entry.splits)

lemma insert_with_get:
  assumes "insert_with inc f a = Some (h, a')"
  shows "get a' = (get a)(h \<mapsto> f h)"
proof
  fix h'
  consider (reuse) n where "h = \<lparr>h_index = free a, h_generation = generation a\<rparr>"
      "nth_opt (storage a) (free a) = Some (Free n)"
      "storage a' = (storage a)[free a := Occupied (f h) (generation a)]"
    | (push) "h = \<lparr>h_index = length (storage a), h_generation = generation a\<rparr>"
      "storage a' = storage a @ [Occupied (f h) (generation a)]"
    using assms by (auto simp: arena_op_defs split: if_splits option.splits entry.splits)
  then show "get a' h' = ((get a)(h \<mapsto> f h)) h'"
  proof cases
    case reuse
    then have i: "free a < length (storage a)" "storage a ! free a = Free n" by auto
    show ?thesis
    proof (cases "h_index h' = free a")
      case True
      with reuse(1,3) i show ?thesis by (simp add: get_def handle_eq_iff nth_opt_def)
    next
      case False
      with reuse(1,3) i have "h' \<noteq> h" by (auto simp: handle_eq_iff)
      with False reuse(3) show ?thesis by (simp add: get_def nth_opt_def)
    qed
  next
    case push
    then show ?thesis by (auto simp: get_def handle_eq_iff nth_opt_def nth_append)
  qed
qed

lemma remove_get:
  assumes "remove h a = Some (r, a')"
  shows "get a' = (get a)(h := None)"
proof
  fix h'
  show "get a' h' = ((get a)(h := None)) h'"
    using assms
    by (auto simp: get_def remove_def handle_eq_iff nth_list_update
        split: if_splits option.splits entry.splits)
qed

lemma get_mut_get:
  assumes "get_mut h f a = Some a'"
  shows "\<exists>v. get a h = Some v \<and> get a' = (get a)(h \<mapsto> f v)"
proof -
  from assms obtain v where v: "nth_opt (storage a) (h_index h) = Some (Occupied v (h_generation h))"
      "a' = a\<lparr>storage := (storage a)[h_index h := Occupied (f v) (h_generation h)]\<rparr>"
    by (auto simp: get_mut_def split: option.splits entry.splits if_splits)
  then have "get a h = Some v" by (simp add: get_def nth_opt_def)
  moreover have "get a' h' = ((get a)(h \<mapsto> f v)) h'" for h'
    using v by (auto simp: get_def handle_eq_iff nth_list_update
        split: if_splits option.splits entry.splits)
  ultimately show ?thesis by blast
qed

lemma get_clear: "get (clear a) h = None"
  by (simp add: get_def clear_def nth_opt_def)

lemma get_drain: "get (snd (drain a)) h = None"
  by (simp add: get_def drain_def nth_opt_def)

lemma iter_from_in:
  "(h, v) \<in> set (iter_from k es) \<longleftrightarrow>
     k \<le> h_index h \<and> nth_opt es (h_index h - k) = Some (Occupied v (h_generation h))"
proof (induction k es rule: iter_from.induct)
  case (2 k n es)
  show ?case
  proof (cases "h_index h \<le> k")
    case True
    then show ?thesis using 2 by auto
  next
    case False
    then obtain d where "h_index h - k = Suc d" "h_index h - Suc k = d"
      by (metis Suc_diff_Suc not_le)
    with False 2 show ?thesis by auto
  qed
next
  case (3 k v' g es)
  show ?case
  proof (cases "h_index h \<le> k")
    case True
    then show ?thesis using 3 by (auto simp: handle_eq_iff)
  next
    case False
    then obtain d where "h_index h - k = Suc d" "h_index h - Suc k = d"
      by (metis Suc_diff_Suc not_le)
    with False 3 show ?thesis by (auto simp: handle_eq_iff)
  qed
qed simp

lemma iter_from_sorted: "sorted_wrt (<) (map (h_index \<circ> fst) (iter_from k es))
   \<and> (\<forall>x \<in> set (iter_from k es). k \<le> h_index (fst x))"
  by (induction k es rule: iter_from.induct) (auto simp: Suc_le_eq intro: less_imp_le)

lemma iter_from_length: "length (iter_from k es) = length (filter is_occupied es)"
  by (induction k es rule: iter_from.induct) auto

section \<open>The interface the clients use\<close>

text \<open>
  What a process table or a job table relies on: inserting yields a handle that named nothing
  before, and then names the value; removing answers what the handle named and forgets it; no
  other handle is affected.
\<close>

locale handle_table =
  fixes ins :: "'v \<Rightarrow> 't \<Rightarrow> ('h \<times> 't) option"
    and rem :: "'h \<Rightarrow> 't \<Rightarrow> ('v option \<times> 't) option"
    and look :: "'t \<Rightarrow> 'h \<Rightarrow> 'v option"
    and ok :: "'t \<Rightarrow> bool"
    and room :: "'t \<Rightarrow> bool"
  assumes ins_total: "ok t \<Longrightarrow> room t \<Longrightarrow> \<exists>h t'. ins v t = Some (h, t')"
    and ins_ok: "ok t \<Longrightarrow> ins v t = Some (h, t') \<Longrightarrow> ok t'"
    and ins_fresh: "ins v t = Some (h, t') \<Longrightarrow> look t h = None"
    and ins_look: "ins v t = Some (h, t') \<Longrightarrow> look t' = (look t)(h \<mapsto> v)"
    and rem_total: "ok t \<Longrightarrow> \<exists>t'. rem h t = Some (look t h, t')"
    and rem_ok: "ok t \<Longrightarrow> rem h t = Some (r, t') \<Longrightarrow> ok t'"
    and rem_look: "rem h t = Some (r, t') \<Longrightarrow> look t' = (look t)(h := None)"
begin

lemma ins_keeps: "ins v t = Some (h, t') \<Longrightarrow> look t h' = Some w \<Longrightarrow> look t' h' = Some w"
  using ins_fresh ins_look by (metis fun_upd_apply option.distinct(1))

lemma ins_twice:
  assumes "ins v t = Some (h, t')" and "ins w t' = Some (h', t'')"
  shows "h \<noteq> h' \<and> look t'' h = Some v \<and> look t'' h' = Some w"
  using ins_fresh [OF assms(2)] ins_look [OF assms(1)] ins_look [OF assms(2)] by auto

lemma ins_rem:
  assumes "ok t" and "ins v t = Some (h, t')"
  shows "\<exists>t''. rem h t' = Some (Some v, t'') \<and> look t'' = look t"
proof -
  have "look t' h = Some v" using ins_look [OF assms(2)] by simp
  then obtain t'' where t'': "rem h t' = Some (Some v, t'')"
    using rem_total [OF ins_ok [OF assms], of h] by auto
  moreover have "look t'' = look t"
    using rem_look [OF t''] ins_look [OF assms(2)] ins_fresh [OF assms(2)] by auto
  ultimately show ?thesis by blast
qed

lemma rem_gone: "rem h t = Some (r, t') \<Longrightarrow> look t' h = None"
  using rem_look by fastforce

end

interpretation arena: handle_table "insert inc" remove get arena_inv has_room
  by unfold_locales
    (auto simp: insert_def intro: insert_with_total insert_with_inv insert_with_fresh remove_inv
      remove_total dest: insert_with_get remove_get)

section \<open>Runs\<close>

text \<open>A client's history: the operations that change an arena, in sequence.\<close>

datatype ('v, 'g) arena_op =
    Insert 'v
  | Remove "'g handle"
  | Clear
  | Drain

fun arena_exec :: "('g \<Rightarrow> 'g) \<Rightarrow> ('v, 'g) arena_op \<Rightarrow> ('v, 'g) arena \<Rightarrow> ('v, 'g) arena panics" where
  "arena_exec inc (Insert v) a = map_option snd (insert inc v a)"
| "arena_exec inc (Remove h) a = map_option snd (remove h a)"
| "arena_exec inc Clear a = Some (clear a)"
| "arena_exec inc Drain a = Some (snd (drain a))"

fun arena_run :: "('g \<Rightarrow> 'g) \<Rightarrow> ('v, 'g) arena_op list \<Rightarrow> ('v, 'g) arena \<Rightarrow> ('v, 'g) arena panics" where
  "arena_run inc [] a = Some a"
| "arena_run inc (op # ops) a = do { a \<leftarrow> arena_exec inc op a; arena_run inc ops a }"

fun inserts :: "('v, 'g) arena_op list \<Rightarrow> nat" where
  "inserts [] = 0"
| "inserts (Insert v # ops) = Suc (inserts ops)"
| "inserts (op # ops) = inserts ops"

lemma arena_exec_inv: "arena_inv a \<Longrightarrow> arena_exec inc op a = Some a' \<Longrightarrow> arena_inv a'"
  by (cases op) (auto simp: insert_def clear_inv drain_inv dest: insert_with_inv remove_inv)

lemma insert_with_length:
  "insert_with inc f a = Some (h, a') \<Longrightarrow> length (storage a') \<le> Suc (length (storage a))"
  by (auto simp: arena_op_defs split: if_splits option.splits entry.splits)

lemma remove_length: "remove h a = Some (r, a') \<Longrightarrow> length (storage a') = length (storage a)"
  by (auto simp: remove_def split: if_splits option.splits entry.splits)

lemma arena_run_total:
  assumes "arena_inv a" and "length (storage a) + inserts ops \<le> isize_MAX"
  shows "\<exists>a'. arena_run inc ops a = Some a' \<and> arena_inv a'"
  using assms
proof (induction ops arbitrary: a)
  case (Cons op ops)
  have "\<exists>a'. arena_exec inc op a = Some a' \<and> length (storage a') + inserts ops \<le> isize_MAX"
  proof (cases op)
    case (Insert v)
    with Cons.prems have "has_room a" by (simp add: has_room_def)
    then obtain h a' where ins: "insert_with inc (\<lambda>_. v) a = Some (h, a')"
      using insert_with_total [OF Cons.prems(1)] by metis
    then show ?thesis
      using insert_with_length [OF ins] Cons.prems(2) Insert by (simp add: insert_def)
  next
    case (Remove h)
    obtain a' where a': "remove h a = Some (get a h, a')"
      using remove_total [OF Cons.prems(1)] by blast
    then show ?thesis
      using remove_length [OF a'] Cons.prems(2) Remove by simp
  qed (use Cons.prems in \<open>auto simp: clear_def drain_def\<close>)
  then obtain a' where "arena_exec inc op a = Some a'"
    and "length (storage a') + inserts ops \<le> isize_MAX" by blast
  with Cons.IH [of a'] arena_exec_inv [OF Cons.prems(1)] show ?case by auto
qed simp

text \<open>
  What a run can do to the value a handle names: as long as no insertion uses the generation of
  the handle, the handle names its value or nothing.
\<close>

lemma generation_insert:
  "insert_with inc f a = Some (h, a') \<Longrightarrow> generation a' = inc (generation a)"
  by (simp add: insert_with_handle)

lemma generation_remove: "remove h a = Some (r, a') \<Longrightarrow> generation a' = generation a"
  by (auto simp: remove_def split: if_splits option.splits entry.splits)

lemma insert_with_other_generation:
  assumes "insert_with inc f a = Some (h', a')" and "generation a \<noteq> h_generation h"
  shows "get a' h = get a h"
proof -
  have "h \<noteq> h'" using insert_with_handle [OF assms(1)] assms(2) by auto
  then show ?thesis using insert_with_get [OF assms(1)] by simp
qed

lemma arena_run_stale:
  fixes g :: "'n::len word"
  assumes "arena_run increment_int ops a = Some a'"
    and "get a h \<in> {None, Some v}"
    and "generation a = h_generation h + of_nat (Suc k)"
    and "k + inserts ops < 2 ^ LENGTH('n) - 1"
    and "h_generation h = g"
  shows "get a' h \<in> {None, get a h}"
  using assms
proof (induction ops arbitrary: a k)
  case (Cons op ops)
  from Cons.prems(1) obtain b where b: "arena_exec increment_int op a = Some b"
    "arena_run increment_int ops b = Some a'" by auto
  have ne: "generation a \<noteq> h_generation h" if "Suc k < 2 ^ LENGTH('n)"
  proof
    assume "generation a = h_generation h"
    with Cons.prems(3) have "(of_nat (Suc k) :: 'n word) = 0"
      using Cons.prems(5) by (metis add_cancel_right_right)
    with that show False
      by (metis of_nat_inverse unat_0 nat.distinct(1))
  qed
  show ?case
  proof (cases op)
    case (Insert w)
    with b obtain h' where ins: "insert_with increment_int (\<lambda>_. w) a = Some (h', b)"
      by (auto simp: insert_def)
    have "get b h = get a h"
      using insert_with_other_generation [OF ins] ne Cons.prems(4) Insert by simp
    moreover have "generation b = h_generation h + of_nat (Suc (Suc k))"
      using generation_insert [OF ins] Cons.prems(3)
      by (simp add: increment_int_def algebra_simps)
    ultimately show ?thesis
      using Cons.IH [OF b(2), of "Suc k"] Cons.prems Insert by simp
  next
    case (Remove h')
    with b obtain r where rem: "remove h' a = Some (r, b)" by auto
    then have "get b h \<in> {None, get a h}" using remove_get [OF rem] by auto
    then show ?thesis
      using Cons.IH [OF b(2), of k] generation_remove [OF rem] Cons.prems Remove by auto
  next
    case Clear
    then show ?thesis
      using Cons.IH [OF b(2), of k] Cons.prems b get_clear [of a h] by (auto simp: clear_def)
  next
    case Drain
    then show ?thesis
      using Cons.IH [OF b(2), of k] Cons.prems b get_drain [of a h] by (auto simp: drain_def)
  qed
qed simp

section \<open>Properties\<close>

text \<open>
  C1. Any sequence of operations on a fresh arena with at most \<open>isize::MAX\<close> insertions runs
  without a panic (the \<open>unreachable!\<close> arms and the index operations included) and ends in a state
  whose free chain visits every free entry exactly once and whose \<open>count\<close> is the number of
  occupied entries.
\<close>

theorem arena_run_safe:
  assumes "inserts ops \<le> isize_MAX"
  shows "\<exists>a. arena_run inc ops (arena_default g) = Some a \<and> arena_inv a"
  using arena_run_total [OF arena_inv_default [of g], of ops inc] assms
  by (simp add: arena_default_def)

theorem arena_run_safe_witness:
  "\<exists>a. arena_run increment_int [Insert (7::nat), Insert 8, Remove \<lparr>h_index = 0, h_generation = 0\<rparr>]
     (arena_default (0::u8)) = Some a \<and> arena_inv a"
  by (rule arena_run_safe) (simp add: isize_MAX_def)

text \<open>
  C2. The arena implements a finite map from handles to values. While there is room, \<open>insert\<close>
  returns a handle that named nothing and now names the value, and changes no other handle;
  \<open>remove\<close> never panics, returns what the handle named and forgets exactly this handle.
\<close>

theorem arena_refines_map:
  assumes "arena_inv a" and "has_room a"
  shows "(\<exists>h a'. insert inc v a = Some (h, a') \<and> get a h = None \<and> get a' = (get a)(h \<mapsto> v)
           \<and> arena_inv a')
     \<and> (\<exists>a'. remove k a = Some (get a k, a') \<and> get a' = (get a)(k := None) \<and> arena_inv a')"
proof
  obtain h a' where ins: "insert inc v a = Some (h, a')"
    using arena.ins_total [OF assms] by blast
  then show "\<exists>h a'. insert inc v a = Some (h, a') \<and> get a h = None \<and> get a' = (get a)(h \<mapsto> v)
      \<and> arena_inv a'"
    using arena.ins_fresh [OF ins] arena.ins_look [OF ins] arena.ins_ok [OF assms(1) ins] by blast
  obtain a'' where rem: "remove k a = Some (get a k, a'')"
    using remove_total [OF assms(1)] by blast
  then show "\<exists>a'. remove k a = Some (get a k, a') \<and> get a' = (get a)(k := None) \<and> arena_inv a'"
    using remove_get [OF rem] remove_inv [OF assms(1) rem] by blast
qed

theorem arena_refines_map_witness:
  "(\<exists>h a'. insert increment_int (5::nat) (arena_default (0::u8)) = Some (h, a')
      \<and> get (arena_default (0::u8) :: (nat, u8) arena) h = None
      \<and> get a' = (get (arena_default 0))(h \<mapsto> 5) \<and> arena_inv a')
   \<and> (\<exists>a'. remove \<lparr>h_index = 0, h_generation = 3\<rparr> (arena_default (0::u8) :: (nat, u8) arena)
        = Some (get (arena_default (0::u8) :: (nat, u8) arena) \<lparr>h_index = 0, h_generation = 3\<rparr>, a')
      \<and> get a' = (get (arena_default 0))(\<lparr>h_index = 0, h_generation = 3\<rparr> := None) \<and> arena_inv a')"
proof (rule arena_refines_map)
  show "arena_inv (arena_default (0::u8) :: (nat, u8) arena)" by (rule arena_inv_default)
  show "has_room (arena_default (0::u8) :: (nat, u8) arena)"
    by (simp add: has_room_def arena_default_def isize_MAX_def)
qed

text \<open>
  C3. Generations prevent the ABA problem for as long as they do not wrap. A handle returned by
  \<open>insert\<close> in an arena with a \<open>w\<close>-bit generation resolves to the inserted value or to nothing
  after any sequence of operations with fewer than \<open>2^w - 1\<close> further insertions, whatever is put
  into its slot.
\<close>

theorem stale_handle_safe:
  fixes a :: "('v, 'n::len word) arena"
  assumes "insert increment_int v a = Some (h, a1)"
    and "arena_run increment_int ops a1 = Some a2"
    and "inserts ops < 2 ^ LENGTH('n) - 1"
  shows "get a2 h = None \<or> get a2 h = Some v"
proof -
  have ins: "insert_with increment_int (\<lambda>_. v) a = Some (h, a1)"
    using assms(1) by (simp add: insert_def)
  then have "get a1 h = Some v" by (simp add: insert_with_get)
  moreover have "generation a1 = h_generation h + of_nat (Suc 0)"
    using insert_with_handle [OF ins] by (simp add: increment_int_def)
  ultimately show ?thesis
    using arena_run_stale [OF assms(2), of h v 0] assms(3) by auto
qed

theorem stale_handle_safe_witness:
  "\<exists>h a1 a2. insert increment_int (5::nat) (arena_default (0::u8)) = Some (h, a1)
     \<and> arena_run increment_int [Remove h, Insert 6] a1 = Some a2
     \<and> (get a2 h = None \<or> get a2 h = Some 5)"
proof -
  let ?h = "\<lparr>h_index = 0, h_generation = 0\<rparr> :: u8 handle"
  let ?a1 = "\<lparr>storage = [Occupied 5 0], free = usize_MAX, generation = 1, count = 1\<rparr>
    :: (nat, u8) arena"
  let ?a2 = "\<lparr>storage = [Occupied 6 1], free = usize_MAX, generation = 2, count = 1\<rparr>
    :: (nat, u8) arena"
  have 1: "insert increment_int (5::nat) (arena_default (0::u8)) = Some (?h, ?a1)"
    by (simp add: arena_op_defs arena_default_def increment_int_def isize_MAX_def)
  have 2: "arena_run increment_int [Remove ?h, Insert 6] ?a1 = Some ?a2"
    by (simp add: arena_op_defs nth_opt_def increment_int_def usize_MAX_def)
  show ?thesis using 1 2 stale_handle_safe [OF 1 2] by fastforce
qed

text \<open>
  C4. Iteration is exact: \<open>iter\<close> yields every live handle with its value once, in index order, and
  \<open>len\<close> is their number.
\<close>

theorem iter_exact:
  assumes "arena_inv a"
  shows "set (iter a) = {(h, v). get a h = Some v} \<and> distinct (map fst (iter a))
     \<and> sorted (map (h_index \<circ> fst) (iter a)) \<and> length (iter a) = len a"
proof -
  have "(h, v) \<in> set (iter a) \<longleftrightarrow> get a h = Some v" for h v
    by (auto simp: iter_def iter_from_in get_def nth_opt_def split: entry.splits if_splits)
  moreover have "sorted (map (h_index \<circ> fst) (iter a)) \<and> distinct (map (h_index \<circ> fst) (iter a))"
    using iter_from_sorted [of 0 "storage a"] by (simp add: iter_def strict_sorted_iff)
  moreover from this have "distinct (map h_index (map fst (iter a)))" by simp
  then have "distinct (map fst (iter a))" by (simp only: distinct_map)
  moreover have "length (iter a) = len a"
    using assms by (simp add: iter_def len_def iter_from_length arena_inv_def)
  ultimately show ?thesis by auto
qed

theorem iter_exact_witness:
  "set (iter (arena_default (0::u8) :: (nat, u8) arena)) = {(h, v). get (arena_default 0) h = Some v}
   \<and> distinct (map fst (iter (arena_default (0::u8) :: (nat, u8) arena)))
   \<and> sorted (map (h_index \<circ> fst) (iter (arena_default (0::u8) :: (nat, u8) arena)))
   \<and> length (iter (arena_default (0::u8) :: (nat, u8) arena)) = len (arena_default (0::u8) :: (nat, u8) arena)"
  by (rule iter_exact) (rule arena_inv_default)

end
