(* ===== verification/Process.thy ===== *)
theory Process
  imports Arena Ticket
begin

text \<open>
  Processes, \<open>kernel/src/scheduler/process/mod.rs\<close>, with the handles of \<open>kernel/src/util.rs\<close>: the object
  table and the thread table of a process, its exit status, and the operations of system calls on
  them. Objects and threads are values of arbitrary types. The address space of a process is the
  subject of the theory on address spaces.
\<close>

section \<open>Handles\<close>

definition erase_handle :: "u8 handle \<Rightarrow> Handle panics" where
  "erase_handle h =
     (let (index, generation) = into_raw h in
      do { assert (index < 2 ^ 24);
           Some (push_bit 24 (ucast generation) OR of_nat index) })"

definition unerase_handle :: "Handle \<Rightarrow> u8 handle" where
  "unerase_handle h = from_raw (unat (h AND 0xffffff)) (ucast (drop_bit 24 h))"

lemma mask24: "(0xffffff :: u32) = mask 24"
  by (simp add: mask_eq_exp_minus_1)

lemma bit_of_nat_low: "n < 2 ^ 24 \<Longrightarrow> bit (of_nat n :: u32) k \<Longrightarrow> k < 24"
proof -
  assume "n < 2 ^ 24" "bit (of_nat n :: u32) k"
  then have "take_bit 24 (of_nat n :: u32) = of_nat n"
    by (simp add: word_unat_eq_iff unsigned_take_bit_eq unat_of_nat_small take_bit_nat_eq_self)
  then show ?thesis using \<open>bit (of_nat n) k\<close> by (metis bit_take_bit_iff)
qed

lemma unerase_erase:
  assumes "erase_handle h = Some x" shows "unerase_handle x = h"
proof -
  have i: "h_index h < 2 ^ 24" and x: "x = push_bit 24 (ucast (h_generation h)) OR of_nat (h_index h)"
    using assms by (auto simp: erase_handle_def into_raw_def split: if_splits)
  have "x AND mask 24 = of_nat (h_index h)"
    unfolding x
    by (intro bit_word_eqI)
       (auto simp: bit_and_iff bit_or_iff bit_push_bit_iff bit_mask_iff dest: bit_of_nat_low [OF i])
  moreover have "ucast (drop_bit 24 x) = h_generation h"
    unfolding x
    by (intro bit_word_eqI)
       (auto simp: bit_ucast_iff bit_drop_bit_eq bit_or_iff bit_push_bit_iff dest: bit_of_nat_low [OF i])
  ultimately show ?thesis
    using i by (simp add: unerase_handle_def from_raw_def mask24 unat_of_nat_small)
qed

lemma erase_unerase: "erase_handle (unerase_handle x) = Some x"
proof -
  have "unat (x AND mask 24) < 2 ^ 24"
    using take_bit_nat_less_exp [of 24 "unat x"] by (simp add: unsigned_take_bit_eq flip: take_bit_eq_mask)
  moreover have "push_bit 24 (ucast (ucast (drop_bit 24 x) :: u8)) OR (x AND mask 24) = x"
  proof (rule bit_word_eqI)
    fix n assume "n < LENGTH(32)"
    then show "bit (push_bit 24 (ucast (ucast (drop_bit 24 x) :: u8)) OR (x AND mask 24)) n = bit x n"
      by (cases "n < 24") (auto simp: bit_and_iff bit_or_iff bit_push_bit_iff bit_mask_iff bit_ucast_iff bit_drop_bit_eq)
  qed
  ultimately show ?thesis
    by (simp add: erase_handle_def unerase_handle_def into_raw_def from_raw_def mask24)
qed

text \<open>
  C20. Handles given to programs and handles of the object table correspond one to one: every table
  handle that fits is recovered from its number, and every 32-bit number is the number of the table
  handle it is decoded to.
\<close>

theorem handle_roundtrip:
  "(erase_handle h = Some x \<longrightarrow> unerase_handle x = h)
    \<and> (erase_handle h = None \<longleftrightarrow> 2 ^ 24 \<le> h_index h)
    \<and> erase_handle (unerase_handle y) = Some y"
  using unerase_erase erase_unerase by (auto simp: erase_handle_def into_raw_def Let_def)

theorem handle_roundtrip_witness:
  "erase_handle \<lparr>h_index = 5, h_generation = 3\<rparr> = Some 0x3000005 \<and> unerase_handle 0x3000005 = \<lparr>h_index = 5, h_generation = 3\<rparr>"
proof -
  have "erase_handle \<lparr>h_index = 5, h_generation = 3\<rparr> = Some 0x3000005"
    by (simp add: erase_handle_def into_raw_def push_bit_eq_mult)
  then show ?thesis using handle_roundtrip by blast
qed

section \<open>Processes\<close>

record ('o, 'th) Process =
  pr_objects :: "('o, u8) arena"
  pr_threads :: "('th, u8) arena"
  pr_exit_code :: u8
  pr_wake_on_exit :: "ticket list"

definition process_new :: "('o, 'th) Process" where
  "process_new = \<lparr>pr_objects = arena_default 0, pr_threads = arena_default 0, pr_exit_code = 0,
     pr_wake_on_exit = []\<rparr>"

definition get_object :: "('o, 'th) Process \<Rightarrow> Handle \<Rightarrow> 'o option" where
  "get_object p h = get (pr_objects p) (unerase_handle h)"

definition add_object :: "'o \<Rightarrow> ('o, 'th) Process \<Rightarrow> (Handle \<times> ('o, 'th) Process) panics" where
  "add_object obj p =
     do { (h, a) \<leftarrow> Arena.insert increment_int obj (pr_objects p);
          x \<leftarrow> erase_handle h;
          Some (x, p\<lparr>pr_objects := a\<rparr>) }"

definition add_objects :: "'o \<times> 'o \<Rightarrow> ('o, 'th) Process \<Rightarrow> ((Handle \<times> Handle) \<times> ('o, 'th) Process) panics" where
  "add_objects = (\<lambda>(a, b) p.
     do { (h, objs) \<leftarrow> Arena.insert increment_int a (pr_objects p);
          x \<leftarrow> erase_handle h;
          (h', objs) \<leftarrow> Arena.insert increment_int b objs;
          y \<leftarrow> erase_handle h';
          Some ((x, y), p\<lparr>pr_objects := objs\<rparr>) })"

definition remove_object :: "Handle \<Rightarrow> ('o, 'th) Process \<Rightarrow> ((Error + unit) \<times> ('o, 'th) Process) panics" where
  "remove_object h p =
     do { (r, a) \<leftarrow> Arena.remove (unerase_handle h) (pr_objects p);
          Some (case r of None \<Rightarrow> Inl InvalidObject | Some _ \<Rightarrow> Inr (), p\<lparr>pr_objects := a\<rparr>) }"

definition duplicate_object_handle :: "Handle \<Rightarrow> ('o, 'th) Process \<Rightarrow> (Handle option \<times> ('o, 'th) Process) panics" where
  "duplicate_object_handle h p =
     (case get (pr_objects p) (unerase_handle h) of
        Some obj \<Rightarrow>
          do { (h', a) \<leftarrow> Arena.insert increment_int obj (pr_objects p);
               x \<leftarrow> erase_handle h';
               Some (Some x, p\<lparr>pr_objects := a\<rparr>) }
      | None \<Rightarrow> Some (None, p))"

definition object_transform_new ::
  "Handle \<Rightarrow> ('o \<Rightarrow> 'r + 'o) \<Rightarrow> ('o, 'th) Process \<Rightarrow> (('r + Handle) option \<times> ('o, 'th) Process) panics" where
  "object_transform_new h f p =
     (case get (pr_objects p) (unerase_handle h) of
        None \<Rightarrow> Some (None, p)
      | Some obj \<Rightarrow>
          (case f obj of
             Inl e \<Rightarrow> Some (Some (Inl e), p)
           | Inr new \<Rightarrow>
               do { (h', a) \<leftarrow> Arena.insert increment_int new (pr_objects p);
                    x \<leftarrow> erase_handle h';
                    Some (Some (Inr x), p\<lparr>pr_objects := a\<rparr>) }))"

text \<open>
  \<open>set_handle\<close> stores the handle in the thread; the new thread is also given to the scheduler.
\<close>

definition spawn_thread ::
  "(Handle \<Rightarrow> 'th \<Rightarrow> 'th) \<Rightarrow> 'th \<Rightarrow> ('o, 'th) Process \<Rightarrow> (Handle \<times> ('o, 'th) Process) panics" where
  "spawn_thread set_handle thread p =
     do { (h, ths) \<leftarrow> Arena.insert increment_int thread (pr_threads p);
          x \<leftarrow> erase_handle h;
          ths \<leftarrow> index_mut h (set_handle x) ths;
          Some (x, p\<lparr>pr_threads := ths\<rparr>) }"

definition get_thread :: "('o, 'th) Process \<Rightarrow> Handle \<Rightarrow> 'th option" where
  "get_thread p h = get (pr_threads p) (unerase_handle h)"

definition prepare_destroy :: "('o, 'th) Process \<Rightarrow> ('o, 'th) Process" where
  "prepare_destroy p = p\<lparr>pr_objects := clear (pr_objects p)\<rparr>"

definition encode_status_bin :: "u8 \<Rightarrow> ('th, u8) arena \<Rightarrow> u8 list" where
  "encode_status_bin exit_code threads = (if is_empty threads then [1, exit_code] else [0])"

definition process_destroy :: "u8 \<Rightarrow> ('o, 'th) Process \<Rightarrow> u8 list tickets \<Rightarrow> 'th list \<times> ('o, 'th) Process \<times> u8 list tickets" where
  "process_destroy code p ts =
     (let (ths, threads) = drain (pr_threads p);
          s = encode_status_bin code threads
      in (map snd ths, p\<lparr>pr_threads := threads, pr_exit_code := code, pr_wake_on_exit := []\<rparr>,
          fold (\<lambda>w ts. complete w (Inr s) ts) (pr_wake_on_exit p) ts))"

text \<open>The properties \<open>bin/status\<close> and \<open>bin/wait\<close> in ASCII.\<close>

definition BIN_STATUS :: "u8 list" where
  "BIN_STATUS = [0x62, 0x69, 0x6e, 0x2f, 0x73, 0x74, 0x61, 0x74, 0x75, 0x73]"

definition BIN_WAIT :: "u8 list" where
  "BIN_WAIT = [0x62, 0x69, 0x6e, 0x2f, 0x77, 0x61, 0x69, 0x74]"

definition process_get_meta ::
  "u8 list \<Rightarrow> ('o, 'th) Process \<Rightarrow> u8 list tickets \<Rightarrow> ticket \<times> ('o, 'th) Process \<times> u8 list tickets" where
  "process_get_meta property p ts =
     (if property = BIN_STATUS then
        let (t, ts) = ticket_new_complete (Inr (encode_status_bin (pr_exit_code p) (pr_threads p))) ts in (t, p, ts)
      else if property = BIN_WAIT then
        let (t, ts) = ticket_new ts in (t, p\<lparr>pr_wake_on_exit := pr_wake_on_exit p @ [t]\<rparr>, ts)
      else let (t, ts) = ticket_new_complete (Inl InvalidData) ts in (t, p, ts))"

section \<open>The object table\<close>

lemma get_object_upd:
  assumes "erase_handle h0 = Some x" and "get a = (get (pr_objects p))(h0 := v)"
  shows "get_object (p\<lparr>pr_objects := a\<rparr>) = (get_object p)(x := v)"
proof
  fix y
  show "get_object (p\<lparr>pr_objects := a\<rparr>) y = ((get_object p)(x := v)) y"
    using assms unerase_erase [OF assms(1)] erase_unerase [of y]
    by (cases "y = x") (auto simp: get_object_def)
qed

lemma add_object_get:
  assumes "add_object obj p = Some (x, p')"
  shows "get_object p x = None \<and> get_object p' = (get_object p)(x \<mapsto> obj)"
proof -
  from assms obtain h a where ins: "Arena.insert increment_int obj (pr_objects p) = Some (h, a)"
    and x: "erase_handle h = Some x" and p': "p' = p\<lparr>pr_objects := a\<rparr>"
    by (auto simp: add_object_def)
  have "get_object p x = None"
    using arena.ins_fresh [OF ins] unerase_erase [OF x] by (simp add: get_object_def)
  then show ?thesis using get_object_upd [OF x] arena.ins_look [OF ins] p' by simp
qed

lemma remove_object_get:
  assumes "arena_inv (pr_objects p)"
  shows "\<exists>p'. remove_object x p = Some (case get_object p x of None \<Rightarrow> Inl InvalidObject | Some _ \<Rightarrow> Inr (), p')
    \<and> get_object p' = (get_object p)(x := None)"
proof -
  obtain a where rem: "Arena.remove (unerase_handle x) (pr_objects p)
      = Some (get (pr_objects p) (unerase_handle x), a)"
    using arena.rem_total [OF assms] by blast
  then have "remove_object x p = Some (case get_object p x of None \<Rightarrow> Inl InvalidObject | Some _ \<Rightarrow> Inr (),
      p\<lparr>pr_objects := a\<rparr>)"
    by (simp add: remove_object_def get_object_def)
  moreover have "get_object (p\<lparr>pr_objects := a\<rparr>) = (get_object p)(x := None)"
    using get_object_upd [OF erase_unerase] arena.rem_look [OF rem] .
  ultimately show ?thesis by blast
qed

lemma add_object_inv: "arena_inv (pr_objects p) \<Longrightarrow> add_object obj p = Some (x, p') \<Longrightarrow> arena_inv (pr_objects p')"
  by (auto simp: add_object_def dest: arena.ins_ok)

lemma duplicate_is_add:
  "get_object p x = Some obj \<Longrightarrow> duplicate_object_handle x p = map_option (map_prod Some id) (add_object obj p)"
  by (auto simp: duplicate_object_handle_def add_object_def get_object_def split: bind_splits)

text \<open>
  C21. The object table of a process as programs see it is a map from 32-bit handles: adding an object
  yields a handle that named nothing before; duplicating it yields a second handle for the same
  object; closing one of the two leaves the other and all other handles valid.
\<close>

theorem process_handles_correct:
  assumes "arena_inv (pr_objects p)" and "add_object obj p = Some (x, p')"
    and "duplicate_object_handle x p' = Some (d, p'')"
  shows "get_object p x = None \<and> get_object p' = (get_object p)(x \<mapsto> obj)
    \<and> (\<exists>y. d = Some y \<and> y \<noteq> x \<and> get_object p' y = None \<and> get_object p'' = (get_object p')(y \<mapsto> obj)
      \<and> (\<exists>q. remove_object x p'' = Some (Inr (), q) \<and> get_object q = (get_object p)(y \<mapsto> obj)
        \<and> (\<exists>q'. remove_object x q = Some (Inl InvalidObject, q'))))"
proof -
  note a = add_object_get [OF assms(2)]
  have "get_object p' x = Some obj" using a by simp
  from duplicate_is_add [OF this] assms(3)
  have "map_option (map_prod Some id) (add_object obj p') = Some (d, p'')" by simp
  then obtain y where y: "d = Some y" "add_object obj p' = Some (y, p'')" by auto
  note b = add_object_get [OF y(2)]
  have inv'': "arena_inv (pr_objects p'')" using add_object_inv [OF add_object_inv [OF assms(1,2)] y(2)] .
  have ne: "y \<noteq> x" using a b by auto
  obtain q where q: "remove_object x p'' = Some (Inr (), q)" "get_object q = (get_object p'')(x := None)"
    using remove_object_get [OF inv'', of x] a b ne by auto
  have look: "get_object q = (get_object p)(y \<mapsto> obj)" using q(2) a b ne by (auto simp: fun_eq_iff)
  have "arena_inv (pr_objects q)"
    using q(1) arena.rem_ok [OF inv''] by (auto simp: remove_object_def)
  from remove_object_get [OF this, of x] look a ne
  have "\<exists>q'. remove_object x q = Some (Inl InvalidObject, q')" by auto
  with a b y(1) ne q(1) look show ?thesis by blast
qed

theorem process_handles_correct_witness:
  "\<exists>x p' d p''. add_object (7 :: nat) (process_new :: (nat, unit) Process) = Some (x, p')
     \<and> duplicate_object_handle x p' = Some (d, p'') \<and> get_object p' x = Some 7"
proof -
  let ?p = "process_new :: (nat, unit) Process"
  have ins: "add_object (7 :: nat) ?p = Some (0, ?p\<lparr>pr_objects := \<lparr>storage = [Occupied 7 0], free = usize_MAX,
      generation = 1, count = 1\<rparr>\<rparr>)"
    by (simp add: add_object_def process_new_def arena_default_def insert_def insert_with_def vec_push_def
        isize_MAX_def erase_handle_def into_raw_def increment_int_def Let_def)
  then obtain d p'' where dup: "duplicate_object_handle 0 (?p\<lparr>pr_objects := \<lparr>storage = [Occupied 7 0],
      free = usize_MAX, generation = 1, count = 1\<rparr>\<rparr>) = Some (d, p'')"
    by (simp add: duplicate_object_handle_def unerase_handle_def from_raw_def get_def nth_opt_def insert_def
        insert_with_def vec_push_def isize_MAX_def erase_handle_def into_raw_def Let_def)
  have "arena_inv (pr_objects ?p)" by (simp add: process_new_def arena_inv_default)
  from process_handles_correct [OF this ins dup] ins dup show ?thesis by auto
qed

text \<open>
  C22. When a process is destroyed, every ticket that waits for its exit is completed with its exit
  code, none stays behind, and its status from then on says the same.
\<close>

theorem exit_status_delivered:
  assumes "process_destroy code p ts = (ths, p', ts')" and "set (pr_wake_on_exit p) \<subseteq> {..<length (cells ts)}"
  shows "(\<forall>w \<in> set (pr_wake_on_exit p). status_of ts' w = Some (Inr [1, code]))
    \<and> pr_wake_on_exit p' = [] \<and> map snd (iter (pr_threads p)) = ths
    \<and> (\<exists>t ts''. process_get_meta BIN_STATUS p' ts' = (t, p', ts'') \<and> status_of ts'' t = Some (Inr [1, code]))"
proof -
  have fold: "w \<in> set ws \<Longrightarrow> status_of (fold (\<lambda>w ts. complete w (Inr r) ts) ws ts) w = Some (Inr r)"
    if "set ws \<subseteq> {..<length (cells ts)}" for ws w r and ts :: "u8 list tickets"
    using that
  proof (induction ws rule: rev_induct)
    case (snoc v ws)
    have "length (cells (fold (\<lambda>w ts. complete w (Inr r) ts) ws ts)) = length (cells ts)"
      by (induction ws arbitrary: ts) simp_all
    with snoc show ?case by auto
  qed simp
  have empty: "is_empty (snd (drain (pr_threads p)))" by (simp add: is_empty_def len_def drain_def)
  then have "encode_status_bin code (snd (drain (pr_threads p))) = [1, code]" by (simp add: encode_status_bin_def)
  then have eqs: "ts' = fold (\<lambda>w ts. complete w (Inr [1, code])  ts) (pr_wake_on_exit p) ts"
      "p' = p\<lparr>pr_threads := snd (drain (pr_threads p)), pr_exit_code := code, pr_wake_on_exit := []\<rparr>"
      "ths = map snd (fst (drain (pr_threads p)))"
    using assms(1) by (auto simp: process_destroy_def split_beta Let_def)
  let ?new = "ticket_new_complete (Inr [1, code]) ts'"
  have "process_get_meta BIN_STATUS p' ts' = (fst ?new, p', snd ?new)"
    using empty by (simp add: process_get_meta_def eqs(2) encode_status_bin_def split_beta Let_def)
  moreover have "status_of (snd ?new) (fst ?new) = Some (Inr [1, code])" by simp
  moreover have "map snd (iter (pr_threads p)) = ths" by (simp add: eqs(3) drain_def iter_def)
  moreover have "\<forall>w \<in> set (pr_wake_on_exit p). status_of ts' w = Some (Inr [1, code])"
    using fold [OF assms(2)] by (simp add: eqs(1))
  ultimately show ?thesis by (auto simp: eqs(2) intro!: exI)
qed

theorem exit_status_delivered_witness:
  "\<exists>ts'. process_destroy 9 \<lparr>pr_objects = (arena_default 0 :: (nat, u8) arena), pr_threads = (arena_default 0 :: (unit, u8) arena),
      pr_exit_code = 0, pr_wake_on_exit = [0]\<rparr> (snd (ticket_new \<lparr>cells = [], woken = []\<rparr>)) = ([], process_new\<lparr>pr_exit_code := 9\<rparr>, ts')
    \<and> status_of ts' 0 = Some (Inr [1, 9])"
proof -
  let ?p = "\<lparr>pr_objects = (arena_default 0 :: (nat, u8) arena), pr_threads = (arena_default 0 :: (unit, u8) arena),
      pr_exit_code = 0, pr_wake_on_exit = [0]\<rparr>"
  obtain ts' where d: "process_destroy 9 ?p (snd (ticket_new \<lparr>cells = [], woken = []\<rparr>))
      = ([], process_new\<lparr>pr_exit_code := 9\<rparr>, ts')"
    by (simp add: process_destroy_def drain_def arena_default_def process_new_def Let_def)
  from exit_status_delivered [OF d] d show ?thesis by auto
qed

end
