(* ===== verification/Io_Request.thy ===== *)
theory Io_Request
  imports Kernel_Api
begin

text \<open>
  Requests to the kernel as programs build them, \<open>lib/rust/kernel/src/{io,syscall,time}.rs\<close>: the
  entries of the request ring, the register image of \<open>do_io\<close>, and the wrappers of the other system
  calls with the decoding of what the kernel returns. A slice is its address and its length.
\<close>

section \<open>Requests for the I/O queue\<close>

record slice =
  sl_ptr :: u64
  sl_len :: usize

record Request =
  rq_ty :: u8
  rq_arguments_8 :: "u8 \<times> u8 \<times> u8"
  rq_handle :: Handle
  rq_arguments_64 :: "u64 \<times> u64"
  rq_user_data :: u64

definition REQ_READ :: u8 where "REQ_READ = 0"
definition REQ_WRITE :: u8 where "REQ_WRITE = 1"
definition REQ_GET_META :: u8 where "REQ_GET_META = 2"
definition REQ_SET_META :: u8 where "REQ_SET_META = 3"
definition REQ_OPEN :: u8 where "REQ_OPEN = 4"
definition REQ_CREATE :: u8 where "REQ_CREATE = 5"
definition REQ_DESTROY :: u8 where "REQ_DESTROY = 6"
definition REQ_SEEK :: u8 where "REQ_SEEK = 7"
definition REQ_CLOSE :: u8 where "REQ_CLOSE = 8"
definition REQ_SHARE :: u8 where "REQ_SHARE = 9"

lemmas req_codes = REQ_READ_def REQ_WRITE_def REQ_GET_META_def REQ_SET_META_def REQ_OPEN_def
  REQ_CREATE_def REQ_DESTROY_def REQ_SEEK_def REQ_CLOSE_def REQ_SHARE_def

definition request_default :: Request where
  "request_default = \<lparr>rq_ty = -1, rq_arguments_8 = (0, 0, 0), rq_handle = 0,
     rq_arguments_64 = (0, 0), rq_user_data = 0\<rparr>"

definition len_u8 :: "slice \<Rightarrow> u8" where
  "len_u8 s = ucast (sl_len s)"

text \<open>The conversion of a slice to a \<open>TinySlice\<close> never fails, whatever the length is.\<close>

definition tiny_try_from :: "slice \<Rightarrow> unit + slice" where
  "tiny_try_from s = Inr s"

definition tiny_from_raw_parts :: "u64 \<Rightarrow> u8 \<Rightarrow> slice" where
  "tiny_from_raw_parts base n = \<lparr>sl_ptr = base, sl_len = ucast n\<rparr>"

definition request_read :: "u64 \<Rightarrow> Handle \<Rightarrow> slice \<Rightarrow> Request" where
  "request_read ud h buf = request_default\<lparr>rq_ty := REQ_READ, rq_handle := h,
     rq_arguments_64 := (sl_ptr buf, sl_len buf), rq_user_data := ud\<rparr>"

definition request_read_uninit :: "u64 \<Rightarrow> Handle \<Rightarrow> slice \<Rightarrow> Request" where
  "request_read_uninit ud h buf = request_default\<lparr>rq_ty := REQ_READ, rq_handle := h,
     rq_arguments_64 := (sl_ptr buf, sl_len buf), rq_user_data := ud\<rparr>"

definition request_write :: "u64 \<Rightarrow> Handle \<Rightarrow> slice \<Rightarrow> Request" where
  "request_write ud h buf = request_default\<lparr>rq_ty := REQ_WRITE, rq_handle := h,
     rq_arguments_64 := (sl_ptr buf, sl_len buf), rq_user_data := ud\<rparr>"

definition request_get_meta :: "u64 \<Rightarrow> Handle \<Rightarrow> slice \<Rightarrow> slice \<Rightarrow> Request" where
  "request_get_meta ud h property value = request_default\<lparr>rq_ty := REQ_GET_META, rq_handle := h,
     rq_arguments_8 := (len_u8 property, len_u8 value, 0),
     rq_arguments_64 := (sl_ptr property, sl_ptr value), rq_user_data := ud\<rparr>"

definition request_get_meta_uninit :: "u64 \<Rightarrow> Handle \<Rightarrow> slice \<Rightarrow> slice \<Rightarrow> Request" where
  "request_get_meta_uninit ud h property value = request_default\<lparr>rq_ty := REQ_GET_META, rq_handle := h,
     rq_arguments_8 := (len_u8 property, len_u8 value, 0),
     rq_arguments_64 := (sl_ptr property, sl_ptr value), rq_user_data := ud\<rparr>"

definition request_set_meta :: "u64 \<Rightarrow> Handle \<Rightarrow> slice \<Rightarrow> slice \<Rightarrow> Request" where
  "request_set_meta ud h property value = request_default\<lparr>rq_ty := REQ_SET_META, rq_handle := h,
     rq_arguments_8 := (len_u8 property, len_u8 value, 0),
     rq_arguments_64 := (sl_ptr property, sl_ptr value), rq_user_data := ud\<rparr>"

definition request_open :: "u64 \<Rightarrow> Handle \<Rightarrow> slice \<Rightarrow> Request" where
  "request_open ud h path = request_default\<lparr>rq_ty := REQ_OPEN, rq_handle := h,
     rq_arguments_64 := (sl_ptr path, sl_len path), rq_user_data := ud\<rparr>"

definition request_create :: "u64 \<Rightarrow> Handle \<Rightarrow> slice \<Rightarrow> Request" where
  "request_create ud h path = request_default\<lparr>rq_ty := REQ_CREATE, rq_handle := h,
     rq_arguments_64 := (sl_ptr path, sl_len path), rq_user_data := ud\<rparr>"

definition request_seek :: "u64 \<Rightarrow> Handle \<Rightarrow> SeekFrom \<Rightarrow> Request" where
  "request_seek ud h from =
     (let (t, n) = seek_into_raw from
      in request_default\<lparr>rq_ty := REQ_SEEK, rq_handle := h, rq_arguments_8 := (t, 0, 0),
           rq_arguments_64 := (n, 0), rq_user_data := ud\<rparr>)"

definition request_close :: "u64 \<Rightarrow> Handle \<Rightarrow> Request" where
  "request_close ud h = request_default\<lparr>rq_ty := REQ_CLOSE, rq_handle := h, rq_user_data := ud\<rparr>"

definition request_share :: "u64 \<Rightarrow> Handle \<Rightarrow> Handle \<Rightarrow> Request" where
  "request_share ud h shr = request_default\<lparr>rq_ty := REQ_SHARE, rq_handle := h,
     rq_arguments_64 := (ucast shr, 0), rq_user_data := ud\<rparr>"

definition request_destroy :: "u64 \<Rightarrow> Handle \<Rightarrow> Request" where
  "request_destroy ud h = request_default\<lparr>rq_ty := REQ_DESTROY, rq_handle := h, rq_user_data := ud\<rparr>"

lemmas request_defs [op_defs] = request_default_def request_read_def request_read_uninit_def
  request_write_def request_get_meta_def request_get_meta_uninit_def request_set_meta_def
  request_open_def request_create_def request_seek_def request_close_def request_share_def
  request_destroy_def

section \<open>Direct I/O\<close>

datatype DoIoOp =
    DoRead slice
  | DoReadUninit slice
  | DoWrite slice
  | DoOpen slice
  | DoGetMeta slice slice
  | DoGetMetaUninit slice slice
  | DoSetMeta slice slice
  | DoCreate slice
  | DoDestroy slice
  | DoSeek SeekFrom
  | DoClose
  | DoShare Handle

record DoIo =
  io_handle :: Handle
  io_op :: DoIoOp

datatype RawDoIo = R0 | R1 usize | R2 usize usize | R3 usize usize usize

fun do_io_into_args :: "Handle \<Rightarrow> DoIoOp \<Rightarrow> u8 \<times> Handle \<times> RawDoIo" where
  "do_io_into_args h (DoRead buf) = (REQ_READ, h, R2 (sl_ptr buf) (sl_len buf))"
| "do_io_into_args h (DoReadUninit buf) = (REQ_READ, h, R2 (sl_ptr buf) (sl_len buf))"
| "do_io_into_args h (DoWrite dat) = (REQ_WRITE, h, R2 (sl_ptr dat) (sl_len dat))"
| "do_io_into_args h (DoGetMeta property value) =
     (REQ_GET_META, h, R3 (sl_ptr property) (sl_ptr value) (sl_len property OR push_bit 8 (sl_len value)))"
| "do_io_into_args h (DoGetMetaUninit property value) =
     (REQ_GET_META, h, R3 (sl_ptr property) (sl_ptr value) (sl_len property OR push_bit 8 (sl_len value)))"
| "do_io_into_args h (DoSetMeta property value) =
     (REQ_SET_META, h, R3 (sl_ptr property) (sl_ptr value) (sl_len property OR push_bit 8 (sl_len value)))"
| "do_io_into_args h (DoOpen path) = (REQ_OPEN, h, R2 (sl_ptr path) (sl_len path))"
| "do_io_into_args h (DoCreate path) = (REQ_CREATE, h, R2 (sl_ptr path) (sl_len path))"
| "do_io_into_args h (DoDestroy path) = (REQ_DESTROY, h, R2 (sl_ptr path) (sl_len path))"
| "do_io_into_args h (DoSeek from) =
     (let (t, off) = seek_into_raw from in (REQ_SEEK, h, R2 (ucast t) off))"
| "do_io_into_args h DoClose = (REQ_CLOSE, h, R0)"
| "do_io_into_args h (DoShare shr) = (REQ_SHARE, h, R1 (ucast shr))"

section \<open>System calls\<close>

text \<open>
  A system call is its number and the values of the argument registers it sets, in the order
  \<open>rdi, rsi, rdx, r10, r8, r9\<close>. The kernel answers with a status and a value.
\<close>

definition ID_ALLOC :: usize where "ID_ALLOC = 0"
definition ID_DEALLOC :: usize where "ID_DEALLOC = 1"
definition ID_NEW_OBJECT :: usize where "ID_NEW_OBJECT = 2"
definition ID_MAP_OBJECT :: usize where "ID_MAP_OBJECT = 3"
definition ID_DO_IO :: usize where "ID_DO_IO = 4"
definition ID_POLL_IO_QUEUE :: usize where "ID_POLL_IO_QUEUE = 5"
definition ID_WAIT_IO_QUEUE :: usize where "ID_WAIT_IO_QUEUE = 6"
definition ID_SLEEP :: usize where "ID_SLEEP = 8"
definition ID_EXIT :: usize where "ID_EXIT = 9"
definition ID_SPAWN_THREAD :: usize where "ID_SPAWN_THREAD = 10"
definition ID_WAIT_THREAD :: usize where "ID_WAIT_THREAD = 11"
definition ID_EXIT_THREAD :: usize where "ID_EXIT_THREAD = 12"
definition ID_CREATE_IO_QUEUE :: usize where "ID_CREATE_IO_QUEUE = 13"
definition ID_DESTROY_IO_QUEUE :: usize where "ID_DESTROY_IO_QUEUE = 14"

type_synonym syscall = "usize \<times> usize list"

definition ret :: "usize \<times> usize \<Rightarrow> Error + (usize \<times> usize)" where
  "ret r = (case result (fst r) of Inl e \<Rightarrow> Inl e | Inr status \<Rightarrow> Inr (status, snd r))"

definition map_ret :: "('a \<Rightarrow> 'b) \<Rightarrow> Error + 'a \<Rightarrow> Error + 'b" where
  "map_ret f r = (case r of Inl e \<Rightarrow> Inl e | Inr x \<Rightarrow> Inr (f x))"

definition null_or :: "usize option \<Rightarrow> usize" where
  "null_or p = (case p of None \<Rightarrow> 0 | Some p \<Rightarrow> p)"

text \<open>A duration is its number of nanoseconds; what does not fit is the longest one.\<close>

definition duration_to_sys :: "nat \<Rightarrow> usize \<times> usize option" where
  "duration_to_sys ns = (if ns < 2 ^ 64 then of_nat ns else -1, None)"

definition sys_alloc :: "usize option \<Rightarrow> usize \<Rightarrow> RWX \<Rightarrow> syscall" where
  "sys_alloc base sz rwx = (ID_ALLOC, [null_or base, sz, ucast (rwx_into_raw rwx)])"

definition sys_alloc_ret :: "usize \<times> usize \<Rightarrow> Error + (usize \<times> usize)" where
  "sys_alloc_ret r = map_ret (\<lambda>(status, value). (value, status)) (ret r)"

definition sys_dealloc :: "usize \<Rightarrow> usize \<Rightarrow> syscall" where
  "sys_dealloc base sz = (ID_DEALLOC, [base, sz])"

definition sys_do_io :: "Handle \<Rightarrow> DoIoOp \<Rightarrow> syscall" where
  "sys_do_io handle op =
     (let (ty, h, a) = do_io_into_args handle op; h = ucast h; ty = ucast ty in
      case a of
        R0 \<Rightarrow> (ID_DO_IO, [ty, h])
      | R1 a \<Rightarrow> (ID_DO_IO, [ty, h, a])
      | R2 a b \<Rightarrow> (ID_DO_IO, [ty, h, a, b])
      | R3 a b c \<Rightarrow> (ID_DO_IO, [ty, h, a, b, c]))"

definition sys_do_io_ret :: "usize \<times> usize \<Rightarrow> Error + u64" where
  "sys_do_io_ret r = map_ret snd (ret r)"

definition sys_new_object :: "NewObject \<Rightarrow> syscall" where
  "sys_new_object obj =
     (let (ty, args) = new_object_into_args obj in
      case args of
        N0 \<Rightarrow> (ID_NEW_OBJECT, [ty])
      | N1 a \<Rightarrow> (ID_NEW_OBJECT, [ty, a])
      | N2 a b \<Rightarrow> (ID_NEW_OBJECT, [ty, a, b])
      | N3 a b c \<Rightarrow> (ID_NEW_OBJECT, [ty, a, b, c]))"

definition sys_new_object_ret :: "usize \<times> usize \<Rightarrow> Error + (Handle \<times> Handle)" where
  "sys_new_object_ret r = map_ret (\<lambda>(a, b). (ucast a, ucast b)) (ret r)"

definition sys_map_object :: "Handle \<Rightarrow> usize option \<Rightarrow> RWX \<Rightarrow> usize \<Rightarrow> usize \<Rightarrow> syscall" where
  "sys_map_object handle base rwx offset max_length =
     (ID_MAP_OBJECT, [ucast handle, null_or base, ucast (rwx_into_raw rwx), offset, max_length])"

text \<open>\<open>NonNull::new(v).unwrap()\<close> panics on a null base.\<close>

definition sys_map_object_ret :: "usize \<times> usize \<Rightarrow> (Error + (usize \<times> usize)) panics" where
  "sys_map_object_ret r =
     (case ret r of Inl e \<Rightarrow> Some (Inl e)
      | Inr (s, v) \<Rightarrow> do { assert (v \<noteq> 0); Some (Inr (v, s)) })"

definition sys_sleep :: "nat \<Rightarrow> syscall" where
  "sys_sleep t = (case duration_to_sys t of
     (l, None) \<Rightarrow> (ID_SLEEP, [l]) | (l, Some h) \<Rightarrow> (ID_SLEEP, [l, h]))"

definition sys_spawn_thread :: "usize \<Rightarrow> usize \<Rightarrow> syscall" where
  "sys_spawn_thread start stack = (ID_SPAWN_THREAD, [start, stack])"

definition sys_spawn_thread_ret :: "usize \<times> usize \<Rightarrow> Error + Handle" where
  "sys_spawn_thread_ret r = map_ret (\<lambda>(_, h). ucast h) (ret r)"

definition sys_create_io_queue :: "usize option \<Rightarrow> u8 \<Rightarrow> u8 \<Rightarrow> syscall" where
  "sys_create_io_queue base req resp = (ID_CREATE_IO_QUEUE, [null_or base, ucast req, ucast resp])"

definition sys_create_io_queue_ret :: "usize \<times> usize \<Rightarrow> (Error + usize) panics" where
  "sys_create_io_queue_ret r =
     (case ret r of Inl e \<Rightarrow> Some (Inl e)
      | Inr (_, v) \<Rightarrow> do { assert (v \<noteq> 0); Some (Inr v) })"

definition sys_destroy_io_queue :: "usize \<Rightarrow> syscall" where
  "sys_destroy_io_queue base = (ID_DESTROY_IO_QUEUE, [base])"

definition sys_process_io_queue :: "usize option \<Rightarrow> syscall" where
  "sys_process_io_queue base = (ID_POLL_IO_QUEUE, [null_or base])"

definition sys_wait_io_queue :: "usize option \<Rightarrow> nat \<Rightarrow> syscall" where
  "sys_wait_io_queue base timeout = (case duration_to_sys timeout of
     (l, None) \<Rightarrow> (ID_WAIT_IO_QUEUE, [null_or base, l])
   | (l, Some h) \<Rightarrow> (ID_WAIT_IO_QUEUE, [null_or base, l, h]))"

definition sys_exit_thread :: syscall where
  "sys_exit_thread = (ID_EXIT_THREAD, [])"

definition sys_wait_thread :: "Handle \<Rightarrow> syscall" where
  "sys_wait_thread handle = (ID_WAIT_THREAD, [ucast handle])"

definition sys_exit :: "u8 \<Rightarrow> syscall" where
  "sys_exit code = (ID_EXIT, [ucast code])"

text \<open>The results of the calls that only tell success from failure.\<close>

definition sys_unit_ret :: "usize \<times> usize \<Rightarrow> Error + unit" where
  "sys_unit_ret r = map_ret (\<lambda>_. ()) (ret r)"

section \<open>Time\<close>

text \<open>\<open>Monotonic\<close> is a number of nanoseconds; a \<open>Duration\<close> is an unbounded one.\<close>

type_synonym Monotonic = u64

definition as_micros :: "Monotonic \<Rightarrow> u64" where "as_micros t = t div 1000"
definition as_millis :: "Monotonic \<Rightarrow> u64" where "as_millis t = t div 1000000"
definition as_secs :: "Monotonic \<Rightarrow> u64" where "as_secs t = t div 1000000000"

definition checked_duration_since :: "Monotonic \<Rightarrow> Monotonic \<Rightarrow> nat option" where
  "checked_duration_since t earlier = (if earlier \<le> t then Some (unat (t - earlier)) else None)"

definition saturating_duration_since :: "Monotonic \<Rightarrow> Monotonic \<Rightarrow> nat" where
  "saturating_duration_since t earlier =
     (case checked_duration_since t earlier of None \<Rightarrow> 0 | Some d \<Rightarrow> d)"

definition monotonic_checked_add :: "Monotonic \<Rightarrow> nat \<Rightarrow> Monotonic option" where
  "monotonic_checked_add t d =
     (if d < 2 ^ 64 \<and> unat t + d < 2 ^ 64 then Some (t + of_nat d) else None)"

lemma checked_add_since:
  assumes "monotonic_checked_add t d = Some t'"
  shows "checked_duration_since t' t = Some d"
proof -
  have d: "d < 2 ^ 64" "unat t + d < 2 ^ 64" "t' = t + of_nat d"
    using assms by (auto simp: monotonic_checked_add_def split: if_splits)
  then have "unat t' = unat t + d"
    by (simp add: unat_word_ariths unat_of_nat_small)
  then show ?thesis
    using d by (simp add: checked_duration_since_def word_le_nat_alt unat_of_nat_small)
qed

section \<open>Decoding results\<close>

lemma sint_error_code: "4 \<le> LENGTH('n) \<Longrightarrow> sint (word_of_int (error_code e) :: 'n::len word) = error_code e"
proof -
  assume "4 \<le> LENGTH('n)"
  then have "(2 :: int) ^ 3 \<le> 2 ^ (LENGTH('n) - 1)" by (intro power_increasing) simp_all
  then have "- (2 ^ (LENGTH('n) - 1)) \<le> error_code e" "error_code e < 2 ^ (LENGTH('n) - 1)"
    by (cases e; simp)+
  then show ?thesis by (simp add: signed_of_int signed_take_bit_int_eq_self)
qed

text \<open>
  C14. Every error code that the kernel returns decodes to the error it stands for, in every integer
  width in use, and a value is taken for a success exactly when it is outside of the reserved range,
  in which case it is passed on unchanged.
\<close>

theorem error_roundtrip:
  fixes w :: "'n::len word"
  assumes "4 \<le> LENGTH('n)"
  shows "result (word_of_int (error_code e) :: 'n word) = Inl e
    \<and> error_from (word_of_int (error_code e) :: 'n word) = e
    \<and> (result w = Inr v \<longleftrightarrow> v = w \<and> \<not> (-4096 \<le> sint w \<and> sint w \<le> -1))"
proof -
  have "result (word_of_int (error_code e) :: 'n word) = Inl e"
    using sint_error_code [OF assms, of e] by (cases e) (simp_all add: result_def Let_def)
  then show ?thesis by (auto simp: error_from_def result_def Let_def)
qed

theorem error_roundtrip_witness:
  "result (word_of_int (error_code InvalidData) :: 64 word) = Inl InvalidData \<and> result (5 :: 64 word) = Inr 5"
  using error_roundtrip [where 'n = 64, of InvalidData 5 5] by simp

text \<open>Lengths that fit a byte survive the packing of the meta calls.\<close>

lemma meta_lengths:
  fixes p v :: usize
  assumes "unat p < 256" and "unat v < 256"
  shows "unat (ucast (p OR push_bit 8 v) :: u8) = unat p"
    and "unat (ucast (drop_bit 8 (p OR push_bit 8 v)) :: u8) = unat v"
proof -
  have small: "\<not> bit w n" if "unat w < 256" "8 \<le> n" for w :: usize and n
  proof -
    have "take_bit 8 w = w"
      using that(1) by (simp add: word_unat_eq_iff unsigned_take_bit_eq take_bit_nat_eq_self)
    then show ?thesis using that(2) by (metis bit_take_bit_iff leD)
  qed
  have 1: "ucast (p OR push_bit 8 v) = (ucast p :: u8)"
    by (intro bit_word_eqI) (auto simp: bit_ucast_iff bit_or_iff bit_push_bit_iff)
  have 2: "ucast (drop_bit 8 (p OR push_bit 8 v)) = (ucast v :: u8)"
    using small [OF assms(1)]
    by (intro bit_word_eqI) (auto simp: bit_ucast_iff bit_or_iff bit_push_bit_iff bit_drop_bit_eq)
  have "unat (ucast w :: u8) = unat w" if "unat w < 256" for w :: usize
    using that by (simp add: unsigned_ucast_eq take_bit_eq_mod)
  then show "unat (ucast (p OR push_bit 8 v) :: u8) = unat p"
    and "unat (ucast (drop_bit 8 (p OR push_bit 8 v)) :: u8) = unat v"
    using assms 1 2 by simp_all
qed

end
