(* ===== verification/Io_Ring.thy ===== *)
theory Io_Ring
  imports Io_Request
begin

text \<open>
  The rings shared by a process and the kernel, \<open>lib/rust/kernel/src/io.rs\<close>. A ring is a pair of
  free-running 32-bit indices and the entries; the number of entries is a power of two, so that an
  index is mapped to a slot with a mask. \<open>enqueue\<close> and \<open>dequeue\<close> are shown to implement a bounded
  first-in first-out queue, also when the indices wrap around, and the interleaving of one producer
  with one consumer is shown to lose, duplicate and reorder nothing.
\<close>

section \<open>Operations\<close>

datatype Full = Full
datatype Empty = Empty

text \<open>The arguments are the read index, the write index, the entries and the mask.\<close>

definition enqueue :: "u32 \<Rightarrow> u32 \<Rightarrow> 'e list \<Rightarrow> u32 \<Rightarrow> 'e \<Rightarrow> Full + (u32 \<times> 'e list)" where
  "enqueue r w entries msk e =
     (if r + (msk + 1) = w then Inl Full
      else Inr (w + 1, entries[unat (w AND msk) := e]))"

definition dequeue :: "u32 \<Rightarrow> u32 \<Rightarrow> 'e list \<Rightarrow> u32 \<Rightarrow> Empty + ('e \<times> u32)" where
  "dequeue r w entries msk =
     (if r = w then Inl Empty else Inr (entries ! unat (r AND msk), r + 1))"

record 'e ring =
  user_index :: u32
  kernel_index :: u32
  entries :: "'e list"

record Response =
  rs_value :: i64
  rs_user_data :: u64

definition request_enqueue :: "u32 \<Rightarrow> 'e ring \<Rightarrow> 'e \<Rightarrow> Full + 'e ring" where
  "request_enqueue msk q e =
     (case enqueue (kernel_index q) (user_index q) (entries q) msk e of
        Inl f \<Rightarrow> Inl f
      | Inr (w, es) \<Rightarrow> Inr (q\<lparr>user_index := w, entries := es\<rparr>))"

definition request_dequeue :: "u32 \<Rightarrow> 'e ring \<Rightarrow> Empty + ('e \<times> 'e ring)" where
  "request_dequeue msk q =
     (case dequeue (kernel_index q) (user_index q) (entries q) msk of
        Inl f \<Rightarrow> Inl f
      | Inr (e, r) \<Rightarrow> Inr (e, q\<lparr>kernel_index := r\<rparr>))"

definition response_enqueue :: "u32 \<Rightarrow> 'e ring \<Rightarrow> 'e \<Rightarrow> Full + 'e ring" where
  "response_enqueue msk q e =
     (case enqueue (user_index q) (kernel_index q) (entries q) msk e of
        Inl f \<Rightarrow> Inl f
      | Inr (w, es) \<Rightarrow> Inr (q\<lparr>kernel_index := w, entries := es\<rparr>))"

definition response_dequeue :: "u32 \<Rightarrow> 'e ring \<Rightarrow> Empty + ('e \<times> 'e ring)" where
  "response_dequeue msk q =
     (case dequeue (user_index q) (kernel_index q) (entries q) msk of
        Inl f \<Rightarrow> Inl f
      | Inr (e, r) \<Rightarrow> Inr (e, q\<lparr>user_index := r\<rparr>))"

text \<open>
  The queue: the masks and the two rings in the memory it points to. The sizes of the structures are
  those of their \<open>repr(C)\<close> layout: 8 bytes for the indices, 32 for a request, 16 for a response.
\<close>

record io_queue =
  requests_mask :: u32
  responses_mask :: u32
  request_ring :: "Request ring"
  response_ring :: "Response ring"

definition request_ring_size :: "u32 \<Rightarrow> nat" where
  "request_ring_size msk = 8 + unat (msk + 1) * 32"

definition response_ring_size :: "u32 \<Rightarrow> nat" where
  "response_ring_size msk = 8 + unat (msk + 1) * 16"

definition total_size :: "u32 \<Rightarrow> u32 \<Rightarrow> nat" where
  "total_size req resp = request_ring_size req + response_ring_size resp"

definition enqueue_request :: "io_queue \<Rightarrow> Request \<Rightarrow> Full + io_queue" where
  "enqueue_request q e =
     (case request_enqueue (requests_mask q) (request_ring q) e of
        Inl f \<Rightarrow> Inl f | Inr r \<Rightarrow> Inr (q\<lparr>request_ring := r\<rparr>))"

definition dequeue_request :: "io_queue \<Rightarrow> Empty + (Request \<times> io_queue)" where
  "dequeue_request q =
     (case request_dequeue (requests_mask q) (request_ring q) of
        Inl f \<Rightarrow> Inl f | Inr (e, r) \<Rightarrow> Inr (e, q\<lparr>request_ring := r\<rparr>))"

definition enqueue_response :: "io_queue \<Rightarrow> Response \<Rightarrow> Full + io_queue" where
  "enqueue_response q e =
     (case response_enqueue (responses_mask q) (response_ring q) e of
        Inl f \<Rightarrow> Inl f | Inr r \<Rightarrow> Inr (q\<lparr>response_ring := r\<rparr>))"

definition dequeue_response :: "io_queue \<Rightarrow> Empty + (Response \<times> io_queue)" where
  "dequeue_response q =
     (case response_dequeue (responses_mask q) (response_ring q) of
        Inl f \<Rightarrow> Inl f | Inr (e, r) \<Rightarrow> Inr (e, q\<lparr>response_ring := r\<rparr>))"

definition responses_available :: "io_queue \<Rightarrow> u32" where
  "responses_available q = kernel_index (response_ring q) - user_index (response_ring q)"

text \<open>
  The busy-waiting loops call a closure until it answers true or the ring changes. One round of each:
  whether the loop ends, from the index that the other side may have moved.
\<close>

definition wait_empty_done :: "'e ring \<Rightarrow> (u32 \<Rightarrow> bool) \<Rightarrow> bool" where
  "wait_empty_done q f \<longleftrightarrow> user_index q = kernel_index q \<or> f (user_index q - kernel_index q)"

definition wait_any_done :: "'e ring \<Rightarrow> bool \<Rightarrow> bool" where
  "wait_any_done q b \<longleftrightarrow> user_index q \<noteq> kernel_index q \<or> b"

section \<open>Slots\<close>

lemma unat_add_mod:
  fixes r :: u32 assumes "k \<le> 32" shows "unat (r + of_nat i) mod 2 ^ k = (unat r + i) mod 2 ^ k"
proof -
  have "(2 :: nat) ^ k dvd 2 ^ 32" using assms by (rule le_imp_power_dvd)
  moreover have "unat (r + of_nat i) = (unat r + i) mod 2 ^ 32"
    by (simp add: unat_word_ariths unsigned_of_nat take_bit_eq_mod mod_simps)
  ultimately show ?thesis by (simp add: mod_mod_cancel)
qed

lemma slot_le_inj:
  fixes n :: nat
  assumes "i \<le> j" and "j < 2 ^ k" and "(n + i) mod 2 ^ k = (n + j) mod (2 ^ k :: nat)"
  shows "i = j"
proof -
  have "2 ^ k dvd (n + j) - (n + i)"
    using assms by (metis add_le_cancel_left mod_eq_dvd_iff_nat)
  then have "2 ^ k dvd j - i" by simp
  then show ?thesis using assms(1,2) by (metis diff_is_0_eq dvd_imp_le le_antisym leD less_imp_diff_less not_gr0)
qed

lemma slot_inj:
  fixes n :: nat
  assumes "i < 2 ^ k" and "j < 2 ^ k" and "(n + i) mod 2 ^ k = (n + j) mod (2 ^ k :: nat)"
  shows "i = j"
  using slot_le_inj [of i j k n] slot_le_inj [of j i k n] assms by (metis nat_le_linear)

section \<open>Contents\<close>

text \<open>
  The entries between the read and the write index, oldest first. A ring is well-formed if it has
  \<open>2 ^ k\<close> entries and at most as many are in use.
\<close>

definition contents :: "u32 \<Rightarrow> u32 \<Rightarrow> 'e list \<Rightarrow> 'e list" where
  "contents r w es = map (\<lambda>i. es ! ((unat r + i) mod length es)) [0..<unat (w - r)]"

definition ring_ok :: "nat \<Rightarrow> u32 \<Rightarrow> u32 \<Rightarrow> 'e list \<Rightarrow> bool" where
  "ring_ok k r w es \<longleftrightarrow> k < 32 \<and> length es = 2 ^ k \<and> unat (w - r) \<le> 2 ^ k"

lemma length_contents [simp]: "length (contents r w es) = unat (w - r)"
  by (simp add: contents_def)

lemma mask_plus_one: "mask k + 1 = (2 ^ k :: u32)"
  by (simp add: mask_eq_exp_minus_1)

lemma unat_exp32: "k < 32 \<Longrightarrow> unat (2 ^ k :: u32) = 2 ^ k"
  using unat_of_nat_small [where 'n = 32, of "2 ^ k"] power_strict_increasing [of k 32 "2 :: nat"] by simp

lemma ring_full_iff:
  fixes r w :: u32
  assumes "k < 32" shows "r + (mask k + 1) = w \<longleftrightarrow> unat (w - r) = 2 ^ k"
proof -
  have "r + (mask k + 1) = w \<longleftrightarrow> w - r = 2 ^ k"
    unfolding mask_plus_one by (auto simp: algebra_simps)
  also have "\<dots> \<longleftrightarrow> unat (w - r) = unat (2 ^ k :: u32)" by (simp only: word_unat_eq_iff)
  finally show ?thesis by (simp add: unat_exp32 [OF assms])
qed

lemma ring_empty_iff: "r = w \<longleftrightarrow> unat (w - r) = 0" for r w :: u32
  by (auto simp: unat_eq_0)

lemma write_slot:
  fixes r w :: u32
  assumes "k < 32" shows "unat (w AND mask k) = (unat r + unat (w - r)) mod 2 ^ k"
  using unat_add_mod [of k r "unat (w - r)"] assms by (simp add: unat_and_mask)

lemma contents_write:
  assumes "ring_ok k r w es" and "unat (w - r) < 2 ^ k"
  shows "contents r w (es[unat (w AND mask k) := e]) = contents r w es"
proof (rule nth_equalityI)
  fix i assume "i < length (contents r w (es[unat (w AND mask k) := e]))"
  then have i: "i < unat (w - r)" by simp
  then have "(unat r + i) mod 2 ^ k \<noteq> unat (w AND mask k)"
    using slot_inj [of i k "unat (w - r)" "unat r"] assms write_slot [of k w r]
    by (auto simp: ring_ok_def)
  with i assms(1) show "contents r w (es[unat (w AND mask k) := e]) ! i = contents r w es ! i"
    by (simp add: contents_def ring_ok_def)
qed simp

lemma unat_minus_succ:
  fixes r w :: u32
  assumes "unat (w - r) < 2 ^ 31" shows "unat (w + 1 - r) = Suc (unat (w - r))"
proof -
  have "w + 1 - r = (w - r) + 1" by simp
  moreover have "unat ((w - r) + 1) = Suc (unat (w - r))"
    using assms by (simp add: unat_word_ariths)
  ultimately show ?thesis by (simp only:)
qed

lemma exp_le_31: "k < 32 \<Longrightarrow> (2 :: nat) ^ k \<le> 2 ^ 31"
  by (intro power_increasing) simp_all

lemma enqueue_ok:
  fixes e :: 'e
  assumes "ring_ok k r w es" and "unat (w - r) < 2 ^ k"
  defines "es' \<equiv> es[unat (w AND mask k) := e]"
  shows "enqueue r w es (mask k) e = Inr (w + 1, es')" and "ring_ok k r (w + 1) es'"
    and "contents r (w + 1) es' = contents r w es @ [e]"
proof -
  have k: "k < 32" "length es = 2 ^ k" using assms(1) by (simp_all add: ring_ok_def)
  have suc: "unat (w + 1 - r) = Suc (unat (w - r))"
    using assms(2) exp_le_31 [OF k(1)] by (intro unat_minus_succ) simp
  show "enqueue r w es (mask k) e = Inr (w + 1, es')"
    using assms(2) ring_full_iff [OF k(1), of r w] by (simp add: enqueue_def es'_def)
  show "ring_ok k r (w + 1) es'" using assms(2) k suc by (simp add: ring_ok_def es'_def)
  have "contents r (w + 1) es' = contents r w es' @ [es' ! ((unat r + unat (w - r)) mod 2 ^ k)]"
    using k suc by (simp add: contents_def es'_def)
  also have "\<dots> = contents r w es @ [e]"
    using contents_write [OF assms(1,2)] write_slot [OF k(1), of w r] k by (simp add: es'_def)
  finally show "contents r (w + 1) es' = contents r w es @ [e]" .
qed

lemma enqueue_full:
  "ring_ok k r w es \<Longrightarrow> unat (w - r) = 2 ^ k \<Longrightarrow> enqueue r w es (mask k) e = Inl Full"
  by (simp add: enqueue_def ring_full_iff ring_ok_def)

lemma contents_nonempty:
  assumes "ring_ok k r w es" and "r \<noteq> w"
  shows "contents r w es = es ! unat (r AND mask k) # contents (r + 1) w es" and "ring_ok k (r + 1) w es"
proof -
  have k: "k < 32" "length es = 2 ^ k" "unat (w - r) \<le> 2 ^ k" using assms(1) by (simp_all add: ring_ok_def)
  obtain n where n: "unat (w - r) = Suc n" using assms(2) ring_empty_iff [of r w] by (cases "unat (w - r)") auto
  have "w - (r + 1) = (w - r) - 1" by simp
  moreover have "w - r \<noteq> 0" using n by auto
  ultimately have n': "unat (w - (r + 1)) = n" using n unat_minus_one [of "w - r"] by (simp only:) simp
  have "unat (r + 1) mod 2 ^ k = (unat r + 1) mod 2 ^ k" using unat_add_mod [of k r 1] k(1) by simp
  then have "(unat (r + 1) + i) mod 2 ^ k = (unat r + 1 + i) mod 2 ^ k" for i
    by (rule mod_add_cong) simp
  then have "(unat (r + 1) + i) mod 2 ^ k = (unat r + Suc i) mod 2 ^ k" for i by simp
  then have "contents (r + 1) w es = map (\<lambda>i. es ! ((unat r + Suc i) mod 2 ^ k)) [0..<n]"
    using k n' by (simp add: contents_def)
  moreover have "contents r w es = es ! (unat r mod 2 ^ k) # map (\<lambda>i. es ! ((unat r + Suc i) mod 2 ^ k)) [0..<n]"
    unfolding contents_def n k(2) by (simp add: upt_conv_Cons map_Suc_upt [symmetric] del: upt_Suc)
  ultimately show "contents r w es = es ! unat (r AND mask k) # contents (r + 1) w es"
    using k(1) by (simp add: unat_and_mask)
  show "ring_ok k (r + 1) w es" using k n n' by (simp add: ring_ok_def)
qed

section \<open>Bounded queues\<close>

text \<open>
  What both sides rely on: a queue of bounded capacity. \<open>cont\<close> is its abstraction, the list of the
  elements in it.
\<close>

locale bounded_fifo =
  fixes inv :: "'s \<Rightarrow> bool" and cap :: "'s \<Rightarrow> nat" and cont :: "'s \<Rightarrow> 'e list"
    and enq :: "'s \<Rightarrow> 'e \<Rightarrow> Full + 's" and deq :: "'s \<Rightarrow> Empty + ('e \<times> 's)"
  assumes cont_bound: "inv s \<Longrightarrow> length (cont s) \<le> cap s"
    and enq_full: "inv s \<Longrightarrow> length (cont s) = cap s \<Longrightarrow> enq s e = Inl Full"
    and enq_room: "inv s \<Longrightarrow> length (cont s) \<noteq> cap s \<Longrightarrow>
      \<exists>s'. enq s e = Inr s' \<and> inv s' \<and> cap s' = cap s \<and> cont s' = cont s @ [e]"
    and deq_empty: "inv s \<Longrightarrow> cont s = [] \<Longrightarrow> deq s = Inl Empty"
    and deq_cons: "inv s \<Longrightarrow> cont s = e # es \<Longrightarrow>
      \<exists>s'. deq s = Inr (e, s') \<and> inv s' \<and> cap s' = cap s \<and> cont s' = es"
begin

lemma enq_Inr:
  assumes "inv s" and "enq s e = Inr s'"
  shows "inv s' \<and> cap s' = cap s \<and> cont s' = cont s @ [e] \<and> length (cont s) < cap s"
proof -
  have "length (cont s) \<noteq> cap s" using enq_full [OF assms(1)] assms(2) by auto
  then show ?thesis using enq_room [OF assms(1), of e] assms(2) cont_bound [OF assms(1)] by auto
qed

lemma enq_Inl: "inv s \<Longrightarrow> enq s e = Inl f \<Longrightarrow> length (cont s) = cap s"
  using enq_room [of s e] by auto

lemma deq_Inr:
  assumes "inv s" and "deq s = Inr (e, s')"
  shows "inv s' \<and> cap s' = cap s \<and> cont s = e # cont s'"
proof (cases "cont s")
  case Nil
  then show ?thesis using deq_empty [OF assms(1)] assms(2) by simp
next
  case (Cons a es)
  then show ?thesis using deq_cons [OF assms(1) Cons] assms(2) by auto
qed

lemma deq_Inl: "inv s \<Longrightarrow> deq s = Inl f \<Longrightarrow> cont s = []"
  using deq_cons [of s] by (cases "cont s") auto

text \<open>What goes in while there is room comes out in the same order.\<close>

lemma enq_deq_order:
  assumes "inv s" and "cont s = []" and "enq s a = Inr s1" and "enq s1 b = Inr s2"
  shows "\<exists>s3 s4. deq s2 = Inr (a, s3) \<and> deq s3 = Inr (b, s4) \<and> cont s4 = []"
proof -
  have 1: "inv s2" "cont s2 = [a, b]"
    using enq_Inr [OF assms(1,3)] enq_Inr [OF _ assms(4)] assms(2) by auto
  then obtain s3 where 2: "deq s2 = Inr (a, s3)" "inv s3" "cont s3 = [b]" using deq_cons by blast
  then obtain s4 where "deq s3 = Inr (b, s4)" "cont s4 = []" using deq_cons by blast
  with 2(1) show ?thesis by blast
qed

end

definition requests :: "io_queue \<Rightarrow> Request list" where
  "requests q = contents (kernel_index (request_ring q)) (user_index (request_ring q)) (entries (request_ring q))"

definition responses :: "io_queue \<Rightarrow> Response list" where
  "responses q = contents (user_index (response_ring q)) (kernel_index (response_ring q)) (entries (response_ring q))"

definition request_ok :: "u32 \<Rightarrow> Request ring \<Rightarrow> bool" where
  "request_ok msk q \<longleftrightarrow> (\<exists>k. msk = mask k \<and> ring_ok k (kernel_index q) (user_index q) (entries q))"

definition response_ok :: "u32 \<Rightarrow> Response ring \<Rightarrow> bool" where
  "response_ok msk q \<longleftrightarrow> (\<exists>k. msk = mask k \<and> ring_ok k (user_index q) (kernel_index q) (entries q))"

definition queue_ok :: "io_queue \<Rightarrow> bool" where
  "queue_ok q \<longleftrightarrow> request_ok (requests_mask q) (request_ring q)
     \<and> response_ok (responses_mask q) (response_ring q)"

definition request_cap :: "io_queue \<Rightarrow> nat" where
  "request_cap q = length (entries (request_ring q))"

definition response_cap :: "io_queue \<Rightarrow> nat" where
  "response_cap q = length (entries (response_ring q))"

interpretation req: bounded_fifo queue_ok request_cap requests enqueue_request dequeue_request
proof
  fix q :: io_queue and e :: Request
  let ?r = "request_ring q"
  assume "queue_ok q"
  then obtain k where k: "requests_mask q = mask k"
    "ring_ok k (kernel_index ?r) (user_index ?r) (entries ?r)" "response_ok (responses_mask q) (response_ring q)"
    by (auto simp: queue_ok_def request_ok_def)
  then have cap: "request_cap q = 2 ^ k" and le: "length (requests q) \<le> 2 ^ k"
    by (simp_all add: request_cap_def requests_def ring_ok_def)
  show "length (requests q) \<le> request_cap q" using cap le by simp
  show "enqueue_request q e = Inl Full" if "length (requests q) = request_cap q"
    using that k enqueue_full [OF k(2)] cap
    by (simp add: enqueue_request_def request_enqueue_def requests_def)
  show "\<exists>q'. enqueue_request q e = Inr q' \<and> queue_ok q' \<and> request_cap q' = request_cap q
      \<and> requests q' = requests q @ [e]" if "length (requests q) \<noteq> request_cap q"
    using that k cap le enqueue_ok [OF k(2), of e]
    by (auto simp: enqueue_request_def request_enqueue_def requests_def request_cap_def queue_ok_def request_ok_def)
  show "dequeue_request q = Inl Empty" if "requests q = []"
    using that ring_empty_iff [of "kernel_index ?r" "user_index ?r"]
    by (simp add: dequeue_request_def request_dequeue_def dequeue_def requests_def contents_def)
  show "\<exists>q'. dequeue_request q = Inr (e, q') \<and> queue_ok q' \<and> request_cap q' = request_cap q \<and> requests q' = es"
    if "requests q = e # es" for es
  proof -
    have "kernel_index ?r \<noteq> user_index ?r" using that by (auto simp: requests_def contents_def)
    from contents_nonempty [OF k(2) this] this that k show ?thesis
      by (auto simp: dequeue_request_def request_dequeue_def dequeue_def requests_def request_cap_def
          queue_ok_def request_ok_def)
  qed
qed

interpretation resp: bounded_fifo queue_ok response_cap responses enqueue_response dequeue_response
proof
  fix q :: io_queue and e :: Response
  let ?r = "response_ring q"
  assume "queue_ok q"
  then obtain k where k: "responses_mask q = mask k"
    "ring_ok k (user_index ?r) (kernel_index ?r) (entries ?r)" "request_ok (requests_mask q) (request_ring q)"
    by (auto simp: queue_ok_def response_ok_def)
  then have cap: "response_cap q = 2 ^ k" and le: "length (responses q) \<le> 2 ^ k"
    by (simp_all add: response_cap_def responses_def ring_ok_def)
  show "length (responses q) \<le> response_cap q" using cap le by simp
  show "enqueue_response q e = Inl Full" if "length (responses q) = response_cap q"
    using that k enqueue_full [OF k(2)] cap
    by (simp add: enqueue_response_def response_enqueue_def responses_def)
  show "\<exists>q'. enqueue_response q e = Inr q' \<and> queue_ok q' \<and> response_cap q' = response_cap q
      \<and> responses q' = responses q @ [e]" if "length (responses q) \<noteq> response_cap q"
    using that k cap le enqueue_ok [OF k(2), of e]
    by (auto simp: enqueue_response_def response_enqueue_def responses_def response_cap_def queue_ok_def response_ok_def)
  show "dequeue_response q = Inl Empty" if "responses q = []"
    using that ring_empty_iff [of "user_index ?r" "kernel_index ?r"]
    by (simp add: dequeue_response_def response_dequeue_def dequeue_def responses_def contents_def)
  show "\<exists>q'. dequeue_response q = Inr (e, q') \<and> queue_ok q' \<and> response_cap q' = response_cap q \<and> responses q' = es"
    if "responses q = e # es" for es
  proof -
    have "user_index ?r \<noteq> kernel_index ?r" using that by (auto simp: responses_def contents_def)
    from contents_nonempty [OF k(2) this] this that k show ?thesis
      by (auto simp: dequeue_response_def response_dequeue_def dequeue_def responses_def response_cap_def
          queue_ok_def response_ok_def)
  qed
qed

lemma other_ring:
  "enqueue_request q e = Inr q' \<Longrightarrow> responses q' = responses q \<and> response_cap q' = response_cap q"
  "dequeue_request q = Inr (e, q') \<Longrightarrow> responses q' = responses q \<and> response_cap q' = response_cap q"
  "enqueue_response q f = Inr q' \<Longrightarrow> requests q' = requests q \<and> request_cap q' = request_cap q"
  "dequeue_response q = Inr (f, q') \<Longrightarrow> requests q' = requests q \<and> request_cap q' = request_cap q"
  by (auto simp: enqueue_request_def dequeue_request_def enqueue_response_def dequeue_response_def
      requests_def responses_def request_cap_def response_cap_def split: sum.splits)

lemma responses_available_length: "unat (responses_available q) = length (responses q)"
  by (simp add: responses_available_def responses_def)

text \<open>
  C15. The shared queue implements two bounded first-in first-out queues: a request or response is
  refused exactly when its ring is full, otherwise it goes to the end; taking one yields the oldest
  and fails exactly on an empty ring; neither ring disturbs the other, and all of this holds when the
  32-bit indices wrap around.
\<close>

theorem io_queue_refines_fifos:
  assumes "queue_ok q"
  shows "(case enqueue_request q e of
        Inl Full \<Rightarrow> length (requests q) = request_cap q
      | Inr q' \<Rightarrow> queue_ok q' \<and> requests q' = requests q @ [e] \<and> responses q' = responses q
          \<and> length (requests q) < request_cap q)
    \<and> (case dequeue_request q of
        Inl Empty \<Rightarrow> requests q = []
      | Inr (e', q') \<Rightarrow> queue_ok q' \<and> requests q = e' # requests q' \<and> responses q' = responses q)
    \<and> (case enqueue_response q f of
        Inl Full \<Rightarrow> length (responses q) = response_cap q
      | Inr q' \<Rightarrow> queue_ok q' \<and> responses q' = responses q @ [f] \<and> requests q' = requests q
          \<and> length (responses q) < response_cap q)
    \<and> (case dequeue_response q of
        Inl Empty \<Rightarrow> responses q = []
      | Inr (f', q') \<Rightarrow> queue_ok q' \<and> responses q = f' # responses q' \<and> requests q' = requests q)"
  using req.enq_Inl [OF assms, of e] req.enq_Inr [OF assms, of e]
    req.deq_Inl [OF assms] req.deq_Inr [OF assms]
    resp.enq_Inl [OF assms, of f] resp.enq_Inr [OF assms, of f]
    resp.deq_Inl [OF assms] resp.deq_Inr [OF assms] other_ring
  by (fastforce split: sum.splits prod.splits Full.splits Empty.splits)

definition queue_example :: io_queue where
  "queue_example = \<lparr>requests_mask = 1, responses_mask = 1,
     request_ring = \<lparr>user_index = 0, kernel_index = -1, entries = [request_default, request_default]\<rparr>,
     response_ring = \<lparr>user_index = 0, kernel_index = 0, entries = replicate 2 \<lparr>rs_value = 0, rs_user_data = 0\<rparr>\<rparr>\<rparr>"

lemma queue_example_ok: "queue_ok queue_example"
proof -
  have "(1 :: u32) = mask 1" by (simp add: mask_eq_exp_minus_1)
  then show ?thesis
    unfolding queue_ok_def request_ok_def response_ok_def queue_example_def
    by (simp add: ring_ok_def) (intro exI [of _ 1] conjI, simp_all)
qed

theorem io_queue_refines_fifos_witness:
  "\<exists>q'. enqueue_request queue_example request_default = Inr q' \<and> length (requests q') = 2"
proof -
  have len: "length (requests queue_example) = 1" and cap: "request_cap queue_example = 2"
    by (simp_all add: requests_def request_cap_def queue_example_def)
  then show ?thesis
    using conjunct1 [OF io_queue_refines_fifos [OF queue_example_ok, of request_default undefined]]
    by (cases "enqueue_request queue_example request_default") (auto split: Full.splits)
qed

section \<open>One producer and one consumer\<close>

text \<open>
  The two sides of a ring run concurrently. A side loads both indices, then touches the entry, then
  stores its own index; the other side may run between any two of these. The state has, besides the
  ring, where each side stands and, for the statement only, what was put in and what was taken out so
  far.
\<close>

datatype 'e producer = PIdle | PLoaded u32 u32 'e | PWritten u32 'e
datatype 'e consumer = CIdle | CLoaded u32 u32 | CRead u32 'e

record 'e spsc =
  sp_read :: u32
  sp_write :: u32
  sp_entries :: "'e list"
  sp_prod :: "'e producer"
  sp_cons :: "'e consumer"
  sp_sent :: "'e list"
  sp_received :: "'e list"

inductive spsc_step :: "u32 \<Rightarrow> 'e spsc \<Rightarrow> 'e spsc \<Rightarrow> bool" for msk where
  p_load: "sp_prod s = PIdle \<Longrightarrow>
    spsc_step msk s (s\<lparr>sp_prod := PLoaded (sp_read s) (sp_write s) e\<rparr>)"
| p_full: "sp_prod s = PLoaded r w e \<Longrightarrow> r + (msk + 1) = w \<Longrightarrow>
    spsc_step msk s (s\<lparr>sp_prod := PIdle\<rparr>)"
| p_write: "sp_prod s = PLoaded r w e \<Longrightarrow> r + (msk + 1) \<noteq> w \<Longrightarrow>
    spsc_step msk s (s\<lparr>sp_prod := PWritten w e,
      sp_entries := (sp_entries s)[unat (w AND msk) := e]\<rparr>)"
| p_store: "sp_prod s = PWritten w e \<Longrightarrow>
    spsc_step msk s (s\<lparr>sp_prod := PIdle, sp_write := w + 1, sp_sent := sp_sent s @ [e]\<rparr>)"
| c_load: "sp_cons s = CIdle \<Longrightarrow>
    spsc_step msk s (s\<lparr>sp_cons := CLoaded (sp_read s) (sp_write s)\<rparr>)"
| c_empty: "sp_cons s = CLoaded r w \<Longrightarrow> r = w \<Longrightarrow>
    spsc_step msk s (s\<lparr>sp_cons := CIdle\<rparr>)"
| c_read: "sp_cons s = CLoaded r w \<Longrightarrow> r \<noteq> w \<Longrightarrow>
    spsc_step msk s (s\<lparr>sp_cons := CRead r (sp_entries s ! unat (r AND msk))\<rparr>)"
| c_store: "sp_cons s = CRead r e \<Longrightarrow>
    spsc_step msk s (s\<lparr>sp_cons := CIdle, sp_read := r + 1, sp_received := sp_received s @ [e]\<rparr>)"

fun prod_ok :: "nat \<Rightarrow> u32 \<Rightarrow> u32 \<Rightarrow> 'e list \<Rightarrow> 'e producer \<Rightarrow> bool" where
  "prod_ok k r w es PIdle \<longleftrightarrow> True"
| "prod_ok k r w es (PLoaded r0 w0 e) \<longleftrightarrow> w0 = w \<and> unat (w - r) \<le> unat (w - r0) \<and> unat (w - r0) \<le> 2 ^ k"
| "prod_ok k r w es (PWritten w0 e) \<longleftrightarrow> w0 = w \<and> unat (w - r) < 2 ^ k \<and> es ! unat (w AND mask k) = e"

fun cons_ok :: "nat \<Rightarrow> u32 \<Rightarrow> u32 \<Rightarrow> 'e list \<Rightarrow> 'e consumer \<Rightarrow> bool" where
  "cons_ok k r w es CIdle \<longleftrightarrow> True"
| "cons_ok k r w es (CLoaded r0 w0) \<longleftrightarrow> r0 = r \<and> unat (w0 - r) \<le> unat (w - r)"
| "cons_ok k r w es (CRead r0 e) \<longleftrightarrow> r0 = r \<and> r \<noteq> w \<and> es ! unat (r AND mask k) = e"

definition spsc_inv :: "nat \<Rightarrow> 'e spsc \<Rightarrow> bool" where
  "spsc_inv k s \<longleftrightarrow> ring_ok k (sp_read s) (sp_write s) (sp_entries s)
     \<and> prod_ok k (sp_read s) (sp_write s) (sp_entries s) (sp_prod s)
     \<and> cons_ok k (sp_read s) (sp_write s) (sp_entries s) (sp_cons s)
     \<and> sp_sent s = sp_received s @ contents (sp_read s) (sp_write s) (sp_entries s)"

text \<open>What one side does to its index or to a free slot does not invalidate the other side's view.\<close>

lemma cons_ok_store:
  assumes "cons_ok k r w es c" and "unat (w - r) < 2 ^ k" and "k < 32"
  shows "cons_ok k r (w + 1) es c"
proof -
  have "unat (w + 1 - r) = Suc (unat (w - r))"
    using assms(2) exp_le_31 [OF assms(3)] by (intro unat_minus_succ) simp
  then show ?thesis using assms(1) by (cases c) (auto simp: ring_empty_iff)
qed

lemma cons_ok_write:
  assumes "cons_ok k r w es c" and "ring_ok k r w es" and "unat (w - r) < 2 ^ k"
  shows "cons_ok k r w (es[unat (w AND mask k) := e]) c"
proof -
  let ?es = "es[unat (w AND mask k) := e]"
  have "ring_ok k r w ?es" using assms(2) by (simp add: ring_ok_def)
  then have "?es ! unat (r AND mask k) = es ! unat (r AND mask k)" if "r \<noteq> w"
    using contents_nonempty(1) [of k r w ?es] contents_nonempty(1) [OF assms(2) that]
      contents_write [OF assms(2,3), of e] that by simp
  then show ?thesis using assms(1) by (cases c) auto
qed

lemma prod_ok_read:
  assumes "prod_ok k r w es p" and "r \<noteq> w" shows "prod_ok k (r + 1) w es p"
proof -
  have "w - (r + 1) = (w - r) - 1" by simp
  moreover have "w - r \<noteq> 0" using assms(2) by simp
  ultimately have "unat (w - (r + 1)) \<le> unat (w - r)"
    using unat_minus_one [of "w - r"] by (simp only:) simp
  then show ?thesis using assms(1) by (cases p) auto
qed

lemma spsc_step_inv:
  assumes "spsc_step (mask k) s s'" and "spsc_inv k s"
  shows "spsc_inv k s'"
  using assms
proof (induction rule: spsc_step.induct)
  case (p_load s e)
  then show ?case by (simp add: spsc_inv_def ring_ok_def)
next
  case (p_full s r w e)
  then show ?case by (simp add: spsc_inv_def)
next
  case (p_write s r w e)
  let ?r = "sp_read s" and ?w = "sp_write s" and ?es = "sp_entries s"
  have ok: "ring_ok k ?r ?w ?es" and w: "w = ?w" and le: "unat (w - ?r) \<le> unat (w - r)" "unat (w - r) \<le> 2 ^ k"
    using p_write by (auto simp: spsc_inv_def)
  have k: "k < 32" using ok by (simp add: ring_ok_def)
  then have lt: "unat (?w - ?r) < 2 ^ k"
    using p_write.hyps(2) ring_full_iff [OF k, of r w] le w by simp
  have "unat (?w AND mask k) < length ?es"
    using ok unat_and_mask [of k ?w] by (simp add: ring_ok_def)
  then show ?case
    using p_write.prems w ok lt contents_write [OF ok lt, of e] cons_ok_write [OF _ ok lt, of _ e]
    by (simp add: spsc_inv_def ring_ok_def)
next
  case (p_store s w e)
  let ?r = "sp_read s" and ?w = "sp_write s" and ?es = "sp_entries s"
  have ok: "ring_ok k ?r ?w ?es" and w: "w = ?w" and lt: "unat (?w - ?r) < 2 ^ k"
    and e: "?es ! unat (?w AND mask k) = e"
    using p_store by (auto simp: spsc_inv_def)
  have k: "k < 32" using ok by (simp add: ring_ok_def)
  have "?es[unat (?w AND mask k) := e] = ?es" using e list_update_id by metis
  then show ?case
    using p_store.prems w enqueue_ok(2,3) [OF ok lt, of e] cons_ok_store [OF _ lt k, of ?es "sp_cons s"]
    by (simp add: spsc_inv_def)
next
  case (c_load s)
  then show ?case by (simp add: spsc_inv_def)
next
  case (c_empty s r w)
  then show ?case by (simp add: spsc_inv_def)
next
  case (c_read s r w)
  then have "r = sp_read s" "unat (w - r) \<le> unat (sp_write s - r)" by (simp_all add: spsc_inv_def)
  then have "sp_read s \<noteq> sp_write s" using c_read.hyps(2) ring_empty_iff [of r w] by auto
  with c_read show ?case by (simp add: spsc_inv_def)
next
  case (c_store s r e)
  then have ok: "ring_ok k (sp_read s) (sp_write s) (sp_entries s)" and ne: "sp_read s \<noteq> sp_write s"
    by (auto simp: spsc_inv_def)
  with c_store show ?case
    using contents_nonempty [OF ok ne] prod_ok_read [OF _ ne] by (auto simp: spsc_inv_def)
qed

text \<open>
  C16. One producer and one consumer that use a ring concurrently, interleaved at any point: the
  elements taken out followed by those still in the ring are at all times exactly the elements put
  in, in their order, and the ring never holds more than its capacity.
\<close>

theorem spsc_no_loss:
  assumes "(spsc_step (mask k))\<^sup>*\<^sup>* s s'" and "k < 32" and "length (sp_entries s) = 2 ^ k"
    and "sp_read s = sp_write s" and "sp_prod s = PIdle" and "sp_cons s = CIdle"
    and "sp_sent s = []" and "sp_received s = []"
  shows "sp_sent s' = sp_received s' @ contents (sp_read s') (sp_write s') (sp_entries s')
    \<and> length (sp_sent s') - length (sp_received s') \<le> 2 ^ k"
proof -
  have "spsc_inv k s" using assms(2-) by (simp add: spsc_inv_def ring_ok_def contents_def)
  with assms(1) have "spsc_inv k s'"
    by (induction rule: rtranclp_induct) (auto intro: spsc_step_inv)
  then show ?thesis by (simp add: spsc_inv_def ring_ok_def)
qed

theorem spsc_no_loss_witness:
  "\<exists>s'. (spsc_step (mask 1))\<^sup>*\<^sup>*
      \<lparr>sp_read = -1, sp_write = -1, sp_entries = [0 :: nat, 0], sp_prod = PIdle, sp_cons = CIdle,
       sp_sent = [], sp_received = []\<rparr> s'
    \<and> sp_sent s' = [7] \<and> [7] = sp_received s' @ contents (sp_read s') (sp_write s') (sp_entries s')"
proof -
  let ?s = "\<lparr>sp_read = -1, sp_write = -1, sp_entries = [0 :: nat, 0], sp_prod = PIdle, sp_cons = CIdle,
       sp_sent = [], sp_received = []\<rparr>"
  let ?s1 = "?s\<lparr>sp_prod := PLoaded (-1) (-1) 7\<rparr>"
  let ?s2 = "?s1\<lparr>sp_prod := PWritten (-1) 7, sp_entries := (sp_entries ?s1)[unat ((-1 :: u32) AND mask 1) := 7]\<rparr>"
  let ?s3 = "?s2\<lparr>sp_prod := PIdle, sp_write := -1 + 1, sp_sent := sp_sent ?s2 @ [7]\<rparr>"
  have "spsc_step (mask 1) ?s ?s1" using p_load [of ?s "mask 1" 7] by simp
  moreover have "spsc_step (mask 1) ?s1 ?s2"
  proof (rule p_write)
    have "(2 :: u32) \<noteq> 0" by simp
    then show "(-1 :: u32) + (mask 1 + 1) \<noteq> -1" unfolding mask_plus_one by (simp del: add_uminus_conv_diff)
  qed simp
  moreover have "spsc_step (mask 1) ?s2 ?s3" by (rule p_store) simp
  ultimately have run: "(spsc_step (mask 1))\<^sup>*\<^sup>* ?s ?s3" by (meson converse_rtranclp_into_rtranclp rtranclp.rtrancl_refl)
  have "sp_sent ?s3 = sp_received ?s3 @ contents (sp_read ?s3) (sp_write ?s3) (sp_entries ?s3)"
    using spsc_no_loss [OF run] by simp
  moreover have "sp_sent ?s3 = [7]" by simp
  ultimately show ?thesis using run by metis
qed

end
