(* ===== verification/Process_Io.thy ===== *)
theory Process_Io
  imports Process Io_Ring "HOL-Library.Multiset"
begin

text \<open>
  The kernel side of the I/O queues, \<open>kernel/src/scheduler/process/io.rs\<close>. The methods of the trait
  \<open>Object\<close> are dispatched dynamically, so they are a record of functions on the state of the objects
  that the operations take as an argument. Each of them yields a ticket; the tickets of the three
  result types are part of that state. The memory of the process is a function from addresses to bytes.
\<close>

section \<open>Objects and pending tickets\<close>

record 'o world =
  w_obj :: "'o tickets"
  w_u64 :: "u64 tickets"
  w_data :: "u8 list tickets"

record ('o, 'w) vtable =
  vt_open :: "'o \<Rightarrow> u8 list \<Rightarrow> 'w \<Rightarrow> (ticket \<times> 'w) panics"
  vt_create :: "'o \<Rightarrow> u8 list \<Rightarrow> 'w \<Rightarrow> (ticket \<times> 'w) panics"
  vt_read :: "'o \<Rightarrow> nat \<Rightarrow> 'w \<Rightarrow> (ticket \<times> 'w) panics"
  vt_write :: "'o \<Rightarrow> u8 list \<Rightarrow> 'w \<Rightarrow> (ticket \<times> 'w) panics"
  vt_seek :: "'o \<Rightarrow> SeekFrom \<Rightarrow> 'w \<Rightarrow> (ticket \<times> 'w) panics"
  vt_share :: "'o \<Rightarrow> 'o \<Rightarrow> 'w \<Rightarrow> (ticket \<times> 'w) panics"
  vt_destroy :: "'o \<Rightarrow> u8 list \<Rightarrow> 'w \<Rightarrow> (ticket \<times> 'w) panics"
  vt_get_meta :: "'o \<Rightarrow> u8 list \<Rightarrow> 'w \<Rightarrow> (ticket \<times> 'w) panics"
  vt_set_meta :: "'o \<Rightarrow> u8 list \<Rightarrow> u8 list \<Rightarrow> 'w \<Rightarrow> (ticket \<times> 'w) panics"

text \<open>The methods of an object that implements none of them.\<close>

definition not_implemented :: "'a tickets \<Rightarrow> ticket \<times> 'a tickets" where
  "not_implemented ts = ticket_new_complete (Inl InvalidOperation) ts"

definition default_object :: "('o, 'o world) vtable" where
  "default_object =
     (let ob = (\<lambda>w. let (t, ts) = not_implemented (w_obj w) in Some (t, w\<lparr>w_obj := ts\<rparr>));
          u = (\<lambda>w. let (t, ts) = not_implemented (w_u64 w) in Some (t, w\<lparr>w_u64 := ts\<rparr>));
          d = (\<lambda>w. let (t, ts) = not_implemented (w_data w) in Some (t, w\<lparr>w_data := ts\<rparr>))
      in \<lparr>vt_open = (\<lambda>_ _. ob), vt_create = (\<lambda>_ _. ob), vt_read = (\<lambda>_ _. d), vt_write = (\<lambda>_ _. u),
          vt_seek = (\<lambda>_ _. u), vt_share = (\<lambda>_ _. u), vt_destroy = (\<lambda>_ _. u),
          vt_get_meta = (\<lambda>_ _. d), vt_set_meta = (\<lambda>_ _ _. u)\<rparr>)"

datatype AnyTicket = TObject ticket | TU64 ticket | TData ticket

record PendingTicket =
  pt_user_data :: u64
  pt_data_ptr :: u64
  pt_data_len :: nat
  pt_ticket :: AnyTicket

record ('o, 'x) pio =
  k_queue :: io_queue
  k_pending :: "PendingTicket list"
  k_objects :: "('o, u8) arena"
  k_world :: "('o, 'x) world_scheme"
  k_mem :: "u64 \<Rightarrow> u8"

definition user_slice :: "(u64 \<Rightarrow> u8) \<Rightarrow> u64 \<Rightarrow> nat \<Rightarrow> u8 list" where
  "user_slice mem ptr n = map (\<lambda>i. mem (ptr + of_nat i)) [0..<n]"

definition copy_to :: "u64 \<Rightarrow> u8 list \<Rightarrow> (u64 \<Rightarrow> u8) \<Rightarrow> u64 \<Rightarrow> u8" where
  "copy_to ptr bs mem = (\<lambda>a. if unat (a - ptr) < length bs then bs ! unat (a - ptr) else mem a)"

text \<open>\<open>copy_data_to\<close> answers how much was copied.\<close>

definition copy_data_to :: "u64 \<Rightarrow> nat \<Rightarrow> u8 list \<Rightarrow> (u64 \<Rightarrow> u8) \<Rightarrow> i64 \<times> (u64 \<Rightarrow> u8)" where
  "copy_data_to ptr n from mem =
     (let l = min (length from) n in (of_nat l, copy_to ptr (take l from) mem))"

text \<open>A response that does not fit is dropped.\<close>

definition push_resp :: "u64 \<Rightarrow> i64 \<Rightarrow> ('o, 'x) pio \<Rightarrow> ('o, 'x) pio" where
  "push_resp ud value s =
     (case enqueue_response (k_queue s) \<lparr>rs_value = value, rs_user_data = ud\<rparr> of
        Inl _ \<Rightarrow> s | Inr q \<Rightarrow> s\<lparr>k_queue := q\<rparr>)"

definition push_pending :: "u64 \<Rightarrow> u64 \<Rightarrow> nat \<Rightarrow> AnyTicket \<Rightarrow> ('o, 'x) pio \<Rightarrow> ('o, 'x) pio" where
  "push_pending ud ptr n t s = s\<lparr>k_pending := k_pending s @
     [\<lparr>pt_user_data = ud, pt_data_ptr = ptr, pt_data_len = n, pt_ticket = t\<rparr>]\<rparr>"

definition err_value :: "Error \<Rightarrow> i64" where
  "err_value e = word_of_int (error_code e)"

text \<open>A new object goes to the table; the response is its handle.\<close>

definition push_object :: "u64 \<Rightarrow> 'o \<Rightarrow> ('o, 'x) pio \<Rightarrow> ('o, 'x) pio panics" where
  "push_object ud obj s =
     do { (h, a) \<leftarrow> Arena.insert increment_int obj (k_objects s);
          x \<leftarrow> erase_handle h;
          Some (push_resp ud (ucast x) (s\<lparr>k_objects := a\<rparr>)) }"

definition push_data :: "u64 \<Rightarrow> u64 \<Rightarrow> nat \<Rightarrow> u8 list \<Rightarrow> ('o, 'x) pio \<Rightarrow> ('o, 'x) pio" where
  "push_data ud ptr n bs s =
     (let (l, mem) = copy_data_to ptr n bs (k_mem s) in push_resp ud l (s\<lparr>k_mem := mem\<rparr>))"

text \<open>
  Polling a fresh ticket once: the result is the response, or the ticket stays pending. \<open>thr\<close> is the
  polling thread.
\<close>

definition settle_object :: "nat \<Rightarrow> u64 \<Rightarrow> ticket \<Rightarrow> ('o, 'x) pio \<Rightarrow> ('o, 'x) pio panics" where
  "settle_object thr ud t s =
     (let (r, ts) = ticket_poll t thr (w_obj (k_world s)); s = s\<lparr>k_world := (k_world s)\<lparr>w_obj := ts\<rparr>\<rparr>
      in case r of
           None \<Rightarrow> Some (push_pending ud 0 0 (TObject t) s)
         | Some (Inr obj) \<Rightarrow> push_object ud obj s
         | Some (Inl e) \<Rightarrow> Some (push_resp ud (err_value e) s))"

definition settle_data :: "nat \<Rightarrow> u64 \<Rightarrow> u64 \<Rightarrow> nat \<Rightarrow> ticket \<Rightarrow> ('o, 'x) pio \<Rightarrow> ('o, 'x) pio" where
  "settle_data thr ud ptr n t s =
     (let (r, ts) = ticket_poll t thr (w_data (k_world s)); s = s\<lparr>k_world := (k_world s)\<lparr>w_data := ts\<rparr>\<rparr>
      in case r of
           None \<Rightarrow> push_pending ud ptr n (TData t) s
         | Some (Inr bs) \<Rightarrow> push_data ud ptr n bs s
         | Some (Inl e) \<Rightarrow> push_resp ud (err_value e) s)"

text \<open>\<open>checked\<close>: the answer to a write must fit an \<open>i64\<close>; other numbers are cast.\<close>

definition settle_u64 :: "bool \<Rightarrow> nat \<Rightarrow> u64 \<Rightarrow> ticket \<Rightarrow> ('o, 'x) pio \<Rightarrow> ('o, 'x) pio panics" where
  "settle_u64 checked thr ud t s =
     (let (r, ts) = ticket_poll t thr (w_u64 (k_world s)); s = s\<lparr>k_world := (k_world s)\<lparr>w_u64 := ts\<rparr>\<rparr>
      in case r of
           None \<Rightarrow> Some (push_pending ud 0 0 (TU64 t) s)
         | Some (Inr n) \<Rightarrow> do { assert (checked \<longrightarrow> unat n < 2 ^ 63); Some (push_resp ud n s) }
         | Some (Inl e) \<Rightarrow> Some (push_resp ud (err_value e) s))"

section \<open>Processing requests\<close>

definition handle_request ::
  "('o, ('o, 'x) world_scheme) vtable \<Rightarrow> nat \<Rightarrow> Request \<Rightarrow> ('o, 'x) pio \<Rightarrow> ('o, 'x) pio panics" where
  "handle_request vt thr e s =
     (let ud = rq_user_data e; ty = rq_ty e; (a, b) = rq_arguments_64 e;
          slice = user_slice (k_mem s) a (unat b);
          into = (\<lambda>w. s\<lparr>k_world := w\<rparr>)
      in case get (k_objects s) (unerase_handle (rq_handle e)) of
           None \<Rightarrow> Some (push_resp ud (err_value InvalidObject) s)
         | Some obj \<Rightarrow>
             if ty = REQ_READ then
               do { (t, w) \<leftarrow> vt_read vt obj (unat b) (k_world s);
                    Some (settle_data thr ud a (unat b) t (into w)) }
             else if ty = REQ_WRITE then
               do { (t, w) \<leftarrow> vt_write vt obj slice (k_world s); settle_u64 True thr ud t (into w) }
             else if ty = REQ_OPEN then
               do { (t, w) \<leftarrow> vt_open vt obj slice (k_world s); settle_object thr ud t (into w) }
             else if ty = REQ_CREATE then
               do { (t, w) \<leftarrow> vt_create vt obj slice (k_world s); settle_object thr ud t (into w) }
             else if ty = REQ_SEEK then
               (case seek_try_from_raw (fst (rq_arguments_8 e)) a of
                  Inl _ \<Rightarrow> Some (push_resp ud (-1) s)
                | Inr from \<Rightarrow>
                    do { (t, w) \<leftarrow> vt_seek vt obj from (k_world s); settle_u64 False thr ud t (into w) })
             else if ty = REQ_CLOSE then
               do { (_, objs) \<leftarrow> Arena.remove (unerase_handle (rq_handle e)) (k_objects s);
                    Some (s\<lparr>k_objects := objs\<rparr>) }
             else if ty = REQ_SHARE then
               (case get (k_objects s) (unerase_handle (ucast a)) of
                  Some shr \<Rightarrow>
                    do { (t, w) \<leftarrow> vt_share vt obj shr (k_world s); settle_u64 False thr ud t (into w) }
                | None \<Rightarrow> Some (push_resp ud (err_value InvalidObject) s))
             else if ty = REQ_GET_META then
               (let (prop_len, val_len, _) = rq_arguments_8 e in
                do { (t, w) \<leftarrow> vt_get_meta vt obj (user_slice (k_mem s) a (unat prop_len)) (k_world s);
                     Some (settle_data thr ud b (unat val_len) t (into w)) })
             else if ty = REQ_SET_META then None
             else if ty = REQ_DESTROY then None
             else Some (push_resp ud (err_value InvalidOperation) s))"

partial_function (option) process_requests ::
  "('o, ('o, 'x) world_scheme) vtable \<Rightarrow> nat \<Rightarrow> ('o, 'x) pio \<Rightarrow> ('o, 'x) pio panics" where
  "process_requests vt thr s =
     (case dequeue_request (k_queue s) of
        Inl _ \<Rightarrow> Some s
      | Inr (e, q) \<Rightarrow>
          do { s \<leftarrow> handle_request vt thr e (s\<lparr>k_queue := q\<rparr>); process_requests vt thr s })"

section \<open>Polling tickets\<close>

definition swap_remove :: "nat \<Rightarrow> 'a list \<Rightarrow> ('a \<times> 'a list) panics" where
  "swap_remove i xs =
     (if i < length xs
      then Some (xs ! i, if i = length xs - 1 then butlast xs else (butlast xs)[i := last xs])
      else None)"

datatype 'o AnyTicketValue = VObject 'o | VU64 u64 | VData "u8 list"

fun any_poll :: "nat \<Rightarrow> AnyTicket \<Rightarrow> ('o, 'x) world_scheme \<Rightarrow> (Error + 'o AnyTicketValue) option \<times> ('o, 'x) world_scheme" where
  "any_poll thr (TObject t) w =
     (let (r, ts) = ticket_poll t thr (w_obj w) in (map_option (map_sum id VObject) r, w\<lparr>w_obj := ts\<rparr>))"
| "any_poll thr (TU64 t) w =
     (let (r, ts) = ticket_poll t thr (w_u64 w) in (map_option (map_sum id VU64) r, w\<lparr>w_u64 := ts\<rparr>))"
| "any_poll thr (TData t) w =
     (let (r, ts) = ticket_poll t thr (w_data w) in (map_option (map_sum id VData) r, w\<lparr>w_data := ts\<rparr>))"

definition poll_one :: "nat \<Rightarrow> nat \<Rightarrow> nat \<times> ('o, 'x) pio \<Rightarrow> (nat \<times> ('o, 'x) pio) panics" where
  "poll_one thr i = (\<lambda>(polls, s).
     do { p \<leftarrow> nth_opt (k_pending s) i;
          let (r, w) = any_poll thr (pt_ticket p) (k_world s);
          let s = s\<lparr>k_world := w\<rparr>;
          case r of
            None \<Rightarrow> Some (polls, s)
          | Some r \<Rightarrow>
              do { (tk, pend) \<leftarrow> swap_remove i (k_pending s);
                   let s = s\<lparr>k_pending := pend\<rparr>;
                   s \<leftarrow> (case r of
                      Inr (VObject obj) \<Rightarrow> push_object (pt_user_data tk) obj s
                    | Inr (VU64 n) \<Rightarrow> Some (push_resp (pt_user_data tk) n s)
                    | Inr (VData bs) \<Rightarrow> Some (push_data (pt_user_data tk) (pt_data_ptr tk) (pt_data_len tk) bs s)
                    | Inl e \<Rightarrow> Some (push_resp (pt_user_data tk) (err_value e) s));
                   Some (polls + 1, s) } })"

fun poll_down :: "nat \<Rightarrow> nat \<Rightarrow> nat \<times> ('o, 'x) pio \<Rightarrow> (nat \<times> ('o, 'x) pio) panics" where
  "poll_down thr 0 st = Some st"
| "poll_down thr (Suc i) st = do { st \<leftarrow> poll_one thr i st; poll_down thr i st }"

definition poll_tickets :: "nat \<Rightarrow> ('o, 'x) pio \<Rightarrow> (nat \<times> ('o, 'x) pio) panics" where
  "poll_tickets thr s = poll_down thr (length (k_pending s)) (0, s)"

text \<open>
  The queues of a process. An operation names its queue by the address it is mapped at and works on
  that queue and on the objects.
\<close>

record Queue =
  q_user_ptr :: u64
  q_io :: io_queue
  q_pending :: "PendingTicket list"

record ('o, 'x) io_process =
  io_queues :: "Queue list"
  io_objects :: "('o, u8) arena"
  io_world :: "('o, 'x) world_scheme"
  io_mem :: "u64 \<Rightarrow> u8"

datatype ProcessQueueError = InvalidAddress

definition find_queue :: "u64 \<Rightarrow> Queue list \<Rightarrow> nat option" where
  "find_queue base qs = find (\<lambda>i. q_user_ptr (qs ! i) = base) [0..<length qs]"

definition focus :: "nat \<Rightarrow> ('o, 'x) io_process \<Rightarrow> ('o, 'x) pio" where
  "focus i st = \<lparr>k_queue = q_io (io_queues st ! i), k_pending = q_pending (io_queues st ! i),
     k_objects = io_objects st, k_world = io_world st, k_mem = io_mem st\<rparr>"

definition unfocus :: "nat \<Rightarrow> ('o, 'x) pio \<Rightarrow> ('o, 'x) io_process \<Rightarrow> ('o, 'x) io_process" where
  "unfocus i s st = \<lparr>io_queues = (io_queues st)[i := (io_queues st ! i)\<lparr>q_io := k_queue s, q_pending := k_pending s\<rparr>],
     io_objects = k_objects s, io_world = k_world s, io_mem = k_mem s\<rparr>"

definition process_io_queue ::
  "('o, ('o, 'x) world_scheme) vtable \<Rightarrow> nat \<Rightarrow> u64 \<Rightarrow> ('o, 'x) io_process
    \<Rightarrow> ((ProcessQueueError + unit) \<times> ('o, 'x) io_process) panics" where
  "process_io_queue vt thr base st =
     (case find_queue base (io_queues st) of
        None \<Rightarrow> Some (Inl InvalidAddress, st)
      | Some i \<Rightarrow>
          do { (_, s) \<leftarrow> poll_tickets thr (focus i st);
               s \<leftarrow> process_requests vt thr s;
               Some (Inr (), unfocus i s st) })"

text \<open>
  \<open>wait_io_queue\<close> makes two rounds with one sleep between them. A round says whether the loop ends;
  \<open>sleep\<close> is what the rest of the system does to the process in the meantime.
\<close>

definition wait_round ::
  "nat \<Rightarrow> u64 \<Rightarrow> ('o, 'x) io_process \<Rightarrow> ((ProcessQueueError + bool) \<times> ('o, 'x) io_process) panics" where
  "wait_round thr base st =
     (case find_queue base (io_queues st) of
        None \<Rightarrow> Some (Inl InvalidAddress, st)
      | Some i \<Rightarrow>
          if 0 < responses_available (q_io (io_queues st ! i)) then Some (Inr True, st)
          else do { (polls, s) \<leftarrow> poll_tickets thr (focus i st); Some (Inr (0 < polls), unfocus i s st) })"

definition wait_io_queue ::
  "(('o, 'x) io_process \<Rightarrow> ('o, 'x) io_process) \<Rightarrow> nat \<Rightarrow> u64 \<Rightarrow> ('o, 'x) io_process
    \<Rightarrow> ((ProcessQueueError + unit) \<times> ('o, 'x) io_process) panics" where
  "wait_io_queue sleep thr base st =
     do { (r, st) \<leftarrow> wait_round thr base st;
          case r of
            Inl e \<Rightarrow> Some (Inl e, st)
          | Inr True \<Rightarrow> Some (Inr (), st)
          | Inr False \<Rightarrow>
              do { (r, st) \<leftarrow> wait_round thr base (sleep st);
                   Some (map_sum id (\<lambda>_. ()) r, st) } }"

section \<open>Every request is answered once\<close>

text \<open>
  The tags (\<open>user_data\<close>) of the work that the kernel holds: the pending tickets and the responses that
  the process has not taken. \<open>keeps\<close> is what no operation of the kernel changes but for taking requests.
\<close>

definition tags :: "('o, 'x) pio \<Rightarrow> u64 multiset" where
  "tags s = mset (map pt_user_data (k_pending s)) + mset (map rs_user_data (responses (k_queue s)))"

definition keeps :: "('o, 'x) pio \<Rightarrow> ('o, 'x) pio \<Rightarrow> bool" where
  "keeps s s' \<longleftrightarrow> queue_ok (k_queue s') \<and> requests (k_queue s') = requests (k_queue s)
     \<and> response_cap (k_queue s') = response_cap (k_queue s)"

definition room :: "('o, 'x) pio \<Rightarrow> bool" where
  "room s \<longleftrightarrow> queue_ok (k_queue s) \<and> length (responses (k_queue s)) < response_cap (k_queue s)"

definition answers :: "u64 \<Rightarrow> ('o, 'x) pio \<Rightarrow> ('o, 'x) pio \<Rightarrow> bool" where
  "answers ud s s' \<longleftrightarrow> keeps s s' \<and> tags s' = add_mset ud (tags s)"

lemma room_upd [simp]:
  "room (s\<lparr>k_pending := p\<rparr>) = room s" "room (s\<lparr>k_objects := a\<rparr>) = room s"
  "room (s\<lparr>k_world := w\<rparr>) = room s" "room (s\<lparr>k_mem := m\<rparr>) = room s"
  by (simp_all add: room_def)

lemma answers_upd [simp]:
  "answers ud (s\<lparr>k_objects := a\<rparr>) s' = answers ud s s'"
  "answers ud (s\<lparr>k_world := w\<rparr>) s' = answers ud s s'" "answers ud (s\<lparr>k_mem := m\<rparr>) s' = answers ud s s'"
  by (simp_all add: answers_def keeps_def tags_def)

lemma push_resp_ok:
  assumes "room s"
  shows "\<exists>q. push_resp ud v s = s\<lparr>k_queue := q\<rparr> \<and> queue_ok q \<and> requests q = requests (k_queue s)
    \<and> response_cap q = response_cap (k_queue s)
    \<and> responses q = responses (k_queue s) @ [\<lparr>rs_value = v, rs_user_data = ud\<rparr>]"
proof -
  have "queue_ok (k_queue s)" "length (responses (k_queue s)) \<noteq> response_cap (k_queue s)"
    using assms by (simp_all add: room_def)
  from resp.enq_room [OF this, of "\<lparr>rs_value = v, rs_user_data = ud\<rparr>"] show ?thesis
    using other_ring(3) by (auto simp: push_resp_def)
qed

lemma push_resp_answers: "room s \<Longrightarrow> answers ud s (push_resp ud v s)"
  using push_resp_ok [of s ud v] by (auto simp: answers_def keeps_def tags_def)

lemma push_pending_answers: "room s \<Longrightarrow> answers ud s (push_pending ud ptr n t s)"
  by (simp add: push_pending_def answers_def keeps_def tags_def room_def)

lemma push_object_answers: "room s \<Longrightarrow> push_object ud obj s = Some s' \<Longrightarrow> answers ud s s'"
  using push_resp_answers [of "s\<lparr>k_objects := a\<rparr>" for a] by (auto simp: push_object_def)

lemma push_data_answers: "room s \<Longrightarrow> answers ud s (push_data ud ptr n bs s)"
  using push_resp_answers [of "s\<lparr>k_mem := m\<rparr>" for m] by (auto simp: push_data_def copy_data_to_def Let_def)

lemma settle_object_answers: "room s \<Longrightarrow> settle_object thr ud t s = Some s' \<Longrightarrow> answers ud s s'"
  using push_resp_answers [of "s\<lparr>k_world := w\<rparr>" for w] push_pending_answers [of "s\<lparr>k_world := w\<rparr>" for w]
    push_object_answers [of "s\<lparr>k_world := w\<rparr>" for w]
  by (auto simp: settle_object_def Let_def split_beta split: option.splits sum.splits)

lemma settle_data_answers: "room s \<Longrightarrow> answers ud s (settle_data thr ud ptr n t s)"
  using push_resp_answers [of "s\<lparr>k_world := w\<rparr>" for w] push_pending_answers [of "s\<lparr>k_world := w\<rparr>" for w]
    push_data_answers [of "s\<lparr>k_world := w\<rparr>" for w]
  by (auto simp: settle_data_def Let_def split_beta split: option.splits sum.splits)

lemma settle_u64_answers: "room s \<Longrightarrow> settle_u64 c thr ud t s = Some s' \<Longrightarrow> answers ud s s'"
  using push_resp_answers [of "s\<lparr>k_world := w\<rparr>" for w] push_pending_answers [of "s\<lparr>k_world := w\<rparr>" for w]
  by (auto simp: settle_u64_def Let_def split_beta split: option.splits sum.splits if_splits)

lemmas answers_intros = push_resp_answers settle_data_answers
lemmas answers_dests = settle_object_answers settle_u64_answers

text \<open>Only closing an existing handle is silent.\<close>

definition closes :: "Request \<Rightarrow> ('o, 'x) pio \<Rightarrow> bool" where
  "closes e s \<longleftrightarrow> rq_ty e = REQ_CLOSE \<and> get (k_objects s) (unerase_handle (rq_handle e)) \<noteq> None"

lemma handle_request_answers:
  assumes "room s" and "\<not> closes e s" and "handle_request vt thr e s = Some s'"
  shows "answers (rq_user_data e) s s'"
proof (cases "get (k_objects s) (unerase_handle (rq_handle e))")
  case None
  then show ?thesis using assms push_resp_answers by (auto simp: handle_request_def Let_def split_beta)
next
  case (Some obj)
  have w: "room (s\<lparr>k_world := w\<rparr>)" for w using assms(1) by simp
  show ?thesis
    using assms(3) Some assms(2) answers_intros [OF w] answers_intros [OF assms(1)] answers_dests [OF w]
    by (simp add: handle_request_def closes_def Let_def split_beta
        split: if_splits sum.splits option.splits bind_splits) (auto split: bind_splits)
qed

lemma handle_request_closes:
  assumes "closes e s" and "handle_request vt thr e s = Some s'"
  shows "\<exists>a. s' = s\<lparr>k_objects := a\<rparr>"
  using assms by (auto simp: handle_request_def closes_def req_codes Let_def split_beta)

section \<open>The loops\<close>

lemma mset_swap_remove:
  assumes "swap_remove i xs = Some (x, ys)"
  shows "x = xs ! i \<and> i < length xs \<and> mset xs = add_mset x (mset ys) \<and> length xs = Suc (length ys)"
proof -
  have i: "i < length xs" and x: "x = xs ! i"
    and ys: "ys = (if i = length xs - 1 then butlast xs else (butlast xs)[i := last xs])"
    using assms by (auto simp: swap_remove_def split: if_splits)
  have xs: "xs = butlast xs @ [last xs]" using i by (cases xs rule: rev_cases) auto
  then have m: "mset xs = add_mset (last xs) (mset (butlast xs))" by (metis mset.simps mset_append union_commute
      add_mset_add_single)
  show ?thesis
  proof (cases "i = length xs - 1")
    case True
    then show ?thesis using i x ys m by (cases xs rule: rev_cases) auto
  next
    case False
    then have ib: "i < length (butlast xs)" using i by simp
    then have "butlast xs ! i \<in># mset (butlast xs)" by (simp only: set_mset_mset nth_mem)
    moreover have "butlast xs ! i = xs ! i" using ib by (simp add: nth_butlast)
    ultimately show ?thesis using False i x ys m ib by (simp add: mset_update)
  qed
qed

definition poll_inv :: "('o, 'x) pio \<Rightarrow> ('o, 'x) pio \<Rightarrow> bool" where
  "poll_inv s s' \<longleftrightarrow> keeps s s' \<and> tags s' = tags s"

text \<open>A pending ticket has room for its response, and polling moves it there.\<close>

definition within :: "('o, 'x) pio \<Rightarrow> bool" where
  "within s \<longleftrightarrow> queue_ok (k_queue s) \<and> size (tags s) \<le> response_cap (k_queue s)"

lemma size_tags: "size (tags s) = length (k_pending s) + length (responses (k_queue s))"
  by (simp add: tags_def)

lemma poll_one_inv:
  assumes "within s" and "poll_one thr i (n, s) = Some (n', s')"
  shows "poll_inv s s' \<and> within s' \<and> length (k_pending s) \<le> Suc (length (k_pending s'))"
proof -
  obtain p where p: "i < length (k_pending s)" "k_pending s ! i = p"
    using assms(2) by (auto simp: poll_one_def)
  obtain r w where rw: "any_poll thr (pt_ticket p) (k_world s) = (r, w)" by fastforce
  show ?thesis
  proof (cases r)
    case None
    then have "s' = s\<lparr>k_world := w\<rparr>" using assms(2) p rw by (auto simp: poll_one_def nth_opt_def)
    then show ?thesis using assms(1) by (simp add: poll_inv_def keeps_def tags_def within_def)
  next
    case (Some v)
    obtain pend where sw: "swap_remove i (k_pending s) = Some (p, pend)"
      using p by (auto simp: swap_remove_def)
    note m = mset_swap_remove [OF sw]
    let ?s = "s\<lparr>k_world := w, k_pending := pend\<rparr>"
    have tags: "tags s = add_mset (pt_user_data p) (tags ?s)" using m by (simp add: tags_def)
    have rm: "room ?s" using assms(1) m by (simp add: within_def room_def size_tags)
    have "answers (pt_user_data p) ?s s'"
      using assms(2) p rw Some sw push_resp_answers [OF rm] push_object_answers [OF rm] push_data_answers [OF rm]
      by (auto simp: poll_one_def nth_opt_def Let_def split: sum.splits AnyTicketValue.splits)
    moreover have "length pend \<le> length (k_pending s')"
      using assms(2) p rw Some sw
      by (auto simp: poll_one_def nth_opt_def push_object_def push_data_def push_resp_def copy_data_to_def Let_def
          split: sum.splits AnyTicketValue.splits)
    ultimately show ?thesis using assms(1) tags m by (simp add: answers_def poll_inv_def keeps_def within_def)
  qed
qed

lemma poll_down_inv:
  assumes "within s" and "poll_down thr k (n, s) = Some (n', s')"
  shows "poll_inv s s' \<and> within s'"
  using assms
proof (induction k arbitrary: n s)
  case 0
  then show ?case by (simp add: poll_inv_def keeps_def within_def)
next
  case (Suc k)
  then obtain n1 s1 where 1: "poll_one thr k (n, s) = Some (n1, s1)" "poll_down thr k (n1, s1) = Some (n', s')"
    by fastforce
  from poll_one_inv [OF Suc.prems(1) 1(1)] Suc.IH [OF _ 1(2)] show ?case
    by (auto simp: poll_inv_def keeps_def)
qed

lemma poll_tickets_inv:
  "within s \<Longrightarrow> poll_tickets thr s = Some (n, s') \<Longrightarrow> poll_inv s s' \<and> within s'"
  unfolding poll_tickets_def by (rule poll_down_inv)

text \<open>The loop over the requests as a recursion on the number of requests.\<close>

fun handle_n ::
  "('o, ('o, 'x) world_scheme) vtable \<Rightarrow> nat \<Rightarrow> nat \<Rightarrow> ('o, 'x) pio \<Rightarrow> ('o, 'x) pio panics" where
  "handle_n vt thr 0 s = Some s"
| "handle_n vt thr (Suc n) s =
     (case dequeue_request (k_queue s) of
        Inl _ \<Rightarrow> Some s
      | Inr (e, q) \<Rightarrow> do { s \<leftarrow> handle_request vt thr e (s\<lparr>k_queue := q\<rparr>); handle_n vt thr n s })"

text \<open>Whatever the room for responses, a handler does not touch the requests.\<close>

lemma push_resp_requests:
  "queue_ok (k_queue s) \<Longrightarrow> queue_ok (k_queue (push_resp ud v s))
    \<and> requests (k_queue (push_resp ud v s)) = requests (k_queue s)"
  using resp.enq_Inr other_ring(3) by (auto simp: push_resp_def split: sum.splits)

definition same_requests :: "('o, 'x) pio \<Rightarrow> ('o, 'x) pio \<Rightarrow> bool" where
  "same_requests s s' \<longleftrightarrow> queue_ok (k_queue s') \<and> requests (k_queue s') = requests (k_queue s)"

lemma push_requests:
  assumes "queue_ok (k_queue s)"
  shows "same_requests s (push_resp ud v s)" and "same_requests s (push_pending ud ptr n t s)"
    and "push_object ud obj s = Some s' \<Longrightarrow> same_requests s s'" and "same_requests s (push_data ud ptr n bs s)"
  using assms push_resp_requests [of "s\<lparr>k_objects := a\<rparr>" for a] push_resp_requests [of "s\<lparr>k_mem := m\<rparr>" for m]
    push_resp_requests [of s]
  by (auto simp: same_requests_def push_pending_def push_object_def push_data_def copy_data_to_def Let_def)

lemma settle_requests:
  assumes "queue_ok (k_queue s)"
  shows "settle_object thr ud t s = Some s' \<Longrightarrow> same_requests s s'" and "same_requests s (settle_data thr ud ptr n t s)"
    and "settle_u64 c thr ud t s = Some s' \<Longrightarrow> same_requests s s'"
proof -
  have w: "queue_ok (k_queue (s\<lparr>k_world := w\<rparr>))" for w using assms by simp
  have same: "same_requests (s\<lparr>k_world := w\<rparr>) s' = same_requests s s'" for w s' by (simp add: same_requests_def)
  note p = push_requests [OF w, unfolded same]
  show "settle_object thr ud t s = Some s' \<Longrightarrow> same_requests s s'" and "same_requests s (settle_data thr ud ptr n t s)"
    and "settle_u64 c thr ud t s = Some s' \<Longrightarrow> same_requests s s'"
    using p by (auto simp: settle_object_def settle_data_def settle_u64_def Let_def split_beta
        split: option.splits sum.splits if_splits)
qed

lemma handle_request_requests:
  assumes "queue_ok (k_queue s)" and "handle_request vt thr e s = Some s'"
  shows "same_requests s s'"
proof -
  have w: "queue_ok (k_queue (s\<lparr>k_world := w\<rparr>))" for w using assms by simp
  have same: "same_requests (s\<lparr>k_world := w\<rparr>) s' = same_requests s s'" for w s' by (simp add: same_requests_def)
  note p = push_requests(1) [OF assms(1)] settle_requests [OF w, unfolded same]
  have c: "same_requests s (s\<lparr>k_objects := a\<rparr>)" for a using assms(1) by (simp add: same_requests_def)
  show ?thesis
    using assms(2) p c
    by (simp add: handle_request_def Let_def split_beta split: if_splits sum.splits option.splits)
       (auto split: option.splits sum.splits if_splits)
qed

lemma process_requests_empty:
  "dequeue_request (k_queue s) = Inl x \<Longrightarrow> process_requests vt thr s = Some s"
  unfolding process_requests.simps [of vt thr s] by simp

lemma process_requests_cons:
  "dequeue_request (k_queue s) = Inr (e, q) \<Longrightarrow>
    process_requests vt thr s = Option.bind (handle_request vt thr e (s\<lparr>k_queue := q\<rparr>)) (process_requests vt thr)"
  unfolding process_requests.simps [of vt thr s] by simp

lemma process_requests_handle_n:
  assumes "queue_ok (k_queue s)" and "length (requests (k_queue s)) = n"
  shows "process_requests vt thr s = handle_n vt thr n s
    \<and> (\<forall>s'. handle_n vt thr n s = Some s' \<longrightarrow> queue_ok (k_queue s') \<and> requests (k_queue s') = [])"
  using assms
proof (induction n arbitrary: s)
  case 0
  then have "dequeue_request (k_queue s) = Inl Empty" using req.deq_empty [of "k_queue s"] by simp
  with 0 show ?case using process_requests_empty by auto
next
  case (Suc n)
  from Suc.prems(2) obtain e es where es: "requests (k_queue s) = e # es" "length es = n" by (cases "requests (k_queue s)") auto
  obtain q where q: "dequeue_request (k_queue s) = Inr (e, q)" "queue_ok q" "requests q = es"
    using req.deq_cons [OF Suc.prems(1) es(1)] by blast
  let ?h = "handle_request vt thr e (s\<lparr>k_queue := q\<rparr>)"
  show ?case
  proof (cases ?h)
    case None
    then show ?thesis using process_requests_cons [OF q(1)] q(1) by simp
  next
    case (Some s1)
    have "same_requests (s\<lparr>k_queue := q\<rparr>) s1" using handle_request_requests [OF _ Some] q(2) by simp
    then have "queue_ok (k_queue s1)" "length (requests (k_queue s1)) = n"
      using q(3) es(2) by (simp_all add: same_requests_def)
    from Suc.IH [OF this] Some q(1) show ?thesis using process_requests_cons [OF q(1)] by simp
  qed
qed

text \<open>
  C23. Processing a queue ends: the loop makes exactly one round for each request that was in the ring
  when it began, and unless a handler panics it leaves the ring of requests empty.
\<close>

theorem process_requests_terminates:
  assumes "queue_ok (k_queue s)"
  shows "process_requests vt thr s = handle_n vt thr (length (requests (k_queue s))) s
    \<and> (\<forall>s'. process_requests vt thr s = Some s' \<longrightarrow> requests (k_queue s') = [])"
  using process_requests_handle_n [OF assms refl, of vt thr] by metis

definition world_example :: "nat world" where
  "world_example = \<lparr>w_obj = \<lparr>cells = [], woken = []\<rparr>, w_u64 = \<lparr>cells = [], woken = []\<rparr>,
     w_data = \<lparr>cells = [], woken = []\<rparr>\<rparr>"

definition pio_example :: "(nat, unit) pio" where
  "pio_example = \<lparr>k_queue = queue_example, k_pending = [], k_objects = arena_default 0,
     k_world = world_example, k_mem = (\<lambda>_. 0)\<rparr>"

theorem process_requests_terminates_witness:
  "process_requests default_object 0 pio_example
    = handle_n default_object 0 (length (requests (k_queue pio_example))) pio_example"
  using process_requests_terminates [of pio_example default_object 0] queue_example_ok by (simp add: pio_example_def)

section \<open>Errors\<close>

text \<open>A response to a request that changes nothing but the ring of responses.\<close>

definition replied :: "i64 \<Rightarrow> Request \<Rightarrow> ('o, 'x) pio \<Rightarrow> ('o, 'x) pio \<Rightarrow> bool" where
  "replied v e s s' \<longleftrightarrow> (\<exists>q. s' = s\<lparr>k_queue := q\<rparr> \<and> queue_ok q \<and> requests q = requests (k_queue s)
     \<and> responses q = responses (k_queue s) @ [\<lparr>rs_value = v, rs_user_data = rq_user_data e\<rparr>])"

lemma push_resp_replied: "room s \<Longrightarrow> replied v e s (push_resp (rq_user_data e) v s)"
  using push_resp_ok [of s "rq_user_data e" v] by (auto simp: replied_def)

text \<open>
  C24. The errors that the kernel reports without calling an object, for every request except that to
  close a handle: each gets exactly one response, which has the request's tag and the number of the
  error, and nothing else changes. They are a handle that names nothing, sharing a handle that names
  nothing, an unknown direction of a seek and an unknown operation. The two operations that are not
  implemented, setting a property and destroying, stop the kernel when the handle names an object.
\<close>

theorem io_request_errors:
  assumes "room s" and "rq_ty e \<noteq> REQ_CLOSE"
  shows "(get (k_objects s) (unerase_handle (rq_handle e)) = None \<longrightarrow>
      (\<exists>s'. handle_request vt thr e s = Some s' \<and> replied (err_value InvalidObject) e s s'))
    \<and> (get (k_objects s) (unerase_handle (rq_handle e)) \<noteq> None \<longrightarrow>
        (rq_ty e = REQ_SHARE \<and> get (k_objects s) (unerase_handle (ucast (fst (rq_arguments_64 e)))) = None \<longrightarrow>
          (\<exists>s'. handle_request vt thr e s = Some s' \<and> replied (err_value InvalidObject) e s s'))
      \<and> (rq_ty e = REQ_SEEK \<and> isl (seek_try_from_raw (fst (rq_arguments_8 e)) (fst (rq_arguments_64 e))) \<longrightarrow>
          (\<exists>s'. handle_request vt thr e s = Some s' \<and> replied (-1) e s s'))
      \<and> (9 < rq_ty e \<longrightarrow>
          (\<exists>s'. handle_request vt thr e s = Some s' \<and> replied (err_value InvalidOperation) e s s'))
      \<and> (rq_ty e \<in> {REQ_SET_META, REQ_DESTROY} \<longrightarrow> handle_request vt thr e s = None))"
  using push_resp_replied [OF assms(1)] by (auto simp: handle_request_def req_codes Let_def split_beta isl_def)

theorem io_request_errors_witness:
  "\<exists>s'. handle_request default_object 0 (request_read 7 3 \<lparr>sl_ptr = 0, sl_len = 4\<rparr>) pio_example = Some s'
    \<and> responses (k_queue s') = [\<lparr>rs_value = err_value InvalidObject, rs_user_data = 7\<rparr>]"
proof -
  have r: "responses queue_example = []" by (simp add: queue_example_def responses_def contents_def)
  have room: "room pio_example" using queue_example_ok r by (simp add: room_def pio_example_def response_cap_def queue_example_def)
  have ty: "rq_ty (request_read 7 3 \<lparr>sl_ptr = 0, sl_len = 4\<rparr>) \<noteq> REQ_CLOSE" by (simp add: request_read_def req_codes)
  have "get (k_objects pio_example) (unerase_handle 3) = None"
    by (simp add: pio_example_def arena_default_def get_def nth_opt_def)
  then show ?thesis
    using io_request_errors [OF room ty, of default_object 0] r
    by (auto simp: replied_def request_read_def pio_example_def)
qed

text \<open>
  The comment at the request to close says that there is no response under any circumstances; the
  test of the handle, which comes first, answers a close of a handle that names nothing.
\<close>

lemma close_invalid_answered:
  assumes "room s" and "get (k_objects s) (unerase_handle (rq_handle e)) = None" and "rq_ty e = REQ_CLOSE"
  shows "\<exists>s'. handle_request vt thr e s = Some s' \<and> replied (err_value InvalidObject) e s s'"
  using assms(2) push_resp_replied [OF assms(1)] by (auto simp: handle_request_def Let_def split_beta)

end
