(* ===== verification/Io_Queue.thy ===== *)
theory Io_Queue
  imports Process_Io
begin

text \<open>
  The queue as programs use it, \<open>lib/rust/io_queue/src/lib.rs\<close>: sizes that are powers of two, submitting
  requests and receiving responses, with the count of requests in flight that keeps the kernel from
  having to drop a response. The last section composes a program that uses the library with the
  kernel and shows that no response is lost as long as no request to close a handle that names nothing
  is handled.
\<close>

section \<open>Sizes\<close>

text \<open>
  The variants \<open>P0\<close> to \<open>P31\<close> are the numbers below 32. Their masks are the table in the source.
\<close>

type_synonym IoPow2Size = nat

definition io_masks :: "u32 list" where
  "io_masks = [0x0, 0x1, 0x3, 0x7, 0xf, 0x1f, 0x3f, 0x7f,
     0xff, 0x1ff, 0x3ff, 0x7ff, 0xfff, 0x1fff, 0x3fff, 0x7fff,
     0xffff, 0x1ffff, 0x3ffff, 0x7ffff, 0xfffff, 0x1fffff, 0x3fffff, 0x7fffff,
     0xffffff, 0x1ffffff, 0x3ffffff, 0x7ffffff, 0xfffffff, 0x1fffffff, 0x3fffffff, 0x7fffffff]"

definition io_into_mask :: "IoPow2Size \<Rightarrow> u32" where
  "io_into_mask p = io_masks ! p"

definition trailing_ones :: "u32 \<Rightarrow> nat" where
  "trailing_ones w = trailing_zeros (NOT w)"

definition approx_mask :: "u32 \<Rightarrow> IoPow2Size panics" where
  "approx_mask msk =
     (let n = trailing_zeros (msk + 1) in find (\<lambda>p. n = trailing_ones (io_masks ! p)) [0..<length io_masks])"

definition into_p2size :: "IoPow2Size \<Rightarrow> u8" where
  "into_p2size p = of_nat (count_ones (io_masks ! p))"

definition io_size :: "IoPow2Size \<Rightarrow> nat" where
  "io_size p = unat (io_into_mask p + 1)"

section \<open>Queues\<close>

record user_queue =
  uq_inner :: io_queue
  requests_in_flight :: u32

datatype user_request =
    URead slice | UWrite slice | UGetMeta slice slice | USetMeta slice slice | UOpen slice | UCreate slice
  | USeek SeekFrom | UClose | UShare Handle

text \<open>The memory of a new queue is zeroed, so both rings are empty.\<close>

definition queue_new :: "io_queue \<Rightarrow> IoPow2Size \<Rightarrow> IoPow2Size \<Rightarrow> user_queue" where
  "queue_new shared requests_size responses_size =
     \<lparr>uq_inner = shared\<lparr>requests_mask := io_into_mask requests_size, responses_mask := io_into_mask responses_size\<rparr>,
      requests_in_flight = 0\<rparr>"

definition queue_requests_size :: "user_queue \<Rightarrow> IoPow2Size panics" where
  "queue_requests_size q = approx_mask (requests_mask (uq_inner q))"

definition queue_responses_size :: "user_queue \<Rightarrow> IoPow2Size panics" where
  "queue_responses_size q = approx_mask (responses_mask (uq_inner q))"

fun user_request_into :: "u64 \<Rightarrow> Handle \<Rightarrow> user_request \<Rightarrow> bool \<times> Request" where
  "user_request_into ud h (URead buf) = (True, request_read_uninit ud h buf)"
| "user_request_into ud h (UWrite buf) = (True, request_write ud h buf)"
| "user_request_into ud h (UGetMeta property value) = (True, request_get_meta_uninit ud h property value)"
| "user_request_into ud h (USetMeta property value) = (True, request_set_meta ud h property value)"
| "user_request_into ud h (UOpen path) = (True, request_open ud h path)"
| "user_request_into ud h (UCreate path) = (True, request_create ud h path)"
| "user_request_into ud h (USeek from) = (True, request_seek ud h from)"
| "user_request_into ud h UClose = (False, request_close ud h)"
| "user_request_into ud h (UShare shr) = (True, request_share ud h shr)"

definition submit :: "u64 \<Rightarrow> Handle \<Rightarrow> user_request \<Rightarrow> user_queue \<Rightarrow> Full + (bool \<times> user_queue)" where
  "submit ud h r q =
     (if responses_mask (uq_inner q) < requests_in_flight q then Inl Full
      else let (expect_response, e) = user_request_into ud h r in
        case enqueue_request (uq_inner q) e of
          Inl _ \<Rightarrow> Inl Full
        | Inr inner \<Rightarrow> Inr (expect_response, q\<lparr>uq_inner := inner,
            requests_in_flight := (if expect_response then requests_in_flight q + 1 else requests_in_flight q)\<rparr>))"

definition receive :: "user_queue \<Rightarrow> Response option \<times> user_queue" where
  "receive q =
     (case dequeue_response (uq_inner q) of
        Inl _ \<Rightarrow> (None, q)
      | Inr (r, inner) \<Rightarrow> (Some r, q\<lparr>uq_inner := inner, requests_in_flight := requests_in_flight q - 1\<rparr>))"

section \<open>Facts about sizes\<close>

lemma io_masks_eq: "io_masks = map mask [0..<32]"
  by (simp add: io_masks_def upt_conv_Cons mask_eq_exp_minus_1)

lemma io_into_mask_eq: "p < 32 \<Longrightarrow> io_into_mask p = mask p"
  by (simp add: io_into_mask_def io_masks_eq)

lemma trailing_ones_mask:
  assumes "p < 32" shows "trailing_ones (mask p) = p"
proof -
  have "takeWhile (\<lambda>i. \<not> bit (NOT (mask p) :: u32) i) ([0..<p] @ [p..<32]) = [0..<p]"
    using assms by (subst takeWhile_append2) (auto simp: bit_not_iff bit_mask_iff upt_conv_Cons)
  then show ?thesis
    using assms upt_add_eq_append [of 0 p "32 - p"] by (simp add: trailing_ones_def trailing_zeros_def)
qed

lemma find_upt: "p < n \<Longrightarrow> \<forall>k < n. f k = k \<Longrightarrow> find (\<lambda>k. p = f k) [0..<n] = Some p"
  unfolding find_Some_iff by (rule exI [of _ p]) simp

lemma approx_mask_into_mask:
  assumes "p < 32" shows "approx_mask (io_into_mask p) = Some p"
proof -
  have "length io_masks = 32" "\<forall>k < 32. trailing_ones (io_masks ! k) = k"
    by (simp_all add: io_masks_eq trailing_ones_mask)
  moreover have "trailing_zeros (io_into_mask p + 1) = p"
    using trailing_zeros_exp [where 'n = 32, of p] assms by (simp add: io_into_mask_eq mask_plus_one)
  ultimately show ?thesis using find_upt [OF assms, of "\<lambda>k. trailing_ones (io_masks ! k)"] by (simp only: approx_mask_def Let_def)
qed

lemma count_ones_mask:
  assumes "p \<le> LENGTH('n)" shows "count_ones (mask p :: 'n::len word) = p"
proof -
  have "filter (bit (mask p :: 'n word)) [0..<LENGTH('n)] = filter (\<lambda>i. i < p) ([0..<p] @ [p..<LENGTH('n)])"
    using assms upt_add_eq_append [of 0 p "LENGTH('n) - p"] by (intro filter_cong) (auto simp: bit_mask_iff)
  then show ?thesis by (simp add: count_ones_def filter_False)
qed

lemma into_p2size_eq: "p < 32 \<Longrightarrow> unat (into_p2size p) = p"
  by (simp add: into_p2size_def io_masks_eq count_ones_mask unat_of_nat_small)

lemma io_size_eq: "p < 32 \<Longrightarrow> io_size p = 2 ^ p"
  by (simp add: io_size_def io_into_mask_eq mask_plus_one unat_exp32)

section \<open>A program and the kernel\<close>

text \<open>
  A program that uses the library, the kernel that handles its requests one by one and polls pending
  tickets, and the rest of the system, which changes the objects and the memory, in any order. \<open>fl_due\<close> are
  the tags of the requests that the program has submitted and that were not answered yet. A run is
  recorded as the list of its events; \<open>StrayClose\<close> is the handling of a request to close a handle that
  names nothing.
\<close>

datatype flow_event = Submitted | Received | Handled | StrayClose | Polled | Changed

record ('o, 'x) flow =
  fl_in_flight :: u32
  fl_kernel :: "('o, 'x) pio"
  fl_due :: "u64 multiset"

definition user_view :: "('o, 'x) flow \<Rightarrow> user_queue" where
  "user_view f = \<lparr>uq_inner = k_queue (fl_kernel f), requests_in_flight = fl_in_flight f\<rparr>"

definition user_done :: "user_queue \<Rightarrow> u64 multiset \<Rightarrow> ('o, 'x) flow \<Rightarrow> ('o, 'x) flow" where
  "user_done q due f = f\<lparr>fl_in_flight := requests_in_flight q, fl_due := due,
     fl_kernel := (fl_kernel f)\<lparr>k_queue := uq_inner q\<rparr>\<rparr>"

inductive flow_step ::
  "('o, ('o, 'x) world_scheme) vtable \<Rightarrow> ('o, 'x) flow \<Rightarrow> flow_event \<Rightarrow> ('o, 'x) flow \<Rightarrow> bool" for vt where
  flow_submit: "submit ud h r (user_view f) = Inr (expect, q)
    \<Longrightarrow> flow_step vt f Submitted (user_done q (if expect then add_mset ud (fl_due f) else fl_due f) f)"
| flow_receive: "receive (user_view f) = (Some r, q)
    \<Longrightarrow> flow_step vt f Received (user_done q (fl_due f - {#rs_user_data r#}) f)"
| flow_handle: "dequeue_request (k_queue (fl_kernel f)) = Inr (e, q)
    \<Longrightarrow> handle_request vt thr e ((fl_kernel f)\<lparr>k_queue := q\<rparr>) = Some k'
    \<Longrightarrow> ev = (if rq_ty e = REQ_CLOSE \<and> \<not> closes e (fl_kernel f) then StrayClose else Handled)
    \<Longrightarrow> flow_step vt f ev (f\<lparr>fl_kernel := k'\<rparr>)"
| flow_poll: "poll_tickets thr (fl_kernel f) = Some (n, k')
    \<Longrightarrow> flow_step vt f Polled (f\<lparr>fl_kernel := k'\<rparr>)"
| flow_env: "flow_step vt f Changed (f\<lparr>fl_kernel := (fl_kernel f)\<lparr>k_objects := a, k_world := w, k_mem := m\<rparr>\<rparr>)"

inductive flow_run ::
  "('o, ('o, 'x) world_scheme) vtable \<Rightarrow> ('o, 'x) flow \<Rightarrow> flow_event list \<Rightarrow> ('o, 'x) flow \<Rightarrow> bool" for vt where
  flow_none: "flow_run vt f [] f"
| flow_more: "flow_run vt f evs f' \<Longrightarrow> flow_step vt f' ev f'' \<Longrightarrow> flow_run vt f (evs @ [ev]) f''"

definition expected :: "Request list \<Rightarrow> u64 multiset" where
  "expected es = mset (map rq_user_data (filter (\<lambda>e. rq_ty e \<noteq> REQ_CLOSE) es))"

definition flow_inv :: "('o, 'x) flow \<Rightarrow> bool" where
  "flow_inv f \<longleftrightarrow> queue_ok (k_queue (fl_kernel f))
     \<and> fl_due f = expected (requests (k_queue (fl_kernel f))) + tags (fl_kernel f)
     \<and> unat (fl_in_flight f) = size (fl_due f) \<and> size (fl_due f) \<le> response_cap (k_queue (fl_kernel f))"

lemma user_request_into_facts:
  "user_request_into ud h r = (expect, e) \<Longrightarrow> expect = (rq_ty e \<noteq> REQ_CLOSE) \<and> rq_user_data e = ud"
  by (cases r) (auto simp: req_codes request_read_uninit_def request_write_def request_get_meta_uninit_def
      request_set_meta_def request_open_def request_create_def request_seek_def request_close_def
      request_share_def Let_def split_beta)

lemma response_cap_mask:
  assumes "queue_ok q" shows "response_cap q = Suc (unat (responses_mask q)) \<and> response_cap q \<le> 2 ^ 31"
proof -
  obtain k where k: "responses_mask q = mask k" "k < 32" "response_cap q = 2 ^ k"
    using assms by (auto simp: queue_ok_def response_ok_def ring_ok_def response_cap_def)
  have "unat (2 ^ k :: u32) \<noteq> unat (0 :: u32)" using unat_exp32 [OF k(2)] by simp
  then have "(2 ^ k :: u32) \<noteq> 0" by (simp only: word_unat_eq_iff not_False_eq_True)
  then have "unat (mask k :: u32) = 2 ^ k - 1"
    using unat_minus_one [of "2 ^ k :: u32"] unat_exp32 [OF k(2)] by (simp add: mask_eq_exp_minus_1)
  then show ?thesis using k exp_le_31 [OF k(2)] by simp
qed

lemma flow_submit_inv:
  assumes "flow_inv f" and "submit ud h r (user_view f) = Inr (expect, q)"
  shows "flow_inv (user_done q (if expect then add_mset ud (fl_due f) else fl_due f) f)"
proof -
  let ?k = "fl_kernel f"
  note inv = assms(1) [unfolded flow_inv_def]
  obtain e inner where e: "user_request_into ud h r = (expect, e)" "enqueue_request (k_queue ?k) e = Inr inner"
    and le: "\<not> responses_mask (k_queue ?k) < fl_in_flight f" and q: "q = \<lparr>uq_inner = inner,
      requests_in_flight = (if expect then fl_in_flight f + 1 else fl_in_flight f)\<rparr>"
    using assms(2) by (auto simp: submit_def user_view_def split: if_splits sum.splits prod.splits)
  note r = req.enq_Inr [OF conjunct1 [OF inv] e(2)] other_ring(1) [OF e(2)] user_request_into_facts [OF e(1)]
    response_cap_mask [OF conjunct1 [OF inv]]
  have "unat (fl_in_flight f) \<le> unat (responses_mask (k_queue ?k))" using le by (simp add: word_less_nat_alt)
  moreover from this r(4) have "unat (fl_in_flight f + 1) = Suc (unat (fl_in_flight f))"
    by (simp add: unat_word_ariths)
  ultimately show ?thesis
    using inv r q by (auto simp: flow_inv_def user_done_def expected_def tags_def)
qed

lemma flow_receive_inv:
  assumes "flow_inv f" and "receive (user_view f) = (Some r, q)"
  shows "flow_inv (user_done q (fl_due f - {#rs_user_data r#}) f) \<and> rs_user_data r \<in># fl_due f"
proof -
  note inv = assms(1) [unfolded flow_inv_def]
  obtain inner where d: "dequeue_response (k_queue (fl_kernel f)) = Inr (r, inner)"
    and q: "q = \<lparr>uq_inner = inner, requests_in_flight = fl_in_flight f - 1\<rparr>"
    using assms(2) by (auto simp: receive_def user_view_def split: sum.splits)
  note p = resp.deq_Inr [OF conjunct1 [OF inv] d] other_ring(4) [OF d]
  then have t: "tags (fl_kernel f) = add_mset (rs_user_data r) (tags ((fl_kernel f)\<lparr>k_queue := inner\<rparr>))"
    by (simp add: tags_def)
  then have "fl_in_flight f \<noteq> 0" using inv by (auto simp: unat_eq_0 [symmetric])
  then have "unat (fl_in_flight f - 1) = unat (fl_in_flight f) - 1" by (rule unat_minus_one)
  then show ?thesis using inv p q t by (auto simp: flow_inv_def user_done_def)
qed

lemma flow_handle_inv:
  assumes "flow_inv f" and "dequeue_request (k_queue (fl_kernel f)) = Inr (e, q)"
    and "rq_ty e = REQ_CLOSE \<longrightarrow> closes e (fl_kernel f)"
    and "handle_request vt thr e ((fl_kernel f)\<lparr>k_queue := q\<rparr>) = Some k'"
  shows "flow_inv (f\<lparr>fl_kernel := k'\<rparr>)"
proof -
  note inv = assms(1) [unfolded flow_inv_def]
  note d = req.deq_Inr [OF conjunct1 [OF inv] assms(2)] other_ring(2) [OF assms(2)]
  let ?k = "(fl_kernel f)\<lparr>k_queue := q\<rparr>"
  have t: "tags ?k = tags (fl_kernel f)" using d by (simp add: tags_def)
  show ?thesis
  proof (cases "rq_ty e = REQ_CLOSE")
    case True
    then have "closes e ?k" using assms(3) by (simp add: closes_def)
    from handle_request_closes [OF this assms(4)] obtain a where "k' = ?k\<lparr>k_objects := a\<rparr>" by blast
    then show ?thesis using inv d True t by (auto simp: flow_inv_def expected_def tags_def)
  next
    case False
    have "room ?k" using inv d False by (auto simp: room_def expected_def size_tags)
    moreover have "\<not> closes e ?k" using False by (simp add: closes_def)
    ultimately have "answers (rq_user_data e) ?k k'" using handle_request_answers assms(4) by blast
    then show ?thesis using inv d False t by (auto simp: flow_inv_def expected_def answers_def keeps_def)
  qed
qed

lemma flow_step_inv:
  assumes "flow_step vt f ev f'" and "flow_inv f" and "ev \<noteq> StrayClose" shows "flow_inv f'"
  using assms(1)
proof (cases rule: flow_step.cases)
  case (flow_handle e q thr k')
  then have "rq_ty e = REQ_CLOSE \<longrightarrow> closes e (fl_kernel f)" using assms(3) by (auto split: if_splits)
  from flow_handle_inv [OF assms(2) flow_handle(2) this flow_handle(3)] show ?thesis by (simp add: flow_handle(1))
next
  case (flow_poll thr n k')
  have "within (fl_kernel f)" using assms(2) by (auto simp: flow_inv_def within_def)
  from poll_tickets_inv [OF this flow_poll(3)] assms(2) show ?thesis
    by (auto simp: flow_poll(2) flow_inv_def poll_inv_def keeps_def)
next
  case (flow_env a w m)
  then show ?thesis using assms(2) by (auto simp: flow_inv_def tags_def)
qed (use assms(2) flow_submit_inv flow_receive_inv in \<open>blast+\<close>)

definition flow_initial :: "('o, 'x) flow \<Rightarrow> bool" where
  "flow_initial f \<longleftrightarrow> queue_ok (k_queue (fl_kernel f)) \<and> requests (k_queue (fl_kernel f)) = []
     \<and> responses (k_queue (fl_kernel f)) = [] \<and> k_pending (fl_kernel f) = [] \<and> fl_in_flight f = 0 \<and> fl_due f = {#}"

lemma flow_run_inv: "flow_run vt f evs f' \<Longrightarrow> flow_initial f \<Longrightarrow> StrayClose \<notin> set evs \<Longrightarrow> flow_inv f'"
proof (induction rule: flow_run.induct)
  case (flow_none f)
  then show ?case by (simp add: flow_initial_def flow_inv_def expected_def tags_def)
next
  case (flow_more f evs f' ev f'')
  then show ?case using flow_step_inv [OF flow_more.hyps(2)] by auto
qed

text \<open>
  C26. No response is lost in a run in which no request to close a handle that names nothing is
  handled: however the program, the kernel and the rest of the system interleave, every tag that is due
  is exactly once in the ring of requests, in a pending ticket or in the ring of responses; their
  number is the library's count of requests in flight and never exceeds the space for responses; and
  every response the program receives has the tag of a request that is due.
\<close>

theorem flow_no_response_lost:
  assumes "flow_initial f" and "flow_run vt f evs f'" and "StrayClose \<notin> set evs"
  shows "fl_due f' = expected (requests (k_queue (fl_kernel f')))
      + mset (map pt_user_data (k_pending (fl_kernel f'))) + mset (map rs_user_data (responses (k_queue (fl_kernel f'))))
    \<and> unat (fl_in_flight f') = size (fl_due f') \<and> size (fl_due f') \<le> response_cap (k_queue (fl_kernel f'))
    \<and> (\<forall>r q. receive (user_view f') = (Some r, q) \<longrightarrow> rs_user_data r \<in># fl_due f')"
  using flow_run_inv [OF assms(2,1,3)] flow_receive_inv [of f'] by (auto simp: flow_inv_def tags_def add.assoc)

definition flow_example :: "(nat, unit) flow" where
  "flow_example = \<lparr>fl_in_flight = 0, fl_kernel = pio_example\<lparr>k_queue :=
     queue_example\<lparr>request_ring := (request_ring queue_example)\<lparr>kernel_index := 0\<rparr>\<rparr>\<rparr>, fl_due = {#}\<rparr>"

theorem flow_no_response_lost_witness:
  "\<exists>f'. flow_run default_object flow_example [Submitted] f' \<and> fl_due f' = {#7#} \<and> unat (fl_in_flight f') = 1"
proof -
  let ?q = "k_queue (fl_kernel flow_example)"
  have one: "(1 :: u32) = mask 1" by (simp add: mask_eq_exp_minus_1)
  then have "queue_ok ?q"
    unfolding queue_ok_def request_ok_def response_ok_def queue_example_def flow_example_def
    by (simp add: ring_ok_def) (intro exI [of _ 1] conjI, simp_all)
  then have init: "flow_initial flow_example"
    by (simp add: flow_initial_def flow_example_def pio_example_def queue_example_def requests_def responses_def contents_def)
  obtain q where q: "submit 7 0 (URead \<lparr>sl_ptr = 0, sl_len = 4\<rparr>) (user_view flow_example) = Inr (True, q)"
    by (simp add: submit_def user_view_def flow_example_def queue_example_def enqueue_request_def
        request_enqueue_def enqueue_def)
  let ?f = "user_done q (if True then add_mset 7 (fl_due flow_example) else fl_due flow_example) flow_example"
  have "flow_run default_object flow_example ([] @ [Submitted]) ?f" by (rule flow_more [OF flow_none flow_submit [OF q]])
  then have run: "flow_run default_object flow_example [Submitted] ?f" by simp
  have "StrayClose \<notin> set [Submitted]" by simp
  from flow_no_response_lost [OF init run this] have "unat (fl_in_flight ?f) = size (fl_due ?f)" by blast
  moreover have "fl_due ?f = {#7#}" by (simp add: user_done_def flow_example_def)
  ultimately show ?thesis using run by (intro exI [of _ ?f]) simp
qed

text \<open>
  Closing a handle that names nothing breaks this: the kernel answers a request for which the library
  expects no response, and the count of requests in flight wraps around when the program takes it.
\<close>

lemma close_unexpected_response:
  assumes "room s" and "get (k_objects s) (unerase_handle h) = None"
  shows "\<exists>s'. handle_request vt thr (request_close ud h) s = Some s' \<and> tags s' = add_mset ud (tags s)"
proof -
  have "handle_request vt thr (request_close ud h) s = Some (push_resp ud (err_value InvalidObject) s)"
    using assms(2) by (simp add: handle_request_def request_close_def request_default_def Let_def)
  then show ?thesis using push_resp_answers [OF assms(1), of ud] by (simp add: answers_def)
qed

lemma receive_in_flight_wraps:
  "receive \<lparr>uq_inner = i, requests_in_flight = 0\<rparr> = (Some r, q) \<Longrightarrow> requests_in_flight q = -1"
  by (auto simp: receive_def split: sum.splits)

end
