(* ===== verification/Page_Table.thy ===== *)
theory Page_Table
  imports Frame_Allocator Kernel_Api
begin

text \<open>
  Page tables, \<open>kernel/src/arch/amd64/virtual/common.rs\<close> and \<open>address_space.rs\<close> beside it. The tables live
  in physical memory and their frames come from the frame allocator, so the state is that of the
  allocator. A table is named by its frame, an entry by its table and its index. Flushing the
  translation cache has no counterpart.
\<close>

section \<open>Entries\<close>

definition PTE_PRESENT :: u64 where "PTE_PRESENT = 0x1"
definition PTE_READ_WRITE :: u64 where "PTE_READ_WRITE = 0x2"
definition PTE_USER :: u64 where "PTE_USER = 0x4"
definition PTE_WRITE_THROUGH :: u64 where "PTE_WRITE_THROUGH = 0x8"
definition PTE_PAGE_SIZE :: u64 where "PTE_PAGE_SIZE = 0x80"
definition PTE_GLOBAL :: u64 where "PTE_GLOBAL = 0x100"

lemmas pte_bits = PTE_PRESENT_def PTE_READ_WRITE_def PTE_USER_def PTE_WRITE_THROUGH_def
  PTE_PAGE_SIZE_def PTE_GLOBAL_def

definition is_present :: "u64 \<Rightarrow> bool" where
  "is_present e \<longleftrightarrow> e AND PTE_PRESENT > 0"

definition is_leaf :: "u64 \<Rightarrow> bool" where
  "is_leaf e \<longleftrightarrow> is_present e \<and> e AND PTE_PAGE_SIZE > 0"

definition is_table :: "u64 \<Rightarrow> bool" where
  "is_table e \<longleftrightarrow> is_present e \<and> \<not> is_leaf e"

definition is_user :: "u64 \<Rightarrow> bool" where
  "is_user e \<longleftrightarrow> is_present e \<and> e AND PTE_USER > 0"

definition is_writeable :: "u64 \<Rightarrow> bool" where
  "is_writeable e \<longleftrightarrow> is_present e \<and> e AND PTE_READ_WRITE > 0"

definition is_global :: "u64 \<Rightarrow> bool" where
  "is_global e \<longleftrightarrow> is_present e \<and> e AND PTE_GLOBAL > 0"

definition pte_page :: "u64 \<Rightarrow> u64 option" where
  "pte_page e = (if is_leaf e then Some (e AND NOT 0xfff) else None)"

text \<open>
  The frame that an entry refers to. The code masks the low 12 bits and keeps the others as the address;
  a frame number has 32 bits (\<open>mem-max-16t\<close>), so in an entry made of a frame number the bits from 44 on are
  zero and the two are the same.
\<close>

definition pte_ppn :: "u64 \<Rightarrow> ppn" where
  "pte_ppn e = ucast (drop_bit 12 e)"

definition as_table :: "u64 \<Rightarrow> ppn option" where
  "as_table e = (if is_table e then Some (pte_ppn e) else None)"

definition flag :: "bool \<Rightarrow> u64 \<Rightarrow> u64" where
  "flag b f = (if b then f else 0)"

definition phys64 :: "ppn \<Rightarrow> u64" where
  "phys64 p = push_bit 12 (ucast p)"

definition table_entry :: "ppn \<Rightarrow> bool \<Rightarrow> u64" where
  "table_entry p user = phys64 p OR PTE_PRESENT OR flag user PTE_USER OR flag (\<not> user) PTE_GLOBAL OR PTE_READ_WRITE"

definition page_entry :: "ppn \<Rightarrow> bool \<Rightarrow> bool \<Rightarrow> bool \<Rightarrow> bool \<Rightarrow> u64" where
  "page_entry p user writeable write_combining global =
     phys64 p OR PTE_PAGE_SIZE OR PTE_PRESENT OR flag user PTE_USER OR flag global PTE_GLOBAL
       OR flag writeable PTE_READ_WRITE OR flag write_combining PTE_WRITE_THROUGH"

section \<open>Operations on entries\<close>

type_synonym mem_state = "chain \<times> phys_mem"

datatype MakeTableError = IsLeaf | MakeOutOfFrames
datatype SetPageError = IsMapped | IsTable

definition set_entry :: "ppn \<times> nat \<Rightarrow> u64 \<Rightarrow> phys_mem \<Rightarrow> phys_mem" where
  "set_entry = (\<lambda>(t, i) e m. m(t := (m t)(i := e)))"

definition get_entry :: "phys_mem \<Rightarrow> ppn \<times> nat \<Rightarrow> u64" where
  "get_entry m = (\<lambda>(t, i). m t i)"

definition new_table :: "ppn \<times> nat \<Rightarrow> ppn \<Rightarrow> bool \<Rightarrow> phys_mem \<Rightarrow> phys_mem panics" where
  "new_table loc frame user m =
     do { assert (\<not> is_present (get_entry m loc));
          Some (set_entry loc (table_entry frame user) (clear_page m frame)) }"

definition make_table :: "ppn \<times> nat \<Rightarrow> bool \<Rightarrow> mem_state \<Rightarrow> ((MakeTableError + ppn) \<times> mem_state) panics" where
  "make_table loc user s =
     (let e = get_entry (snd s) loc in
      if is_table e then Some (Inr (pte_ppn e), s)
      else if is_leaf e then Some (Inl IsLeaf, s)
      else do {
        (r, c, m) \<leftarrow> allocate 1 s;
        case r of
          Inl OutOfFrames \<Rightarrow> Some (Inl MakeOutOfFrames, c, m)
        | Inr fs \<Rightarrow>
            do { frame \<leftarrow> nth_opt fs 0;
                 m \<leftarrow> new_table loc frame user m;
                 Some (Inr frame, c, m) } })"

definition set_page ::
  "ppn \<times> nat \<Rightarrow> ppn \<Rightarrow> bool \<Rightarrow> bool \<Rightarrow> bool \<Rightarrow> bool \<Rightarrow> phys_mem \<Rightarrow> SetPageError + phys_mem" where
  "set_page loc frame user writeable write_combining global m =
     (let e = get_entry m loc in
      if is_table e then Inl IsTable
      else if is_leaf e then Inl IsMapped
      else Inr (set_entry loc (page_entry frame user writeable write_combining global) m))"

definition clear_entry :: "ppn \<times> nat \<Rightarrow> phys_mem \<Rightarrow> ppn option \<times> phys_mem" where
  "clear_entry loc m =
     (let e = get_entry m loc in
      if is_present e then (Some (pte_ppn e), set_entry loc 0 m) else (None, m))"

text \<open>
  \<open>get_entry_mut\<close>: the entry for an address \<open>depth\<close> levels below a table, or the entry where the tables
  end and the depth left there.
\<close>

definition pt_index :: "nat \<Rightarrow> u64 \<Rightarrow> nat" where
  "pt_index level address = unat (drop_bit (12 + level * 9) address AND 0x1ff)"

fun get_entry_mut :: "phys_mem \<Rightarrow> ppn \<Rightarrow> u64 \<Rightarrow> nat \<Rightarrow> nat \<Rightarrow> (ppn \<times> nat) \<times> nat + ppn \<times> nat" where
  "get_entry_mut m tbl address level 0 = Inr (tbl, pt_index level address)"
| "get_entry_mut m tbl address level (Suc depth) =
     (let offt = pt_index (level + Suc depth) address; e = m tbl offt in
      if is_table e then get_entry_mut m (pte_ppn e) address level depth
      else Inl ((tbl, offt), Suc depth))"

section \<open>Mapping and unmapping\<close>

datatype PtMapError = AlreadyMapped | PtOutOfFrames
datatype PtUnmapError = Unset

record map_args =
  ma_writeable :: bool
  ma_user :: bool
  ma_write_combining :: bool
  ma_global :: bool

partial_function (option) map_page ::
  "ppn \<Rightarrow> map_args \<Rightarrow> u64 \<Rightarrow> ppn \<Rightarrow> mem_state \<Rightarrow> ((PtMapError + unit) \<times> mem_state) panics" where
  "map_page root a address ppn s =
     (case get_entry_mut (snd s) root address 0 3 of
        Inr loc \<Rightarrow>
          (case set_page loc ppn (ma_user a) (ma_writeable a) (ma_write_combining a) (ma_global a) (snd s) of
             Inl _ \<Rightarrow> None
           | Inr m \<Rightarrow> Some (Inr (), fst s, m))
      | Inl (loc, _) \<Rightarrow>
          do { (r, s) \<leftarrow> make_table loc (ma_user a) s;
               case r of
                 Inl IsLeaf \<Rightarrow> Some (Inl AlreadyMapped, s)
               | Inl MakeOutOfFrames \<Rightarrow> Some (Inl PtOutOfFrames, s)
               | Inr _ \<Rightarrow> map_page root a address ppn s })"

text \<open>The closure maps one page after the other.\<close>

fun map_pages ::
  "ppn \<Rightarrow> map_args \<Rightarrow> u64 \<Rightarrow> ppn list \<Rightarrow> mem_state \<Rightarrow> ((PtMapError + unit) \<times> mem_state) panics" where
  "map_pages root a address [] s = Some (Inr (), s)"
| "map_pages root a address (p # ps) s =
     do { (r, s) \<leftarrow> map_page root a address p s;
          case r of Inl e \<Rightarrow> Some (Inl e, s) | Inr _ \<Rightarrow> map_pages root a (address + 4096) ps s }"

text \<open>The pages are addressed by \<open>NonNull\<close> pointers; counting past the last address is a panic.\<close>

fun unmap_pages :: "ppn \<Rightarrow> u64 \<Rightarrow> nat \<Rightarrow> phys_mem \<Rightarrow> ((PtUnmapError + unit) \<times> phys_mem) panics" where
  "unmap_pages root address 0 m = Some (Inr (), m)"
| "unmap_pages root address (Suc n) m =
     do { assert (address \<noteq> 0);
          case get_entry_mut m root address 0 3 of
            Inl _ \<Rightarrow> Some (Inl Unset, m)
          | Inr loc \<Rightarrow>
              (case clear_entry loc m of
                 (None, m) \<Rightarrow> Some (Inl Unset, m)
               | (Some _, m) \<Rightarrow> unmap_pages root (address + 4096) n m) }"

section \<open>Facts on entries\<close>

lemma bit_phys64: "bit (phys64 p) n \<longleftrightarrow> 12 \<le> n \<and> bit p (n - 12)"
  by (auto simp: phys64_def bit_push_bit_iff bit_ucast_iff dest: bit_imp_le_length)

lemma word_gt_0_bit: "(w :: u64) > 0 \<longleftrightarrow> (\<exists>n. bit w n)"
  using bit_eqI [of w 0] by (auto simp: word_greater_zero_iff)

lemma and_exp_gt_0: "k < 64 \<Longrightarrow> (e AND 2 ^ k > (0 :: u64)) \<longleftrightarrow> bit e k"
  using bit_exp_word [where 'n = 64, of k] by (auto simp: word_gt_0_bit bit_and_iff)

lemma pte_exp:
  "PTE_PRESENT = 2 ^ 0" "PTE_READ_WRITE = 2 ^ 1" "PTE_USER = 2 ^ 2" "PTE_WRITE_THROUGH = 2 ^ 3"
  "PTE_PAGE_SIZE = 2 ^ 7" "PTE_GLOBAL = 2 ^ 8"
  by (simp_all add: pte_bits)

lemma entry_tests:
  "is_present e \<longleftrightarrow> bit e 0" "is_leaf e \<longleftrightarrow> bit e 0 \<and> bit e 7" "is_table e \<longleftrightarrow> bit e 0 \<and> \<not> bit e 7"
  "is_user e \<longleftrightarrow> bit e 0 \<and> bit e 2" "is_writeable e \<longleftrightarrow> bit e 0 \<and> bit e 1" "is_global e \<longleftrightarrow> bit e 0 \<and> bit e 8"
  using and_exp_gt_0 [of 0 e] and_exp_gt_0 [of 1 e] and_exp_gt_0 [of 2 e] and_exp_gt_0 [of 7 e] and_exp_gt_0 [of 8 e]
  unfolding is_present_def is_leaf_def is_table_def is_user_def is_writeable_def is_global_def pte_exp
  by auto

lemma bit_exp64: "k < 64 \<Longrightarrow> w = 2 ^ k \<Longrightarrow> bit (w :: u64) n \<longleftrightarrow> n = k"
  using bit_exp_word [where 'n = 64, of k n] by auto

lemmas bit_pte = bit_exp64 [OF _ pte_exp(1), simplified] bit_exp64 [OF _ pte_exp(2), simplified]
  bit_exp64 [OF _ pte_exp(3), simplified] bit_exp64 [OF _ pte_exp(4), simplified]
  bit_exp64 [OF _ pte_exp(5), simplified] bit_exp64 [OF _ pte_exp(6), simplified]

lemma bit_flag: "bit (flag b f) n \<longleftrightarrow> b \<and> bit f n"
  by (simp add: flag_def)

lemmas entry_bits = entry_tests bit_or_iff bit_phys64 bit_pte bit_flag

lemma table_entry_facts [simp]:
  "is_table (table_entry p user)" "pte_ppn (table_entry p user) = p" "is_present (table_entry p user)"
  "is_user (table_entry p user) = user"
proof -
  show "pte_ppn (table_entry p user) = p"
    by (rule bit_word_eqI) (auto simp: pte_ppn_def table_entry_def bit_ucast_iff bit_drop_bit_eq entry_bits)
qed (auto simp: table_entry_def entry_bits)

lemma page_entry_facts [simp]:
  "is_leaf (page_entry p u w c g)" "\<not> is_table (page_entry p u w c g)" "is_present (page_entry p u w c g)"
  "is_user (page_entry p u w c g) = u" "is_writeable (page_entry p u w c g) = w" "is_global (page_entry p u w c g) = g"
  "pte_ppn (page_entry p u w c g) = p"
proof -
  show "pte_ppn (page_entry p u w c g) = p"
    by (rule bit_word_eqI) (auto simp: pte_ppn_def page_entry_def bit_ucast_iff bit_drop_bit_eq entry_bits)
qed (auto simp: page_entry_def entry_bits)

lemma entry_zero [simp]: "\<not> is_present 0" "\<not> is_table 0" "\<not> is_leaf 0"
  by (simp_all add: entry_tests)

lemma is_table_present: "is_table e \<Longrightarrow> is_present e"
  by (simp add: is_table_def)

lemma present_cases: "is_present e \<longleftrightarrow> is_table e \<or> is_leaf e"
  by (auto simp: is_table_def is_leaf_def)

lemma pt_index_less: "pt_index level address < 512"
proof -
  have "drop_bit (12 + level * 9) address AND 0x1ff = take_bit 9 (drop_bit (12 + level * 9) address)"
    by (simp add: take_bit_eq_mask mask_eq_exp_minus_1)
  then show ?thesis
    using take_bit_nat_less_exp [of 9 "unat (drop_bit (12 + level * 9) address)"]
    by (simp add: pt_index_def unsigned_take_bit_eq)
qed

section \<open>The tree of tables\<close>

text \<open>The frames of all tables below a table, itself included.\<close>

fun tables :: "phys_mem \<Rightarrow> ppn \<Rightarrow> nat \<Rightarrow> ppn list" where
  "tables m t 0 = [t]"
| "tables m t (Suc d) = t # concat (map (\<lambda>i. if is_table (m t i) then tables m (pte_ppn (m t i)) d else []) [0..<512])"

text \<open>
  What the processor finds for an address: the entry of a page and its level, which is 0 for a page of
  4 KiB.
\<close>

definition walk :: "phys_mem \<Rightarrow> ppn \<Rightarrow> nat \<Rightarrow> u64 \<Rightarrow> (nat \<times> u64) option" where
  "walk m t d address =
     (case get_entry_mut m t address 0 d of
        Inr loc \<Rightarrow> if is_present (get_entry m loc) then Some (0, get_entry m loc) else None
      | Inl (loc, k) \<Rightarrow> if is_leaf (get_entry m loc) then Some (k, get_entry m loc) else None)"

definition same_page :: "nat \<Rightarrow> u64 \<Rightarrow> u64 \<Rightarrow> bool" where
  "same_page d a b \<longleftrightarrow> (\<forall>k \<le> d. pt_index k a = pt_index k b)"

lemma tables_head [simp]: "t \<in> set (tables m t d)"
  by (cases d) simp_all

lemma tables_child:
  "is_table (m t i) \<Longrightarrow> i < 512 \<Longrightarrow> set (tables m (pte_ppn (m t i)) d) \<subseteq> set (tables m t (Suc d))"
  by auto

lemma tables_cong:
  assumes "\<And>x. x \<in> set (tables m t d) \<Longrightarrow> m' x = m x"
  shows "tables m' t d = tables m t d"
  using assms
proof (induction d arbitrary: t)
  case (Suc d)
  have t: "m' t = m t" using Suc.prems by simp
  have "tables m' (pte_ppn (m t i)) d = tables m (pte_ppn (m t i)) d" if "is_table (m t i)" "i < 512" for i
    using that tables_child [of m t i d] by (intro Suc.IH Suc.prems) auto
  then show ?case using t by (auto intro!: arg_cong [of _ _ concat] map_cong)
qed simp

lemma get_entry_in_tables:
  "get_entry_mut m t a 0 d = Inr (x, i) \<Longrightarrow> x \<in> set (tables m t d)"
  "get_entry_mut m t a 0 d = Inl ((x, i), e) \<Longrightarrow> x \<in> set (tables m t d)"
proof (induction d arbitrary: t)
  case (Suc d)
  {
    case 1
    then show ?case using Suc.IH(1) pt_index_less [of "Suc d" a] tables_child [of m t "pt_index (Suc d) a" d]
      by (auto simp: Let_def simp del: tables.simps split: if_splits)
  next
    case 2
    then show ?case using Suc.IH(2) pt_index_less [of "Suc d" a] tables_child [of m t "pt_index (Suc d) a" d]
      by (auto simp: Let_def simp del: tables.simps split: if_splits)
  }
qed auto

lemma get_entry_cong:
  assumes "\<And>x. x \<in> set (tables m t d) \<Longrightarrow> m' x = m x"
  shows "get_entry_mut m' t a 0 d = get_entry_mut m t a 0 d"
  using assms
proof (induction d arbitrary: t)
  case (Suc d)
  let ?i = "pt_index (Suc d) a"
  have t: "m' t = m t" using Suc.prems by simp
  have "get_entry_mut m' (pte_ppn (m t ?i)) a 0 d = get_entry_mut m (pte_ppn (m t ?i)) a 0 d" if "is_table (m t ?i)"
    using that tables_child [of m t ?i d] pt_index_less by (intro Suc.IH Suc.prems) blast
  then show ?case using t by (simp add: Let_def)
qed simp

lemma walk_cong:
  assumes "\<And>x. x \<in> set (tables m t d) \<Longrightarrow> m' x = m x"
  shows "walk m' t d a = walk m t d a"
  using assms get_entry_cong [OF assms, where a = a] get_entry_in_tables [of m t a d]
  by (fastforce simp: walk_def get_entry_def split: sum.splits prod.splits)

text \<open>Distinct tables: an entry is reached by one address only, and two children share nothing.\<close>

lemma concat_distinct_nth:
  assumes "distinct (concat (map f xs))" and "distinct xs" and "i \<in> set xs" and "j \<in> set xs" and "i \<noteq> j"
  shows "set (f i) \<inter> set (f j) = {}"
  using assms by (induction xs) auto

lemma children_disjoint:
  assumes "distinct (tables m t (Suc d))" and "is_table (m t i)" and "is_table (m t j)" and "i < 512" and "j < 512"
    and "i \<noteq> j"
  shows "set (tables m (pte_ppn (m t i)) d) \<inter> set (tables m (pte_ppn (m t j)) d) = {}"
  using concat_distinct_nth [of "\<lambda>i. if is_table (m t i) then tables m (pte_ppn (m t i)) d else []" "[0..<512]" i j]
    assms by simp

lemma child_distinct:
  assumes "distinct (tables m t (Suc d))" and "is_table (m t i)" and "i < 512"
  shows "distinct (tables m (pte_ppn (m t i)) d)" and "t \<notin> set (tables m (pte_ppn (m t i)) d)"
proof -
  let ?f = "\<lambda>i. if is_table (m t i) then tables m (pte_ppn (m t i)) d else []"
  have "distinct (concat (map ?f [0..<512]))" "t \<notin> set (concat (map ?f [0..<512]))" using assms(1) by simp_all
  moreover have "?f i \<in> set (map ?f [0..<512])" using assms(3) by simp
  ultimately show "distinct (tables m (pte_ppn (m t i)) d)" "t \<notin> set (tables m (pte_ppn (m t i)) d)"
    using assms(2) by (auto simp: distinct_concat_iff)
qed

lemma get_entry_inj:
  assumes "distinct (tables m t d)" and "get_entry_mut m t a 0 d = Inr (x, i)" and "get_entry_mut m t b 0 d = Inr (x, i)"
  shows "same_page d a b"
  using assms
proof (induction d arbitrary: t)
  case (Suc d)
  let ?i = "pt_index (Suc d) a" and ?j = "pt_index (Suc d) b"
  have ch: "is_table (m t ?i)" "is_table (m t ?j)" and
    g: "get_entry_mut m (pte_ppn (m t ?i)) a 0 d = Inr (x, i)" "get_entry_mut m (pte_ppn (m t ?j)) b 0 d = Inr (x, i)"
    using Suc.prems by (auto simp: Let_def split: if_splits)
  have "?i = ?j"
    using children_disjoint [OF Suc.prems(1) ch pt_index_less pt_index_less] get_entry_in_tables(1) [OF g(1)]
      get_entry_in_tables(1) [OF g(2)] by blast
  moreover from this have "same_page d a b"
    using Suc.IH [OF child_distinct(1) [OF Suc.prems(1) ch(1) pt_index_less] g(1)] g(2) by simp
  ultimately show ?case by (auto simp: same_page_def le_Suc_eq)
qed (simp add: same_page_def)

lemma leaf_not_inner:
  assumes "distinct (tables m t d)" and "get_entry_mut m t a 0 d = Inr (x, i)" and "get_entry_mut m t b 0 d = Inl ((y, j), k)"
  shows "x \<noteq> y"
  using assms
proof (induction d arbitrary: t)
  case (Suc d)
  let ?i = "pt_index (Suc d) a" and ?j = "pt_index (Suc d) b"
  have a: "is_table (m t ?i)" "get_entry_mut m (pte_ppn (m t ?i)) a 0 d = Inr (x, i)"
    using Suc.prems(2) by (auto simp: Let_def split: if_splits)
  note x = get_entry_in_tables(1) [OF a(2)]
  note cd = child_distinct [OF Suc.prems(1) a(1) pt_index_less]
  show ?case
  proof (cases "is_table (m t ?j)")
    case True
    then have b: "get_entry_mut m (pte_ppn (m t ?j)) b 0 d = Inl ((y, j), k)" using Suc.prems(3) by (simp add: Let_def)
    show ?thesis
    proof (cases "?i = ?j")
      case True
      then show ?thesis using Suc.IH [OF cd(1) a(2)] b by simp
    next
      case False
      then show ?thesis
        using children_disjoint [OF Suc.prems(1) a(1) True pt_index_less pt_index_less] x get_entry_in_tables(2) [OF b]
        by blast
    qed
  next
    case False
    then have "y = t" using Suc.prems(3) by (simp add: Let_def)
    then show ?thesis using cd(2) x by blast
  qed
qed simp

lemma same_page_get_entry:
  "same_page d a b \<Longrightarrow> get_entry_mut m t a 0 d = get_entry_mut m t b 0 d"
proof (induction d arbitrary: t)
  case (Suc d)
  then have "same_page d a b" "pt_index (Suc d) a = pt_index (Suc d) b" by (simp_all add: same_page_def)
  then show ?case using Suc.IH by (simp add: Let_def)
qed (simp add: same_page_def)

text \<open>Writing a page entry changes no table and no way to an entry.\<close>

lemma set_leaf_tree:
  assumes "distinct (tables m t d)" and "get_entry_mut m t v 0 d = Inr (x, i)" and m'_def: "m' = set_entry (x, i) e m"
  shows "tables m' t d = tables m t d \<and> get_entry_mut m' t a 0 d = get_entry_mut m t a 0 d"
  using assms(1,2)
proof (induction d arbitrary: t)
  case (Suc d)
  let ?v = "pt_index (Suc d) v"
  have v: "is_table (m t ?v)" "get_entry_mut m (pte_ppn (m t ?v)) v 0 d = Inr (x, i)"
    using Suc.prems(2) by (auto simp: Let_def split: if_splits)
  note x = get_entry_in_tables(1) [OF v(2)]
  have t: "m' t = m t"
    using child_distinct(2) [OF Suc.prems(1) v(1) pt_index_less] x by (auto simp: m'_def set_entry_def)
  have child: "tables m' (pte_ppn (m t j)) d = tables m (pte_ppn (m t j)) d
      \<and> get_entry_mut m' (pte_ppn (m t j)) a 0 d = get_entry_mut m (pte_ppn (m t j)) a 0 d"
    if j: "is_table (m t j)" "j < 512" for j
  proof (cases "j = ?v")
    case True
    then show ?thesis using Suc.IH [OF child_distinct(1) [OF Suc.prems(1) j] ] v(2) by simp
  next
    case False
    then have "m' y = m y" if "y \<in> set (tables m (pte_ppn (m t j)) d)" for y
      using children_disjoint [OF Suc.prems(1) v(1) j(1) pt_index_less j(2)] that x
      by (auto simp: m'_def set_entry_def)
    then show ?thesis using tables_cong [of m "pte_ppn (m t j)" d m'] get_entry_cong [of m "pte_ppn (m t j)" d m'] by blast
  qed
  then have "tables m' t (Suc d) = tables m t (Suc d)"
    using t by (auto intro!: arg_cong [of _ _ concat] map_cong)
  moreover have "get_entry_mut m' t a 0 (Suc d) = get_entry_mut m t a 0 (Suc d)"
    using child [of "pt_index (Suc d) a"] pt_index_less t by (simp add: Let_def)
  ultimately show ?case ..
qed simp

lemma set_leaf_walk:
  assumes "distinct (tables m t d)" and "get_entry_mut m t v 0 d = Inr loc" and "e = 0 \<or> is_leaf e"
  shows "walk (set_entry loc e m) t d a =
    (if same_page d a v then (if e = 0 then None else Some (0, e)) else walk m t d a)"
proof -
  obtain x i where loc: "loc = (x, i)" by fastforce
  note tree = set_leaf_tree [OF assms(1) assms(2) [unfolded loc] refl, of e]
  show ?thesis
  proof (cases "same_page d a v")
    case True
    then have "get_entry_mut m t a 0 d = Inr (x, i)" using same_page_get_entry assms(2) loc by metis
    then show ?thesis using True tree assms(3) loc
      by (auto simp: walk_def get_entry_def set_entry_def present_cases)
  next
    case False
    have same: "get_entry (set_entry (x, i) e m) loc' = get_entry m loc'" if "loc' \<noteq> (x, i)" for loc'
      using that by (cases loc') (auto simp: get_entry_def set_entry_def)
    show ?thesis
    proof (cases "get_entry_mut m t a 0 d")
      case (Inl p)
      then have "fst p \<noteq> (x, i)" using leaf_not_inner [OF assms(1) assms(2) [unfolded loc]] by (cases p) auto
      then show ?thesis using False tree loc Inl same [of "fst p"] by (simp add: walk_def split_beta)
    next
      case (Inr loc')
      then have "loc' \<noteq> (x, i)" using get_entry_inj [OF assms(1)] assms(2) loc False by blast
      then show ?thesis using False tree loc Inr same by (simp add: walk_def)
    qed
  qed
qed

section \<open>A new table\<close>

lemma walk_Suc:
  "walk m t (Suc d) a = (let e = m t (pt_index (Suc d) a) in
     if is_table e then walk m (pte_ppn e) d a else if is_leaf e then Some (Suc d, e) else None)"
  by (simp add: walk_def Let_def get_entry_def)

lemma empty_table:
  assumes "m f = (\<lambda>_. 0)"
  shows "tables m f d = [f]" and "walk m f d a = None"
    and "get_entry_mut m f a 0 d = (if d = 0 then Inr (f, pt_index 0 a) else Inl ((f, pt_index d a), d))"
  using assms by (cases d; simp add: walk_def get_entry_def Let_def)+

lemma distinct_concat_map:
  "distinct xs \<Longrightarrow> distinct (concat (map g xs)) \<longleftrightarrow>
    (\<forall>i \<in> set xs. distinct (g i)) \<and> (\<forall>i \<in> set xs. \<forall>j \<in> set xs. i \<noteq> j \<longrightarrow> set (g i) \<inter> set (g j) = {})"
  by (induction xs) (auto, blast+)

definition children :: "phys_mem \<Rightarrow> ppn \<Rightarrow> nat \<Rightarrow> nat \<Rightarrow> ppn list" where
  "children m t d i = (if is_table (m t i) then tables m (pte_ppn (m t i)) d else [])"

lemma tables_Suc: "tables m t (Suc d) = t # concat (map (children m t d) [0..<512])"
  by (simp add: children_def [abs_def])

lemma distinct_tables_Suc:
  "distinct (tables m t (Suc d)) \<longleftrightarrow> (\<forall>i < 512. t \<notin> set (children m t d i) \<and> distinct (children m t d i))
    \<and> (\<forall>i < 512. \<forall>j < 512. i \<noteq> j \<longrightarrow> set (children m t d i) \<inter> set (children m t d j) = {})"
  unfolding tables_Suc distinct.simps distinct_concat_map [OF distinct_upt]
  by (simp add: Ball_def) blast

lemma set_tables_Suc: "set (tables m t (Suc d)) = insert t (\<Union>i < 512. set (children m t d i))"
  unfolding tables_Suc by (auto simp: lessThan_def)

text \<open>A tree in which one child has got a new table.\<close>

lemma tables_grow:
  assumes "distinct (tables m t (Suc d))" and "f \<notin> set (tables m t (Suc d))" and "j < 512"
    and "\<And>i. i < 512 \<Longrightarrow> i \<noteq> j \<Longrightarrow> children m' t d i = children m t d i"
    and "distinct (children m' t d j)" and "set (children m' t d j) = insert f (set (children m t d j))"
  shows "distinct (tables m' t (Suc d)) \<and> set (tables m' t (Suc d)) = insert f (set (tables m t (Suc d)))"
proof -
  let ?c = "\<lambda>i. set (children m t d i)" and ?c' = "\<lambda>i. set (children m' t d i)"
  have c': "?c' i = (if i = j then insert f (?c j) else ?c i)" if "i < 512" for i using assms(4,6) that by auto
  have f: "f \<noteq> t" "f \<notin> ?c i" if "i < 512" for i using assms(2) that unfolding set_tables_Suc by auto
  have "t \<notin> ?c' i \<and> distinct (children m' t d i)" if "i < 512" for i
    using assms(1,3,4,5) c' [OF that] f [OF assms(3)] that unfolding distinct_tables_Suc by (cases "i = j") auto
  moreover have "?c' i \<inter> ?c' k = {}" if "i < 512" "k < 512" "i \<noteq> k" for i k
    using assms(1,3) c' [OF that(1)] c' [OF that(2)] f(2) that unfolding distinct_tables_Suc by auto
  ultimately have "distinct (tables m' t (Suc d))" unfolding distinct_tables_Suc by blast
  moreover have "(\<Union>i < 512. ?c' i) = insert f (\<Union>i < 512. ?c i)" using c' assms(3) by (auto split: if_splits)
  then have "set (tables m' t (Suc d)) = insert f (set (tables m t (Suc d)))" unfolding set_tables_Suc by auto
  ultimately show ?thesis ..
qed

lemma new_table_tree:
  assumes "distinct (tables m t d)" and "f \<notin> set (tables m t d)" and "get_entry_mut m t v 0 d = Inl ((x, i), k)"
    and "\<not> is_present (m x i)" and e: "is_table e" "pte_ppn e = f"
    and m': "m' = set_entry (x, i) e (clear_page m f)"
  shows "distinct (tables m' t d) \<and> set (tables m' t d) = insert f (set (tables m t d))
    \<and> (\<forall>a. walk m' t d a = walk m t d a) \<and> 0 < k
    \<and> get_entry_mut m' t v 0 d = (if k = 1 then Inr (f, pt_index 0 v) else Inl ((f, pt_index (k - 1) v), k - 1))"
  using assms(1-4)
proof (induction d arbitrary: t)
  case (Suc d)
  let ?v = "pt_index (Suc d) v"
  have x: "x \<in> set (tables m t (Suc d))" using get_entry_in_tables(2) [OF Suc.prems(3)] .
  then have ne: "x \<noteq> f" "t \<noteq> f" using Suc.prems(2) tables_head [of t m "Suc d"] by blast+
  have f0: "m' f = (\<lambda>_. 0)" using ne by (simp add: m' set_entry_def clear_page_def)
  have other: "m' y = m y" if "y \<noteq> x" "y \<noteq> f" for y using that by (simp add: m' set_entry_def clear_page_def)
  have notin: "f \<notin> set (children m t d j)" if "j < 512" for j
    using Suc.prems(2) that unfolding set_tables_Suc by blast
  have keep: "children m' t d j = children m t d j \<and> (is_table (m t j) \<longrightarrow>
      (\<forall>a. walk m' (pte_ppn (m t j)) d a = walk m (pte_ppn (m t j)) d a))"
    if j: "j < 512" "m' t j = m t j" and "x \<notin> set (children m t d j)" for j
  proof (cases "is_table (m t j)")
    case True
    have same: "m' y = m y" if "y \<in> set (tables m (pte_ppn (m t j)) d)" for y
      using that other [of y] True notin [OF j(1)] \<open>x \<notin> set (children m t d j)\<close> by (auto simp: children_def)
    then show ?thesis using tables_cong [OF same] walk_cong [OF same] j(2) by (simp add: children_def)
  qed (use j in \<open>simp add: children_def\<close>)
  show ?case
  proof (cases "is_table (m t ?v)")
    case True
    let ?c = "pte_ppn (m t ?v)"
    have g: "get_entry_mut m ?c v 0 d = Inl ((x, i), k)" using True Suc.prems(3) by (simp add: Let_def)
    have xc: "x \<in> set (children m t d ?v)" using get_entry_in_tables(2) [OF g] True by (simp add: children_def)
    have cd: "distinct (tables m ?c d)" "t \<notin> set (children m t d ?v)"
      and disj: "\<And>j. j < 512 \<Longrightarrow> j \<noteq> ?v \<Longrightarrow> x \<notin> set (children m t d j)"
      using Suc.prems(1) pt_index_less [of "Suc d" v] True xc unfolding distinct_tables_Suc
      by (auto simp: children_def)
    have t: "m' t = m t" using other [of t] xc cd(2) ne(2) by auto
    have IH: "distinct (tables m' ?c d)" "set (tables m' ?c d) = insert f (set (tables m ?c d))"
      "\<forall>a. walk m' ?c d a = walk m ?c d a" "0 < k"
      "get_entry_mut m' ?c v 0 d = (if k = 1 then Inr (f, pt_index 0 v) else Inl ((f, pt_index (k - 1) v), k - 1))"
      using Suc.IH [OF cd(1) _ g Suc.prems(4)] notin [of ?v] pt_index_less [of "Suc d" v] True
      by (auto simp: children_def)
    have "distinct (tables m' t (Suc d)) \<and> set (tables m' t (Suc d)) = insert f (set (tables m t (Suc d)))"
      using Suc.prems(1,2) pt_index_less keep disj t IH(1,2) True
      by (intro tables_grow [where j = ?v]) (auto simp: children_def)
    moreover have "walk m' t (Suc d) a = walk m t (Suc d) a" for a
      using keep [of "pt_index (Suc d) a"] disj [of "pt_index (Suc d) a"] pt_index_less t IH(3)
      by (cases "pt_index (Suc d) a = ?v") (auto simp: walk_Suc Let_def)
    ultimately show ?thesis using IH(4,5) True t by (auto simp: Let_def)
  next
    case False
    then have xt: "x = t" "i = ?v" "k = Suc d" using Suc.prems(3) by (auto simp: Let_def)
    have t: "m' t j = (if j = ?v then e else m t j)" for j using xt ne by (simp add: m' set_entry_def clear_page_def)
    have disj: "x \<notin> set (children m t d j)" if "j < 512" for j
      using Suc.prems(1) that xt(1) unfolding distinct_tables_Suc by blast
    have "distinct (tables m' t (Suc d)) \<and> set (tables m' t (Suc d)) = insert f (set (tables m t (Suc d)))"
      using Suc.prems(1,2) pt_index_less keep disj t False e empty_table(1) [of m' f, OF f0]
      by (intro tables_grow [where j = ?v]) (auto simp: children_def)
    moreover have "walk m' t (Suc d) a = walk m t (Suc d) a" for a
      using keep [of "pt_index (Suc d) a"] disj pt_index_less t e empty_table(2) [of m' f, OF f0] Suc.prems(4) xt False
      by (cases "pt_index (Suc d) a = ?v") (auto simp: walk_Suc Let_def present_cases)
    ultimately show ?thesis using t e xt empty_table(3) [of m' f, OF f0] by (auto simp: Let_def)
  qed
qed simp

section \<open>Mapping a page\<close>

text \<open>The tables of an address space are distinct frames, none of which is free.\<close>

definition pt_inv :: "ppn \<Rightarrow> mem_state \<Rightarrow> bool" where
  "pt_inv root s \<longleftrightarrow> chain_inv s \<and> distinct (tables (snd s) root 3)
     \<and> set (tables (snd s) root 3) \<inter> set (free_frames s) = {}"

definition steps_left :: "phys_mem \<Rightarrow> ppn \<Rightarrow> u64 \<Rightarrow> nat" where
  "steps_left m root v = (case get_entry_mut m root v 0 3 of Inr _ \<Rightarrow> 0 | Inl (_, k) \<Rightarrow> k)"

lemma get_entry_Inl_not_table:
  "get_entry_mut m t a 0 d = Inl (loc, k) \<Longrightarrow> \<not> is_table (get_entry m loc) \<and> 0 < k \<and> k \<le> d"
  by (induction d arbitrary: t) (auto simp: Let_def get_entry_def le_SucI split: if_splits)

lemma steps_left_bound: "steps_left m root v \<le> 3"
  using get_entry_Inl_not_table [of m root v 3] by (auto simp: steps_left_def split: sum.splits)

lemma make_table_ok:
  assumes "pt_inv root s" and "get_entry_mut (snd s) root v 0 3 = Inl (loc, k)" and "\<not> is_present (get_entry (snd s) loc)"
    and "free_frames s = f # fs"
  shows "\<exists>s'. make_table loc user s = Some (Inr f, s') \<and> pt_inv root s' \<and> free_frames s' = fs
    \<and> set (tables (snd s') root 3) = insert f (set (tables (snd s) root 3))
    \<and> (\<forall>a. walk (snd s') root 3 a = walk (snd s) root 3 a) \<and> Suc (steps_left (snd s') root v) = k"
proof -
  obtain c m where s: "s = (c, m)" by fastforce
  obtain x i where loc: "loc = (x, i)" by fastforce
  have "1 \<le> length (free_frames s)" by (simp add: assms(4) del: length_free_frames)
  then obtain c' where al: "allocate 1 s = Some (Inr [f], c', m)" "free_frames (c', m) = fs"
    using allocate_spec [of 1 s] assms(4) s by (auto simp del: length_free_frames)
  let ?m = "set_entry loc (table_entry f user) (clear_page m f)"
  note inv = assms(1) [unfolded pt_inv_def s chain_inv_def]
  have f: "f \<notin> set (tables m root 3)" "f \<notin> set fs" using inv assms(4) s by auto
  note g = assms(2) [unfolded s loc, simplified]
  note tree = new_table_tree [OF _ f(1) g _ table_entry_facts(1,2) refl, of user]
  have x: "x \<in> set (tables m root 3)" using get_entry_in_tables(2) [OF g] .
  then have xf: "x \<noteq> f" "x \<notin> set fs" using f inv assms(4) s by auto
  have ff: "free_frames (c', ?m) = fs"
    using al(2) f(2) xf loc by (intro trans [OF free_frames_cong al(2)]) (auto simp: set_entry_def clear_page_def)
  have np: "\<not> is_present (m x i)" using assms(3) s loc by (simp add: get_entry_def)
  have t: "distinct (tables ?m root 3)" "set (tables ?m root 3) = insert f (set (tables m root 3))"
    "\<forall>a. walk ?m root 3 a = walk m root 3 a"
    "get_entry_mut ?m root v 0 3 = (if k = 1 then Inr (f, pt_index 0 v) else Inl ((f, pt_index (k - 1) v), k - 1))" "0 < k"
    using tree inv np loc by auto
  have "make_table loc user s = Some (Inr f, c', ?m)"
    using al(1) assms(3) s np xf loc
    by (simp add: make_table_def new_table_def present_cases nth_opt_def get_entry_def clear_page_def)
  moreover have "pt_inv root (c', ?m)"
    using t inv ff f assms(4) s by (auto simp: pt_inv_def chain_inv_def)
  moreover have "Suc (steps_left ?m root v) = k" using t(4,5) by (simp add: steps_left_def)
  ultimately show ?thesis using t ff s by (intro exI [of _ "(c', ?m)"]) auto
qed

definition map_entry :: "map_args \<Rightarrow> ppn \<Rightarrow> u64" where
  "map_entry a p = page_entry p (ma_user a) (ma_writeable a) (ma_write_combining a) (ma_global a)"

definition map_page_post ::
  "ppn \<Rightarrow> map_args \<Rightarrow> u64 \<Rightarrow> ppn \<Rightarrow> mem_state \<Rightarrow> PtMapError + unit \<Rightarrow> mem_state \<Rightarrow> bool" where
  "map_page_post root a v p s r s' \<longleftrightarrow> pt_inv root s'
     \<and> (\<exists>used. free_frames s = used @ free_frames s' \<and> length used \<le> steps_left (snd s) root v
         \<and> set (tables (snd s') root 3) = set used \<union> set (tables (snd s) root 3))
     \<and> (r = Inr () \<and> (\<forall>b. walk (snd s') root 3 b = (if same_page 3 b v then Some (0, map_entry a p) else walk (snd s) root 3 b))
        \<or> r = Inl PtOutOfFrames \<and> free_frames s' = [] \<and> length (free_frames s) < steps_left (snd s) root v
          \<and> (\<forall>b. walk (snd s') root 3 b = walk (snd s) root 3 b))"

lemma map_page_Inr:
  assumes "pt_inv root s" and "walk (snd s) root 3 v = None" and "get_entry_mut (snd s) root v 0 3 = Inr loc"
  shows "\<exists>r s'. map_page root a v p s = Some (r, s') \<and> map_page_post root a v p s r s'"
proof -
  obtain c m where s: "s = (c, m)" by fastforce
  obtain x i where loc: "loc = (x, i)" by fastforce
  have np: "\<not> is_present (get_entry m loc)" using assms(2,3) s by (simp add: walk_def split: if_splits)
  let ?m = "set_entry loc (map_entry a p) m"
  have map: "map_page root a v p s = Some (Inr (), c, ?m)"
    using assms(3) s np map_page.simps [of root a v p s]
    by (simp add: set_page_def map_entry_def present_cases Let_def)
  note inv = assms(1) [unfolded pt_inv_def chain_inv_def s snd_conv]
  note g = assms(3) [unfolded s loc snd_conv]
  have tree: "tables ?m root 3 = tables m root 3"
    using set_leaf_tree [OF _ g refl] inv loc by blast
  have "x \<notin> set (free_frames s)" using get_entry_in_tables(1) [OF g] inv s by blast
  then have ff: "free_frames (c, ?m) = free_frames s"
    using s loc free_frames_cong [of c m "set_entry (x, i) (map_entry a p) m"] by (force simp: set_entry_def)
  have "\<forall>b. walk ?m root 3 b = (if same_page 3 b v then Some (0, map_entry a p) else walk m root 3 b)"
    using set_leaf_walk [OF _ assms(3) [unfolded s snd_conv], of "map_entry a p"] inv
    by (auto simp: map_entry_def) (metis entry_zero(3) page_entry_facts(1))
  then show ?thesis
    using map tree ff inv s by (intro exI [of _ "Inr ()"] exI [of _ "(c, ?m)"])
      (auto simp: map_page_post_def pt_inv_def chain_inv_def)
qed

lemma map_page_spec:
  assumes "pt_inv root s" and "walk (snd s) root 3 v = None"
  shows "\<exists>r s'. map_page root a v p s = Some (r, s') \<and> map_page_post root a v p s r s'"
  using assms
proof (induction "steps_left (snd s) root v" arbitrary: s)
  case 0
  then obtain loc where "get_entry_mut (snd s) root v 0 3 = Inr loc"
    using get_entry_Inl_not_table [of "snd s" root v 3]
    by (fastforce simp: steps_left_def split: sum.splits)
  with 0(2,3) show ?case by (rule map_page_Inr)
next
  case (Suc k)
  then obtain loc where g: "get_entry_mut (snd s) root v 0 3 = Inl (loc, Suc k)"
    by (auto simp: steps_left_def split: sum.splits)
  have np: "\<not> is_present (get_entry (snd s) loc)"
    using Suc.prems(2) g get_entry_Inl_not_table [OF g] by (auto simp: walk_def present_cases split: if_splits)
  show ?case
  proof (cases "free_frames s")
    case Nil
    then have "make_table loc (ma_user a) s = Some (Inl MakeOutOfFrames, s)"
      using np allocate_spec [of 1 s] by (auto simp: make_table_def present_cases)
    then have "map_page root a v p s = Some (Inl PtOutOfFrames, s)"
      using g map_page.simps [of root a v p s] by simp
    then show ?thesis using Nil Suc.prems(1) Suc.hyps(2) [symmetric] by (auto simp: map_page_post_def)
  next
    case (Cons f fs)
    obtain s1 where s1: "make_table loc (ma_user a) s = Some (Inr f, s1)" "pt_inv root s1" "free_frames s1 = fs"
      "set (tables (snd s1) root 3) = insert f (set (tables (snd s) root 3))"
      "\<forall>b. walk (snd s1) root 3 b = walk (snd s) root 3 b" "k = steps_left (snd s1) root v"
      using make_table_ok [OF Suc.prems(1) g np Cons, of "ma_user a"] by (auto dest!: sym [of "steps_left _ _ _"])
    obtain r s' where r: "map_page root a v p s1 = Some (r, s')" "map_page_post root a v p s1 r s'"
      using Suc.hyps(1) [OF s1(6,2)] s1(5) Suc.prems(2) by auto
    obtain used where u: "fs = used @ free_frames s'" "length used \<le> k"
        "set (tables (snd s') root 3) = set used \<union> set (tables (snd s1) root 3)"
      using r(2) s1(3,6) by (auto simp: map_page_post_def)
    have "map_page root a v p s = Some (r, s')"
      using g s1(1) r(1) map_page.simps [of root a v p s] by simp
    moreover have "map_page_post root a v p s r s'"
      using r(2) s1(3-6) u Cons Suc.hyps(2) [symmetric]
      by (auto simp: map_page_post_def intro!: exI [of _ "f # used"])
    ultimately show ?thesis by blast
  qed
qed

section \<open>Page numbers\<close>

text \<open>The 36 bits of an address that select a page, and the distance of two pages.\<close>

definition vpage :: "u64 \<Rightarrow> 36 word" where
  "vpage a = ucast (drop_bit 12 a)"

definition page_off :: "u64 \<Rightarrow> u64 \<Rightarrow> nat" where
  "page_off v b = unat (vpage b - vpage v)"

lemma bit_vpage: "bit (vpage a) n \<longleftrightarrow> n < 36 \<and> bit a (12 + n)"
  by (auto simp: vpage_def bit_ucast_iff bit_drop_bit_eq)

lemma pt_index_eq_iff:
  "pt_index k a = pt_index k b \<longleftrightarrow> (\<forall>n < 9. bit a (12 + k * 9 + n) = bit b (12 + k * 9 + n))"
proof -
  have m9: "(0x1ff :: u64) = mask 9" by (simp add: mask_eq_exp_minus_1)
  have "pt_index k a = pt_index k b \<longleftrightarrow> take_bit 9 (drop_bit (12 + k * 9) a) = take_bit 9 (drop_bit (12 + k * 9) b)"
    unfolding pt_index_def m9 take_bit_eq_mask by (rule word_unat_eq_iff [symmetric])
  also have "\<dots> \<longleftrightarrow> (\<forall>n < 9. bit a (12 + k * 9 + n) = bit b (12 + k * 9 + n))"
  proof
    assume L: "take_bit 9 (drop_bit (12 + k * 9) a) = take_bit 9 (drop_bit (12 + k * 9) b)"
    show "\<forall>n < 9. bit a (12 + k * 9 + n) = bit b (12 + k * 9 + n)"
    proof (intro allI impI)
      fix n :: nat assume "n < 9"
      then show "bit a (12 + k * 9 + n) = bit b (12 + k * 9 + n)"
        using arg_cong [OF L, of "\<lambda>w. bit w n"] by (simp add: bit_take_bit_iff bit_drop_bit_eq)
    qed
  qed (rule bit_word_eqI, auto simp: bit_take_bit_iff bit_drop_bit_eq)
  finally show ?thesis .
qed

lemma same_page_iff: "same_page 3 a b \<longleftrightarrow> vpage a = vpage b"
proof
  assume s: "same_page 3 a b"
  show "vpage a = vpage b"
  proof (rule bit_word_eqI)
    fix n assume "n < LENGTH(36)"
    then have "n div 9 \<le> 3" by simp
    with s have "pt_index (n div 9) a = pt_index (n div 9) b" by (simp add: same_page_def)
    then have "bit a (12 + n div 9 * 9 + n mod 9) = bit b (12 + n div 9 * 9 + n mod 9)"
      unfolding pt_index_eq_iff by (elim allE [of _ "n mod 9"] impE) simp_all
    then show "bit (vpage a) n = bit (vpage b) n" by (simp add: bit_vpage add.assoc)
  qed
next
  assume v: "vpage a = vpage b"
  have "bit a (12 + k * 9 + n) = bit b (12 + k * 9 + n)" if "k \<le> 3" "n < 9" for k n
    using arg_cong [OF v, of "\<lambda>w. bit w (k * 9 + n)"] that by (simp add: bit_vpage add.assoc)
  then show "same_page 3 a b" by (simp add: same_page_def pt_index_eq_iff)
qed

lemma unat_vpage: "unat (vpage a) = unat a div 4096 mod 2 ^ 36"
  by (simp add: vpage_def unsigned_ucast_eq take_bit_eq_mod drop_bit_eq_div unat_div)

lemma vpage_next: "vpage (a + 4096) = vpage a + 1"
proof -
  have "(unat a + 4096) mod 2 ^ 64 div 4096 mod 2 ^ 36 = (unat a div 4096 + 1) mod (2 ^ 36 :: nat)"
  proof (cases "unat a + 4096 < 2 ^ 64")
    case False
    moreover have "unat a < 2 ^ 64" using unat_bound [of a] by simp
    ultimately have "(unat a + 4096) mod 2 ^ 64 = unat a + 4096 - 2 ^ 64"
      by (simp add: mod_if)
    moreover have "(unat a + 4096 - 2 ^ 64) div 4096 = unat a div 4096 + 1 - 2 ^ 52"
      using False by simp
    moreover have "(unat a div 4096 + 1 - 2 ^ 52) mod 2 ^ 36 = (unat a div 4096 + 1) mod (2 ^ 36 :: nat)"
    proof -
      have le: "2 ^ 52 \<le> unat a div 4096 + (1 :: nat)" using False by simp
      have "(unat a div 4096 + 1) mod 2 ^ 36 = ((unat a div 4096 + 1 - 2 ^ 52) + 2 ^ 16 * 2 ^ 36) mod (2 ^ 36 :: nat)"
        using le by simp
      then show ?thesis by (simp only: mod_mult_self1)
    qed
    ultimately show ?thesis by simp
  next
    case True
    then have "(unat a + 4096) mod 2 ^ 64 div 4096 = unat a div 4096 + 1" by simp
    then show ?thesis by (simp only:)
  qed
  then show ?thesis
    by (simp add: word_unat_eq_iff unat_vpage unat_word_ariths mod_simps)
qed

lemma vpage_add: "vpage (a + of_nat i * 4096) = vpage a + of_nat i"
proof (induction i)
  case (Suc i)
  then show ?case using vpage_next [of "a + of_nat i * 4096"] by (simp add: algebra_simps)
qed simp

lemma page_off_add: "i < 2 ^ 36 \<Longrightarrow> page_off v (v + of_nat i * 4096) = i"
  by (simp add: page_off_def vpage_add unat_of_nat_small)

lemma page_off_0: "page_off v b = 0 \<longleftrightarrow> same_page 3 b v"
  by (simp add: page_off_def same_page_iff unat_eq_0)

lemma page_off_next:
  "page_off (v + 4096) b = (if page_off v b = 0 then 2 ^ 36 - 1 else page_off v b - 1)"
proof (cases "page_off v b = 0")
  case True
  then have "vpage b - vpage (v + 4096) = - 1" by (simp add: page_off_def vpage_next unat_eq_0)
  then show ?thesis using True by (simp add: page_off_def unsigned_minus_1_eq_mask mask_eq_exp_minus_1)
next
  case False
  then have "vpage b - vpage v \<noteq> 0" by (auto simp: page_off_def)
  then show ?thesis using False unat_minus_one [of "vpage b - vpage v"] by (simp add: page_off_def vpage_next algebra_simps)
qed

section \<open>Ranges of pages\<close>

lemma map_pages_spec:
  assumes "pt_inv root s" and "length ps \<le> 2 ^ 36" and "\<forall>b. page_off v b < length ps \<longrightarrow> walk (snd s) root 3 b = None"
  shows "\<exists>r s' n. map_pages root a v ps s = Some (r, s') \<and> pt_inv root s' \<and> n \<le> length ps
    \<and> (r = Inr () \<and> n = length ps \<or> r = Inl PtOutOfFrames \<and> n < length ps \<and> length (free_frames s) < 3 * length ps)
    \<and> length (free_frames s) \<le> length (free_frames s') + 3 * length ps
    \<and> (\<forall>b. walk (snd s') root 3 b =
        (if page_off v b < n then Some (0, map_entry a (ps ! page_off v b)) else walk (snd s) root 3 b))"
  using assms
proof (induction ps arbitrary: v s)
  case Nil
  then show ?case by (auto intro!: exI [of _ "Inr ()"] exI [of _ s])
next
  case (Cons p ps)
  have "walk (snd s) root 3 v = None" using Cons.prems(3) page_off_add [of 0 v] by simp
  from map_page_spec [OF Cons.prems(1) this, of a p] obtain r s1 where map: "map_page root a v p s = Some (r, s1)"
    and post: "map_page_post root a v p s r s1" by blast
  note post = post [unfolded map_page_post_def page_off_0 [symmetric]]
  obtain used where used: "free_frames s = used @ free_frames s1" "length used \<le> 3"
    using post steps_left_bound [of "snd s" root v] by (meson le_trans)
  have r: "map_page root a v p s = Some (r, s1)" "pt_inv root s1" "free_frames s = used @ free_frames s1" "length used \<le> 3"
    "r = Inr () \<and> (\<forall>b. walk (snd s1) root 3 b = (if page_off v b = 0 then Some (0, map_entry a p) else walk (snd s) root 3 b))
      \<or> r = Inl PtOutOfFrames \<and> free_frames s1 = [] \<and> (\<forall>b. walk (snd s1) root 3 b = walk (snd s) root 3 b)
        \<and> length (free_frames s) < 3"
    using map post used steps_left_bound [of "snd s" root v] by (blast, blast, blast, blast, meson less_le_trans)
  then have u: "length (free_frames s) = length used + length (free_frames s1)" by (metis length_append)
  show ?case
  proof (cases r)
    case (Inl e)
    then show ?thesis using r u by (intro exI [of _ r] exI [of _ s1] exI [of _ 0]) auto
  next
    case (Inr x)
    have w: "walk (snd s1) root 3 b = (if page_off v b = 0 then Some (0, map_entry a p) else walk (snd s) root 3 b)" for b
      using r(5) Inr by auto
    have off: "page_off (v + 4096) b < n \<longleftrightarrow> 0 < page_off v b \<and> page_off v b < Suc n" if "n \<le> length ps" for b n
      using page_off_next [of v b] Cons.prems(2) that by auto
    have "\<forall>b. page_off (v + 4096) b < length ps \<longrightarrow> walk (snd s1) root 3 b = None"
      using off Cons.prems(3) w by simp
    moreover have "length ps \<le> 2 ^ 36" using Cons.prems(2) by simp
    ultimately obtain r' s' n where IH: "map_pages root a (v + 4096) ps s1 = Some (r', s')"
      "pt_inv root s'" "n \<le> length ps"
      "r' = Inr () \<and> n = length ps \<or> r' = Inl PtOutOfFrames \<and> n < length ps \<and> length (free_frames s1) < 3 * length ps"
      "length (free_frames s1) \<le> length (free_frames s') + 3 * length ps"
      "\<forall>b. walk (snd s') root 3 b = (if page_off (v + 4096) b < n then Some (0, map_entry a (ps ! page_off (v + 4096) b))
        else walk (snd s1) root 3 b)" using Cons.IH [OF r(2)] by blast
    have "map_pages root a v (p # ps) s = Some (r', s')" using r(1) Inr IH(1) by simp
    moreover have "walk (snd s') root 3 b = (if page_off v b < Suc n then Some (0, map_entry a ((p # ps) ! page_off v b))
        else walk (snd s) root 3 b)" for b
      using IH(6) off [OF IH(3), of b] w [of b] page_off_next [of v b] by (auto simp: nth_Cons')
    moreover have "r' = Inr () \<and> Suc n = length (p # ps) \<or> r' = Inl PtOutOfFrames \<and> Suc n < length (p # ps)
        \<and> length (free_frames s) < 3 * length (p # ps)" using IH(4) u r(4) by auto
    ultimately show ?thesis using IH(2,3,5) u r(4)
      by (intro exI [of _ r'] exI [of _ s'] exI [of _ "Suc n"]) auto
  qed
qed

lemma walk_0_entry:
  assumes "walk m root 3 v = Some (0, e)"
  obtains loc where "get_entry_mut m root v 0 3 = Inr loc" and "get_entry m loc = e" and "is_present e"
  using assms get_entry_Inl_not_table [of m root v 3]
  by (fastforce simp: walk_def split: sum.splits if_splits)

lemma unmap_pages_spec:
  assumes "distinct (tables m root 3)" and "n \<le> 2 ^ 36" and "\<forall>i < n. v + of_nat i * 4096 \<noteq> 0"
    and "\<forall>b. page_off v b < n \<longrightarrow> (\<exists>e. walk m root 3 b = Some (0, e))"
  shows "\<exists>m'. unmap_pages root v n m = Some (Inr (), m') \<and> tables m' root 3 = tables m root 3
    \<and> (\<forall>x. x \<notin> set (tables m root 3) \<longrightarrow> m' x = m x)
    \<and> (\<forall>b. walk m' root 3 b = (if page_off v b < n then None else walk m root 3 b))"
  using assms
proof (induction n arbitrary: v m)
  case (Suc n)
  have v: "v \<noteq> 0" using Suc.prems(3) by (metis add_0_right mult_zero_left of_nat_0 zero_less_Suc)
  obtain e where "walk m root 3 v = Some (0, e)" using Suc.prems(4) page_off_add [of 0 v] by force
  then obtain x i where loc: "get_entry_mut m root v 0 3 = Inr (x, i)" "is_present (get_entry m (x, i))"
    using walk_0_entry by (metis surj_pair)
  let ?m = "set_entry (x, i) 0 m"
  have tree: "tables ?m root 3 = tables m root 3" using set_leaf_tree [OF Suc.prems(1) loc(1) refl] by blast
  have w: "walk ?m root 3 b = (if page_off v b = 0 then None else walk m root 3 b)" for b
    using set_leaf_walk [OF Suc.prems(1) loc(1), of 0 b] by (simp add: page_off_0)
  have off: "page_off (v + 4096) b < n \<longleftrightarrow> 0 < page_off v b \<and> page_off v b < Suc n" for b
    using page_off_next [of v b] Suc.prems(2) by auto
  have "\<forall>i < n. v + 4096 + of_nat i * 4096 \<noteq> 0"
    using Suc.prems(3) by (metis (no_types, lifting) Suc_less_eq add.assoc distrib_right mult_1 of_nat_Suc)
  moreover have "\<forall>b. page_off (v + 4096) b < n \<longrightarrow> (\<exists>e. walk ?m root 3 b = Some (0, e))"
    using off Suc.prems(4) w by simp
  ultimately obtain m' where m': "unmap_pages root (v + 4096) n ?m = Some (Inr (), m')" "tables m' root 3 = tables m root 3"
    "\<forall>y. y \<notin> set (tables m root 3) \<longrightarrow> m' y = ?m y"
    "\<forall>b. walk m' root 3 b = (if page_off (v + 4096) b < n then None else walk ?m root 3 b)"
    using Suc.IH [of ?m "v + 4096"] Suc.prems(1,2) tree by auto
  have "x \<in> set (tables m root 3)" using get_entry_in_tables(1) [OF loc(1)] .
  then have "\<forall>y. y \<notin> set (tables m root 3) \<longrightarrow> m' y = m y" using m'(3) by (auto simp: set_entry_def)
  moreover have "unmap_pages root v (Suc n) m = Some (Inr (), m')"
    using v loc m'(1) by (simp add: clear_entry_def Let_def)
  moreover have "\<forall>b. walk m' root 3 b = (if page_off v b < Suc n then None else walk m root 3 b)"
    using m'(4) off w by auto
  ultimately show ?case using m'(2) by blast
qed simp

text \<open>
  C27. Mapping a range of pages that were not mapped always returns. If it succeeds, exactly the pages
  of the range lead to the given frames, with the given permissions, and every other address
  leads where it led before; if the frames run out, the same holds of the pages before the one that
  failed. Tables are taken from free frames only, at most three for a page, and with that many free
  frames the mapping succeeds.
\<close>

theorem map_pages_correct:
  assumes "pt_inv root s" and "length ps \<le> 2 ^ 36" and "\<forall>b. page_off v b < length ps \<longrightarrow> walk (snd s) root 3 b = None"
  shows "\<exists>r s' n. map_pages root a v ps s = Some (r, s') \<and> pt_inv root s' \<and> n \<le> length ps
    \<and> (r = Inr () \<and> n = length ps \<or> r = Inl PtOutOfFrames \<and> n < length ps \<and> length (free_frames s) < 3 * length ps)
    \<and> length (free_frames s) \<le> length (free_frames s') + 3 * length ps
    \<and> (\<forall>b. walk (snd s') root 3 b =
        (if page_off v b < n then Some (0, map_entry a (ps ! page_off v b)) else walk (snd s) root 3 b))"
  by (rule map_pages_spec [OF assms])

text \<open>A memory with an empty table in frame 0 and the frames 1, 2, 3 free.\<close>

definition pt_example :: mem_state where
  "pt_example = (\<lparr>ch_head = 1, ch_count = 3\<rparr>, (\<lambda>p i. if i = 0 then (if p = 1 then 2 else if p = 2 then 3 else 0) else 0))"

lemma pt_example_frames: "free_frames pt_example = [1, 2, 3]"
proof -
  have "cells f h 3 = [h, f h, f (f h)]" for f :: "ppn \<Rightarrow> ppn" and h by (simp add: numeral_3_eq_3)
  then show ?thesis by (simp add: pt_example_def free_frames_def read_ppn_def)
qed

lemma pt_example_inv: "pt_inv 0 pt_example" and pt_example_walk: "walk (snd pt_example) 0 3 b = None"
proof -
  have z: "snd pt_example 0 = (\<lambda>_. 0)" by (simp add: pt_example_def)
  show "pt_inv 0 pt_example"
    using empty_table(1) [of "snd pt_example" 0 3, OF z] pt_example_frames by (simp add: pt_inv_def chain_inv_def)
  show "walk (snd pt_example) 0 3 b = None" by (rule empty_table(2)) (rule z)
qed

definition map_args_example :: map_args where
  "map_args_example = \<lparr>ma_writeable = True, ma_user = True, ma_write_combining = False, ma_global = False\<rparr>"

theorem map_pages_correct_witness:
  "\<exists>s'. map_pages 0 map_args_example 0x10000 [9] pt_example = Some (Inr (), s')
    \<and> walk (snd s') 0 3 0x10000 = Some (0, map_entry map_args_example 9)"
proof -
  have pre: "length [9 :: ppn] \<le> 2 ^ 36"
    "\<forall>b. page_off 0x10000 b < length [9 :: ppn] \<longrightarrow> walk (snd pt_example) 0 3 b = None"
    using pt_example_walk by simp_all
  from map_pages_correct [OF pt_example_inv pre, of map_args_example]
  obtain r s' n where m: "map_pages 0 map_args_example 0x10000 [9] pt_example = Some (r, s')"
    "r = Inr () \<and> n = length [9 :: ppn] \<or> r = Inl PtOutOfFrames \<and> n < length [9 :: ppn]
      \<and> length (free_frames pt_example) < 3 * length [9 :: ppn]"
    "\<forall>b. walk (snd s') 0 3 b = (if page_off 0x10000 b < n then Some (0, map_entry map_args_example ([9] ! page_off 0x10000 b))
      else walk (snd pt_example) 0 3 b)" by blast
  have "length (free_frames pt_example) = 3" unfolding pt_example_frames by simp
  with m(2) have "r = Inr ()" "n = 1" by auto
  then show ?thesis using m(1,3) page_off_add [of 0 "0x10000"] by (simp del: map_pages.simps)
qed

text \<open>
  C28. Unmapping a range that was mapped gives back the address space as it was: every address leads
  where it led before the mapping, and the tables remain well-formed.
\<close>

theorem map_unmap_roundtrip:
  assumes "pt_inv root s" and "length ps \<le> 2 ^ 36" and "\<forall>b. page_off v b < length ps \<longrightarrow> walk (snd s) root 3 b = None"
    and "\<forall>i < length ps. v + of_nat i * 4096 \<noteq> 0" and "map_pages root a v ps s = Some (Inr (), c, m)"
  shows "\<exists>m'. unmap_pages root v (length ps) m = Some (Inr (), m') \<and> pt_inv root (c, m')
    \<and> free_frames (c, m') = free_frames (c, m) \<and> (\<forall>b. walk m' root 3 b = walk (snd s) root 3 b)"
proof -
  have inv: "pt_inv root (c, m)" and w: "\<forall>b. walk m root 3 b =
      (if page_off v b < length ps then Some (0, map_entry a (ps ! page_off v b)) else walk (snd s) root 3 b)"
    using map_pages_spec [OF assms(1-3), of a] assms(5) by auto
  have dist: "distinct (tables m root 3)" and disj: "set (tables m root 3) \<inter> set (free_frames (c, m)) = {}"
    using inv by (simp_all add: pt_inv_def)
  have "\<forall>b. page_off v b < length ps \<longrightarrow> (\<exists>e. walk m root 3 b = Some (0, e))" using w by simp
  from unmap_pages_spec [OF dist assms(2,4) this] obtain m' where m': "unmap_pages root v (length ps) m = Some (Inr (), m')"
    "tables m' root 3 = tables m root 3" "\<forall>x. x \<notin> set (tables m root 3) \<longrightarrow> m' x = m x"
    "\<forall>b. walk m' root 3 b = (if page_off v b < length ps then None else walk m root 3 b)" by blast
  have ff: "free_frames (c, m') = free_frames (c, m)" using m'(3) disj by (intro free_frames_cong) blast
  moreover have "pt_inv root (c, m')" using inv m'(2) ff by (simp add: pt_inv_def chain_inv_def)
  moreover have "\<forall>b. walk m' root 3 b = walk (snd s) root 3 b" using m'(4) w assms(3) by auto
  ultimately show ?thesis using m'(1) by blast
qed

theorem map_unmap_roundtrip_witness:
  "\<exists>c m m'. map_pages 0 map_args_example 0x10000 [9] pt_example = Some (Inr (), c, m)
    \<and> unmap_pages 0 0x10000 1 m = Some (Inr (), m') \<and> walk m' 0 3 0x10000 = None"
proof -
  have len: "length (free_frames pt_example) = 3" unfolding pt_example_frames by simp
  have pre: "length [9 :: ppn] \<le> 2 ^ 36"
    "\<forall>b. page_off 0x10000 b < length [9 :: ppn] \<longrightarrow> walk (snd pt_example) 0 3 b = None"
    "\<forall>i < length [9 :: ppn]. (0x10000 :: u64) + of_nat i * 4096 \<noteq> 0"
    using pt_example_walk by simp_all
  from map_pages_spec [OF pt_example_inv pre(1,2), of map_args_example]
  obtain r s' n where m: "map_pages 0 map_args_example 0x10000 [9] pt_example = Some (r, s')"
    "r = Inr () \<or> length (free_frames pt_example) < 3 * length [9 :: ppn]" by blast
  then obtain c m where m': "map_pages 0 map_args_example 0x10000 [9] pt_example = Some (Inr (), c, m)"
    using len by (cases s') auto
  then show ?thesis
    using map_unmap_roundtrip [OF pt_example_inv pre m'] pt_example_walk by auto
qed

end
