(* ===== verification/Address_Space.thy ===== *)
theory Address_Space
  imports Page_Table
begin

text \<open>
  Address spaces: creating one and giving its tables back (\<open>kernel/src/arch/amd64/virtual/address_space.rs\<close>),
  and the objects that are mapped in it (\<open>kernel/src/memory/virtual/address_space.rs\<close>). A memory object is
  the chunks of frames it passes to the callback of \<open>physical_pages\<close> and its permissions.
\<close>

section \<open>Creating and dropping tables\<close>

definition VSYSCALL_DATA_USER_ADDR :: u64 where
  "VSYSCALL_DATA_USER_ADDR = 0x1000"

text \<open>\<open>cur\<close> is the root of the current address space, \<open>vs\<close> the frame of the vsyscall data.\<close>

definition as_new :: "ppn \<Rightarrow> ppn \<Rightarrow> mem_state \<Rightarrow> ((AllocateError + ppn) \<times> mem_state) panics" where
  "as_new cur vs s =
     do { (r, c, m) \<leftarrow> allocate 1 s;
          case r of
            Inl e \<Rightarrow> Some (Inl e, c, m)
          | Inr fs \<Rightarrow>
              do { root \<leftarrow> nth_opt fs 0;
                   let m = clear_page m root;
                   let m = m(root := (\<lambda>i. if 256 \<le> i \<and> i < 512 then m cur i else m root i));
                   (r, s) \<leftarrow> map_page root \<lparr>ma_writeable = rwx_w RWX_R, ma_user = True, ma_write_combining = False,
                     ma_global = True\<rparr> VSYSCALL_DATA_USER_ADDR vs (c, m);
                   case r of Inl _ \<Rightarrow> None | Inr _ \<Rightarrow> Some (Inr root, s) } }"

text \<open>
  \<open>dealloc\<close> follows the entries that are tables. The last level has none; the model counts the levels and
  is undefined if it finds a table there.
\<close>

fun as_dealloc :: "bool \<Rightarrow> nat \<Rightarrow> ppn \<Rightarrow> nat list \<Rightarrow> mem_state \<Rightarrow> mem_state panics" where
  "as_dealloc dbg 0 t is s = (if \<forall>i \<in> set is. as_table (snd s t i) = None then Some s else None)"
| "as_dealloc dbg (Suc d) t [] s = Some s"
| "as_dealloc dbg (Suc d) t (i # is) s =
     (case as_table (snd s t i) of
        None \<Rightarrow> as_dealloc dbg (Suc d) t is s
      | Some c \<Rightarrow> do { s \<leftarrow> as_dealloc dbg d c [0..<512] s; as_dealloc dbg (Suc d) t is (chain_push dbg c s) })"

definition as_drop :: "bool \<Rightarrow> ppn \<Rightarrow> mem_state \<Rightarrow> mem_state panics" where
  "as_drop dbg root s = as_dealloc dbg 3 root [0..<256] s"

text \<open>The tables below some entries, and that the tables of the last level point to no table.\<close>

fun kids :: "phys_mem \<Rightarrow> ppn \<Rightarrow> nat \<Rightarrow> nat \<Rightarrow> ppn list" where
  "kids m t 0 i = []"
| "kids m t (Suc d) i = children m t d i"

fun shallow :: "phys_mem \<Rightarrow> ppn \<Rightarrow> nat \<Rightarrow> nat list \<Rightarrow> bool" where
  "shallow m t 0 is = (\<forall>i \<in> set is. \<not> is_table (m t i))"
| "shallow m t (Suc d) is = (\<forall>i \<in> set is. is_table (m t i) \<longrightarrow> shallow m (pte_ppn (m t i)) d [0..<512])"

definition below :: "phys_mem \<Rightarrow> ppn \<Rightarrow> nat \<Rightarrow> nat list \<Rightarrow> ppn list" where
  "below m t d is = concat (map (kids m t d) is)"

lemma below_0 [simp]: "below m t 0 is = []"
  by (simp add: below_def)

lemma below_simps [simp]:
  "below m t d [] = []" "below m t (Suc d) (i # is) = children m t d i @ below m t (Suc d) is"
  by (simp_all add: below_def)

lemma tables_below: "tables m t d = t # below m t d [0..<512]"
proof (cases d)
  case (Suc d')
  then show ?thesis unfolding Suc tables_Suc below_def by (auto intro!: arg_cong [of _ _ concat])
qed simp

lemma set_below: "set is \<subseteq> {..<512} \<Longrightarrow> set (below m t d is) \<subseteq> set (below m t d [0..<512])"
  by (fastforce simp: below_def)

lemma below_cong:
  assumes "\<And>x. x \<in> insert t (set (below m t d is)) \<Longrightarrow> m' x = m x"
  shows "below m' t d is = below m t d is"
  using assms
proof (induction "is")
  case (Cons i "is")
  show ?case
  proof (cases d)
    case (Suc d')
    have t: "m' t = m t" using Cons.prems by simp
    have "children m' t d' i = children m t d' i"
      using Cons.prems t tables_cong [of m "pte_ppn (m t i)" d' m'] by (auto simp: children_def Suc)
    moreover have "below m' t d is = below m t d is" using Cons.prems by (intro Cons.IH) (auto simp: Suc)
    ultimately show ?thesis by (simp add: Suc)
  qed simp
qed simp

lemma shallow_cong:
  assumes "\<And>x. x \<in> insert t (set (below m t d is)) \<Longrightarrow> m' x = m x" and "shallow m t d is"
  shows "shallow m' t d is"
  using assms
proof (induction d arbitrary: t "is")
  case (Suc d)
  have t: "m' t = m t" using Suc.prems(1) by simp
  have "shallow m' (pte_ppn (m t i)) d [0..<512]" if i: "i \<in> set is" "is_table (m t i)" for i
  proof (rule Suc.IH)
    fix x assume "x \<in> insert (pte_ppn (m t i)) (set (below m (pte_ppn (m t i)) d [0..<512]))"
    then have "x \<in> set (children m t d i)" using i(2) by (auto simp: children_def tables_below)
    then show "m' x = m x" using i(1) Suc.prems(1) by (auto simp: below_def)
  qed (use Suc.prems(2) i in auto)
  then show ?case using t by simp
qed simp

text \<open>The tables are freed once each, and nothing else changes.\<close>

lemma as_dealloc_spec:
  assumes "chain_inv s" and "shallow (snd s) t d is" and "distinct (below (snd s) t d is)"
    and "t \<notin> set (below (snd s) t d is)" and "set (below (snd s) t d is) \<inter> set (free_frames s) = {}"
  shows "\<exists>s' fs. as_dealloc dbg d t is s = Some s' \<and> chain_inv s' \<and> free_frames s' = fs @ free_frames s
    \<and> set fs = set (below (snd s) t d is) \<and> (\<forall>x. x \<notin> set fs \<longrightarrow> snd s' x = snd s x)"
  using assms
proof (induction d arbitrary: t "is" s)
  case 0
  then show ?case by (auto simp: as_table_def)
next
  case (Suc d)
  show ?case using Suc.prems
  proof (induction "is" arbitrary: s)
    case (Cons i "is")
    let ?m = "snd s" and ?c = "pte_ppn (snd s t i)"
    show ?case
    proof (cases "is_table (?m t i)")
      case False
      then show ?thesis using Cons.IH [of s] Cons.prems by (simp add: as_table_def children_def)
    next
      case True
      have ch: "children ?m t d i = ?c # below ?m ?c d [0..<512]" using True by (simp add: children_def tables_below)
      let ?r = "set (below ?m t (Suc d) is)"
      have c: "distinct (below ?m ?c d [0..<512])" "?c \<notin> set (below ?m ?c d [0..<512])" "?c \<notin> ?r" "?c \<noteq> t"
        "set (below ?m ?c d [0..<512]) \<inter> ?r = {}" "t \<notin> set (below ?m ?c d [0..<512])"
        "?c \<notin> set (free_frames s)" "set (below ?m ?c d [0..<512]) \<inter> set (free_frames s) = {}"
        using Cons.prems(3-5) ch by auto
      obtain s1 fs where s1: "as_dealloc dbg d ?c [0..<512] s = Some s1" "chain_inv s1" "free_frames s1 = fs @ free_frames s"
        "set fs = set (below ?m ?c d [0..<512])" "\<forall>x. x \<notin> set fs \<longrightarrow> snd s1 x = ?m x"
        using Suc.IH [of s ?c "[0..<512]"] Cons.prems(1,2) True c by auto
      define s2 where "s2 = chain_push dbg ?c s1"
      have cf: "?c \<notin> set (free_frames s1)" using s1(3,4) c by auto
      have ff: "free_frames s2 = ?c # fs @ free_frames s" using free_frames_push [OF cf] s1(3) by (simp add: s2_def)
      have mem: "snd s2 x = ?m x" if "x \<notin> set (?c # fs)" for x
        using that s1(5) chain_push_mem [of x ?c dbg s1] by (simp add: s2_def)
      have same: "snd s2 x = ?m x" if "x \<in> insert t ?r" for x
        using mem [of x] that c s1(4) by auto
      have bc: "below (snd s2) t (Suc d) is = below ?m t (Suc d) is" using same by (rule below_cong)
      have sh: "shallow (snd s2) t (Suc d) is"
        using shallow_cong [of t ?m "Suc d" "is" "snd s2", OF same] Cons.prems(2) by simp
      have rest: "distinct (below ?m t (Suc d) is)" "t \<notin> ?r" "?r \<inter> set (free_frames s) = {}"
        using Cons.prems(3-5) by auto
      then have rest2: "?r \<inter> set (free_frames s2) = {}" unfolding ff using c(3,5) s1(4) by auto
      have "chain_inv s2" unfolding s2_def using chain_push_inv [OF s1(2) cf] .
      from Cons.IH [OF this sh, unfolded bc, OF rest(1,2) rest2]
      have "\<exists>s' fs'. as_dealloc dbg (Suc d) t is s2 = Some s' \<and> chain_inv s' \<and> free_frames s' = fs' @ free_frames s2
          \<and> set fs' = ?r \<and> (\<forall>x. x \<notin> set fs' \<longrightarrow> snd s' x = snd s2 x)" .
      then obtain s' fs' where s': "as_dealloc dbg (Suc d) t is s2 = Some s'" "chain_inv s'"
        "free_frames s' = fs' @ free_frames s2" "set fs' = ?r" "\<forall>x. x \<notin> set fs' \<longrightarrow> snd s' x = snd s2 x" by blast
      have "as_dealloc dbg (Suc d) t (i # is) s = Some s'" using True s1(1) s'(1) by (simp add: as_table_def s2_def)
      then show ?thesis
        using s' ff mem s1(4) ch by (intro exI [of _ s'] exI [of _ "fs' @ ?c # fs"]) auto
    qed
  qed simp
qed

text \<open>Every entry of a table is reached by some address.\<close>

lemma bit_pt_index: "bit (pt_index k a) n \<longleftrightarrow> n < 9 \<and> bit a (12 + k * 9 + n)"
proof -
  have m9: "(0x1ff :: u64) = mask 9" by (simp add: mask_eq_exp_minus_1)
  show ?thesis unfolding pt_index_def m9 by (auto simp: bit_unsigned_iff bit_and_iff bit_mask_iff bit_drop_bit_eq
      dest: bit_imp_le_length)
qed

lemma address_with_index:
  assumes "i < 512" and "l \<le> 3"
  shows "\<exists>a. pt_index l a = i \<and> (\<forall>k < l. pt_index k a = pt_index k b)"
proof -
  let ?p = "12 + l * 9"
  define a where "a = (b AND mask ?p) OR push_bit ?p (of_nat i)"
  have "take_bit 9 i = i" using assms(1) by (simp add: take_bit_nat_eq_self)
  then have "bit i n \<Longrightarrow> n < 9" for n by (metis bit_take_bit_iff)
  moreover have "l * 9 \<le> 27" using assms(2) by simp
  ultimately have i: "bit i n \<Longrightarrow> n < 9 \<and> l * 9 + n < 52" for n by fastforce
  have bits: "bit a n \<longleftrightarrow> (if n < ?p then bit b n else n < 64 \<and> bit i (n - ?p))" for n
    using assms(2) by (auto simp: a_def bit_or_iff bit_and_iff bit_mask_iff bit_push_bit_iff bit_of_nat_iff)
  have "pt_index l a = i"
    by (rule bit_eqI) (use i assms(2) in \<open>auto simp: bit_pt_index bits\<close>)
  moreover have "pt_index k a = pt_index k b" if "k < l" for k
  proof (rule bit_eqI)
    fix n
    have "k * 9 + n < l * 9" if "n < 9" using \<open>k < l\<close> that by linarith
    then show "bit (pt_index k a) n = bit (pt_index k b) n" by (auto simp: bit_pt_index bits)
  qed
  ultimately show ?thesis by blast
qed

lemma same_page_walk: "same_page d a b \<Longrightarrow> walk m t d a = walk m t d b"
  using same_page_get_entry [of d a b m t] by (simp add: walk_def)

lemma shallow_walk:
  assumes "\<And>a e. walk m t d a = Some (0, e) \<Longrightarrow> is_leaf e" and "d \<le> 3"
  shows "shallow m t d [0..<512]"
  using assms
proof (induction d arbitrary: t)
  case 0
  have "\<not> is_table (m t i)" if i: "i < 512" for i
  proof
    assume t: "is_table (m t i)"
    obtain a where "pt_index 0 a = i" using address_with_index [OF i, of 0] by blast
    then have "walk m t 0 a = Some (0, m t i)" using t by (simp add: walk_def get_entry_def is_table_present)
    from 0(1) [OF this] t show False by (simp add: is_table_def)
  qed
  then show ?case by simp
next
  case (Suc d)
  have "shallow m (pte_ppn (m t i)) d [0..<512]" if i: "i < 512" "is_table (m t i)" for i
  proof (rule Suc.IH)
    fix b e assume w: "walk m (pte_ppn (m t i)) d b = Some (0, e)"
    obtain a where a: "pt_index (Suc d) a = i" "same_page d a b"
      using address_with_index [OF i(1) Suc.prems(2), of b] unfolding same_page_def less_Suc_eq_le by blast
    then have "walk m t (Suc d) a = Some (0, e)" using i w same_page_walk [OF a(2)] by (simp add: walk_Suc)
    then show "is_leaf e" by (rule Suc.prems(1))
  qed (use Suc.prems(2) in simp)
  then show ?case by simp
qed

lemma shallow_subset: "shallow m t d js \<Longrightarrow> set is \<subseteq> set js \<Longrightarrow> shallow m t d is"
  by (cases d) auto

text \<open>
  C29. Dropping an address space ends and gives back exactly the tables of its lower half: each is
  freed once, and neither the tables of the upper half, which it shares with other address spaces,
  nor any other frame that was in use changes. The root table itself is not given back.
\<close>

theorem address_space_drop_frees:
  assumes "pt_inv root s" and "\<forall>b e. walk (snd s) root 3 b = Some (0, e) \<longrightarrow> is_leaf e"
  shows "\<exists>s' fs. as_drop dbg root s = Some s' \<and> chain_inv s' \<and> free_frames s' = fs @ free_frames s
    \<and> set fs = set (below (snd s) root 3 [0..<256]) \<and> distinct (free_frames s') \<and> root \<notin> set (free_frames s')
    \<and> (\<forall>x \<in> set (below (snd s) root 3 [256..<512]). x \<notin> set (free_frames s') \<and> snd s' x = snd s x)
    \<and> (\<forall>x. x \<notin> set fs \<longrightarrow> snd s' x = snd s x)"
proof -
  let ?m = "snd s" and ?u = "below (snd s) root 3 [0..<256]" and ?k = "below (snd s) root 3 [256..<512]"
  note inv = assms(1) [unfolded pt_inv_def]
  have "[0..<512] = [0..<256] @ [256..<512]" using upt_add_eq_append [of 0 256 256] by simp
  then have tb: "tables ?m root 3 = root # ?u @ ?k" unfolding tables_below below_def by simp
  have sh: "shallow ?m root 3 [0..<256]"
  proof (rule shallow_subset)
    show "shallow ?m root 3 [0..<512]" by (rule shallow_walk) (use assms(2) in blast, rule order_refl)
    show "set [0..<256] \<subseteq> set [0..<512]" unfolding set_upt by (rule ivl_subset [THEN iffD2]) simp
  qed
  have u: "distinct ?u" "root \<notin> set ?u" "set ?u \<inter> set (free_frames s) = {}" using inv unfolding tb by auto
  obtain s' fs where s': "as_drop dbg root s = Some s'" "chain_inv s'" "free_frames s' = fs @ free_frames s" "set fs = set ?u"
      "\<forall>x. x \<notin> set fs \<longrightarrow> snd s' x = ?m x"
    using as_dealloc_spec [OF conjunct1 [OF inv] sh u, of dbg] unfolding as_drop_def by blast
  moreover have "distinct (free_frames s')" using s'(2) by (simp add: chain_inv_def)
  moreover have "root \<notin> set (free_frames s')" using inv s'(3,4) unfolding tb by auto
  moreover have "\<forall>x \<in> set ?k. x \<notin> set (free_frames s') \<and> snd s' x = snd s x" using inv s'(3-5) unfolding tb by auto
  ultimately show ?thesis by blast
qed

theorem address_space_drop_frees_witness:
  "\<exists>s'. as_drop True 0 pt_example = Some s' \<and> set (free_frames s') = {1, 2, 3}"
proof -
  have z: "snd pt_example 0 = (\<lambda>_. 0)" by (simp add: pt_example_def)
  have "below (snd pt_example) 0 3 [0..<512] = []"
    using empty_table(1) [of "snd pt_example" 0 3, OF z] by (simp add: tables_below)
  moreover have "{0..<256} \<subseteq> {..<512 :: nat}" by auto
  ultimately have b: "set (below (snd pt_example) 0 3 [0..<256]) = {}"
    using set_below [of "[0..<256]" "snd pt_example" 0 3] by (auto simp del: upt_rec_numeral)
  have "\<forall>b e. walk (snd pt_example) 0 3 b = Some (0, e) \<longrightarrow> is_leaf e" using pt_example_walk by simp
  from address_space_drop_frees [OF pt_example_inv this, of True] b pt_example_frames show ?thesis by auto
qed

text \<open>The tables of a new address space.\<close>

lemma as_new_tree:
  fixes m :: phys_mem
  assumes "distinct (tables m cur 3)" and "f \<notin> set (tables m cur 3)"
  defines "m1 \<equiv> m(f := (\<lambda>i. if 256 \<le> i \<and> i < 512 then m cur i else 0))"
  shows "distinct (tables m1 f 3) \<and> set (tables m1 f 3) \<subseteq> insert f (set (tables m cur 3))"
    and "walk m1 f 3 a = (if 256 \<le> pt_index 3 a then walk m cur 3 a else None)"
proof -
  have 3: "3 = Suc 2" by simp
  have kid: "f \<notin> set (children m cur 2 i)" if "i < 512" for i
    using assms(2) that unfolding 3 set_tables_Suc by blast
  have same: "m1 x = m x" if "is_table (m cur i)" "x \<in> set (tables m (pte_ppn (m cur i)) 2)" "i < 512" for i x
    using kid [OF that(3)] that by (auto simp: m1_def children_def)
  have tk: "tables m1 (pte_ppn (m cur i)) 2 = tables m (pte_ppn (m cur i)) 2" if "is_table (m cur i)" "i < 512" for i
    using same [OF that(1) _ that(2)] by (rule tables_cong)
  have ch: "children m1 f 2 i = (if 256 \<le> i then children m cur 2 i else [])" if "i < 512" for i
    using that tk by (auto simp: children_def m1_def)
  have sub: "set (children m1 f 2 i) \<subseteq> set (children m cur 2 i)" if "i < 512" for i using ch [OF that] by auto
  note d = assms(1) [unfolded 3 distinct_tables_Suc]
  have "\<forall>i < 512. f \<notin> set (children m1 f 2 i) \<and> distinct (children m1 f 2 i)" using d kid ch by auto
  moreover have "\<forall>i < 512. \<forall>j < 512. i \<noteq> j \<longrightarrow> set (children m1 f 2 i) \<inter> set (children m1 f 2 j) = {}"
    using d sub by blast
  ultimately have "distinct (tables m1 f 3)" unfolding 3 distinct_tables_Suc by blast
  moreover have "set (tables m1 f 3) \<subseteq> insert f (set (tables m cur 3))"
    using ch unfolding 3 set_tables_Suc by (auto split: if_splits)
  ultimately show "distinct (tables m1 f 3) \<and> set (tables m1 f 3) \<subseteq> insert f (set (tables m cur 3))" ..
  have idx: "pt_index (Suc 2) a < 512" by (rule pt_index_less)
  have wk: "walk m1 (pte_ppn (m cur i)) 2 a = walk m (pte_ppn (m cur i)) 2 a" if "is_table (m cur i)" "i < 512" for i
    using same [OF that(1) _ that(2)] by (rule walk_cong)
  show "walk m1 f 3 a = (if 256 \<le> pt_index 3 a then walk m cur 3 a else None)"
    using wk idx unfolding 3 walk_Suc by (auto simp: Let_def m1_def)
qed

text \<open>
  C30. A new address space maps the page of the vsyscall data for reading and nothing else in its lower
  half, while its upper half leads where that of the current one does; its tables are well-formed. It
  takes at most four frames, and only if there are fewer it fails.
\<close>

theorem address_space_new_correct:
  assumes "pt_inv cur s" and "4 \<le> length (free_frames s)"
  shows "\<exists>root s'. as_new cur vs s = Some (Inr root, s') \<and> pt_inv root s' \<and> root \<in> set (free_frames s)
    \<and> length (free_frames s) \<le> length (free_frames s') + 4
    \<and> (\<forall>a. walk (snd s') root 3 a =
        (if same_page 3 a VSYSCALL_DATA_USER_ADDR then Some (0, page_entry vs True False False True)
         else if 256 \<le> pt_index 3 a then walk (snd s) cur 3 a else None))"
proof -
  obtain c m where s: "s = (c, m)" by fastforce
  obtain f fs where ff: "free_frames s = f # fs" using assms(2) by (cases "free_frames s") (auto simp del: length_free_frames)
  then have "1 \<le> length (free_frames s)" by (simp del: length_free_frames)
  then obtain c' where al: "allocate 1 s = Some (Inr [f], c', m)" "free_frames (c', m) = fs"
    using allocate_spec [of 1 s] ff s by (auto simp del: length_free_frames)
  let ?m = "m(f := (\<lambda>i. if 256 \<le> i \<and> i < 512 then m cur i else 0))"
  let ?a = "\<lparr>ma_writeable = rwx_w RWX_R, ma_user = True, ma_write_combining = False, ma_global = True\<rparr>"
  note inv = assms(1) [unfolded pt_inv_def chain_inv_def s snd_conv]
  have f: "f \<notin> set (tables m cur 3)" "f \<notin> set fs" "f \<noteq> cur" using inv ff s tables_head [of cur m 3] by auto
  note tree = as_new_tree [OF _ f(1)]
  have ff1: "free_frames (c', ?m) = fs" using al(2) f(2) by (intro trans [OF free_frames_cong al(2)]) auto
  have inv1: "pt_inv f (c', ?m)"
    using tree(1) inv ff s ff1 f(2) unfolding pt_inv_def chain_inv_def by auto
  have v: "pt_index 3 VSYSCALL_DATA_USER_ADDR = 0" by (simp add: pt_index_def VSYSCALL_DATA_USER_ADDR_def)
  then have "walk (snd (c', ?m)) f 3 VSYSCALL_DATA_USER_ADDR = None" using tree(2) inv by simp
  from map_page_spec [OF inv1 this, of ?a vs] obtain r s' where
    r: "map_page f ?a VSYSCALL_DATA_USER_ADDR vs (c', ?m) = Some (r, s')"
      "map_page_post f ?a VSYSCALL_DATA_USER_ADDR vs (c', ?m) r s'" by blast
  note post = r(2) [unfolded map_page_post_def ff1 snd_conv]
  have len: "3 \<le> length fs" using assms(2) ff by (simp del: length_free_frames)
  then have "r = Inr ()" using post steps_left_bound [of ?m f VSYSCALL_DATA_USER_ADDR] by linarith
  moreover have "length (free_frames s) \<le> length (free_frames s') + 4"
    using post steps_left_bound [of ?m f VSYSCALL_DATA_USER_ADDR] ff by (auto simp del: length_free_frames)
  moreover have "as_new cur vs s = Some (Inr f, s')"
    using al(1) r(1) \<open>r = Inr ()\<close> f(3) by (simp add: as_new_def nth_opt_def clear_page_def Let_def cong: if_cong)
  ultimately show ?thesis
    using post tree(2) inv s ff
    by (intro exI [of _ f] exI [of _ s']) (auto simp: map_entry_def rwx_w_def simp del: length_free_frames)
qed

definition pt_example4 :: mem_state where
  "pt_example4 = (\<lparr>ch_head = 1, ch_count = 4\<rparr>, (\<lambda>p i. if i = 0 then (if p = 1 then 2 else if p = 2 then 3 else if p = 3 then 4 else 0) else 0))"

theorem address_space_new_correct_witness:
  "\<exists>root s'. as_new 0 9 pt_example4 = Some (Inr root, s')
    \<and> walk (snd s') root 3 VSYSCALL_DATA_USER_ADDR = Some (0, page_entry 9 True False False True)"
proof -
  have "cells f h 4 = [h, f h, f (f h), f (f (f h))]" for f :: "ppn \<Rightarrow> ppn" and h by (simp add: eval_nat_numeral)
  then have ff: "free_frames pt_example4 = [1, 2, 3, 4]" by (simp add: pt_example4_def free_frames_def read_ppn_def)
  have z: "snd pt_example4 0 = (\<lambda>_. 0)" by (simp add: pt_example4_def)
  have "pt_inv 0 pt_example4"
    using empty_table(1) [of "snd pt_example4" 0 3, OF z] ff by (simp add: pt_inv_def chain_inv_def)
  moreover have "4 \<le> length (free_frames pt_example4)" unfolding ff by simp
  ultimately show ?thesis
    using address_space_new_correct [of 0 pt_example4 9] by (auto simp: same_page_def)
qed

end
