(* ===== verification/Virtual_Memory.thy ===== *)
theory Virtual_Memory
  imports Address_Space "HOL-Library.Multiset"
begin

text \<open>
  Memory objects and the objects mapped in an address space:
  \<open>kernel/src/memory/virtual/address_space.rs\<close> and \<open>permission_mask.rs\<close>,
  \<open>kernel/src/object_table/subrange.rs\<close> and \<open>kernel/src/scheduler/memory_object.rs\<close>. An object is the
  slices of frames that \<open>physical_pages\<close> passes to its callback, in order, until the callback answers
  false.
\<close>

section \<open>Memory objects\<close>

record MemoryObject =
  physical_pages :: "ppn list list"
  physical_pages_len :: nat
  mo_write_combining :: bool
  mo_rwx :: RWX

definition frames_object :: "ppn list \<Rightarrow> MemoryObject" where
  "frames_object ps = \<lparr>physical_pages = [ps], physical_pages_len = length ps, mo_write_combining = False, mo_rwx = RWX_RWX\<rparr>"

definition mask_permissions_object :: "MemoryObject \<Rightarrow> RWX \<Rightarrow> MemoryObject option" where
  "mask_permissions_object obj rwx =
     (if rwx = RWX_RWX then Some obj
      else if is_subset_of (mo_rwx obj) rwx then Some obj
      else map_option (\<lambda>p. obj\<lparr>mo_rwx := p\<rparr>) (intersection (mo_rwx obj) rwx))"

datatype NewSubRangeError = BadAlignment | BadRange

record SubRange =
  sr_object :: MemoryObject
  sr_start_offset :: nat
  sr_total_size :: nat

definition subrange_new :: "MemoryObject \<Rightarrow> nat \<Rightarrow> nat \<Rightarrow> NewSubRangeError + SubRange" where
  "subrange_new obj start last_byte =
     (if start > last_byte then Inl BadRange
      else if start mod PAGE_SIZE \<noteq> 0 \<or> last_byte mod PAGE_SIZE \<noteq> PAGE_MASK then Inl BadAlignment
      else Inr \<lparr>sr_object = obj, sr_start_offset = start, sr_total_size = last_byte - start\<rparr>)"

text \<open>The slices that the closure of a subrange passes on.\<close>

fun subrange_calls :: "nat \<Rightarrow> nat \<Rightarrow> nat \<Rightarrow> nat \<Rightarrow> ppn list list \<Rightarrow> ppn list list" where
  "subrange_calls start total_size offset taken [] = []"
| "subrange_calls start total_size offset taken (p # ps) =
     (if taken \<ge> total_size then []
      else if offset + length p < start then subrange_calls start total_size (offset + length p) taken ps
      else let q = (if offset < start then drop (start - offset) p
                    else if taken + length p > total_size then take (total_size - taken) p else p)
           in q # subrange_calls start total_size offset (taken + length q) ps)"

definition subrange_object :: "SubRange \<Rightarrow> MemoryObject" where
  "subrange_object r = (sr_object r)\<lparr>
     physical_pages := subrange_calls (sr_start_offset r) (sr_total_size r) 0 0 (physical_pages (sr_object r)),
     physical_pages_len := sr_total_size r\<rparr>"

section \<open>Mapped objects\<close>

datatype MapError = Overflow | ZeroSize | UnalignedOffset | Permission | Reserved | Arch PtMapError

definition MIN_ADDR :: u64 where
  "MIN_ADDR = 0x10000"

type_synonym mapping = "(u64 \<times> u64) \<times> MemoryObject"

record AddressSpace =
  as_root :: ppn
  as_objects :: "mapping list"

text \<open>\<open>partition_point\<close> of the sorted list.\<close>

definition partition_point :: "u64 \<Rightarrow> mapping list \<Rightarrow> nat" where
  "partition_point base objs = length (takeWhile (\<lambda>e. fst (fst e) < base) objs)"

definition find_free_range :: "mapping list \<Rightarrow> u64 \<Rightarrow> (u64 \<times> nat) panics" where
  "find_free_range objs dflt =
     (if objs = [] then Some (dflt, 0)
      else let base = snd (fst (last objs)) + 1 + 4096 in
        do { assert (base \<noteq> 0); Some (base, length objs) })"

definition map_object_common ::
  "mapping list \<Rightarrow> u64 \<Rightarrow> u64 option \<Rightarrow> MemoryObject \<Rightarrow> nat \<Rightarrow> (MapError + (u64 \<times> u64) \<times> nat) panics" where
  "map_object_common objs dflt base obj max_length =
     (let max_length = max_length div PAGE_SIZE; pages = physical_pages_len obj in
      if pages = 0 then Some (Inl ZeroSize)
      else do {
        (base, index) \<leftarrow> (case base of Some b \<Rightarrow> Some (b, partition_point b objs) | None \<Rightarrow> find_free_range objs dflt);
        if base < MIN_ADDR then Some (Inl Reserved)
        else let last_byte = base + of_nat (min pages max_length) * 4096 - 1 in
          if last_byte < base then Some (Inl Overflow) else Some (Inr ((base, last_byte), index)) })"

text \<open>
  The callback that maps the frames: it skips \<open>offset\<close> bytes and stops after \<open>max_length\<close> bytes. A failure
  to map is a panic. The first component of the result says whether to go on.
\<close>

record map_state =
  ms_address :: u64
  ms_offset :: nat
  ms_max_length :: nat
  ms_mem :: mem_state

fun map_slice :: "ppn \<Rightarrow> map_args \<Rightarrow> ppn list \<Rightarrow> map_state \<Rightarrow> (bool \<times> map_state) panics" where
  "map_slice root a [] st = Some (True, st)"
| "map_slice root a (p # ps) st =
     (if PAGE_SIZE \<le> ms_offset st then map_slice root a ps (st\<lparr>ms_offset := ms_offset st - PAGE_SIZE\<rparr>)
      else if PAGE_SIZE \<le> ms_max_length st then
        do { (r, s) \<leftarrow> map_page root a (ms_address st) p (ms_mem st);
             case r of
               Inl _ \<Rightarrow> None
             | Inr _ \<Rightarrow> map_slice root a ps (st\<lparr>ms_max_length := ms_max_length st - PAGE_SIZE,
                 ms_address := ms_address st + 4096, ms_mem := s\<rparr>) }
      else Some (False, st))"

fun map_slices :: "ppn \<Rightarrow> map_args \<Rightarrow> ppn list list \<Rightarrow> map_state \<Rightarrow> map_state panics" where
  "map_slices root a [] st = Some st"
| "map_slices root a (p # ps) st =
     do { (go_on, st) \<leftarrow> map_slice root a p st; if go_on then map_slices root a ps st else Some st }"

definition vec_insert :: "nat \<Rightarrow> 'a \<Rightarrow> 'a list \<Rightarrow> 'a list panics" where
  "vec_insert i x xs = (if i \<le> length xs then Some (take i xs @ x # drop i xs) else None)"

definition map_object ::
  "u64 option \<Rightarrow> MemoryObject \<Rightarrow> RWX \<Rightarrow> nat \<Rightarrow> nat \<Rightarrow> AddressSpace \<Rightarrow> mem_state
    \<Rightarrow> ((MapError + u64 \<times> u64) \<times> AddressSpace \<times> mem_state) panics" where
  "map_object base obj rwx offset max_length sp s =
     (if offset mod PAGE_SIZE \<noteq> 0 then Some (Inl UnalignedOffset, sp, s)
      else if \<not> is_subset_of rwx (mo_rwx obj) then Some (Inl Permission, sp, s)
      else do {
        r \<leftarrow> map_object_common (as_objects sp) 4096 base obj max_length;
        case r of
          Inl e \<Rightarrow> Some (Inl e, sp, s)
        | Inr ((lo, hi), index) \<Rightarrow>
            do { st \<leftarrow> map_slices (as_root sp) \<lparr>ma_writeable = rwx_w rwx, ma_user = True,
                   ma_write_combining = mo_write_combining obj, ma_global = False\<rparr> (physical_pages obj)
                   \<lparr>ms_address = lo, ms_offset = offset, ms_max_length = max_length, ms_mem = s\<rparr>;
                 objs \<leftarrow> vec_insert index ((lo, hi), obj) (as_objects sp);
                 Some (Inr (lo, hi - lo + 1), sp\<lparr>as_objects := objs\<rparr>, ms_mem st) } })"

text \<open>Mappings of the kernel: \<open>objs\<close> are \<open>KERNEL_MAPPED_OBJECTS\<close>, \<open>cur\<close> is the current root.\<close>

definition kernel_map_object ::
  "ppn \<Rightarrow> u64 option \<Rightarrow> MemoryObject \<Rightarrow> RWX \<Rightarrow> mapping list \<Rightarrow> mem_state
    \<Rightarrow> ((MapError + u64 \<times> u64) \<times> mapping list \<times> mem_state) panics" where
  "kernel_map_object cur base obj rwx objs s =
     (if \<not> is_subset_of rwx (mo_rwx obj) then Some (Inl Permission, objs, s)
      else do {
        r \<leftarrow> map_object_common objs 0xffffa00000000000 base obj usize_MAX;
        case r of
          Inl e \<Rightarrow> Some (Inl e, objs, s)
        | Inr ((lo, hi), index) \<Rightarrow>
            do { (r, s) \<leftarrow> map_pages cur \<lparr>ma_writeable = rwx_w rwx, ma_user = False,
                   ma_write_combining = mo_write_combining obj, ma_global = True\<rparr> lo (concat (physical_pages obj)) s;
                 case r of
                   Inl _ \<Rightarrow> None
                 | Inr _ \<Rightarrow>
                     do { objs \<leftarrow> vec_insert index ((lo, hi), obj) objs;
                          Some (Inr (lo, hi - lo + 1), objs, s) } } })"

definition unmap_object_common :: "u64 \<Rightarrow> nat \<Rightarrow> mapping list \<Rightarrow> mapping list panics" where
  "unmap_object_common base pages objs =
     do { i \<leftarrow> find (\<lambda>i. fst (fst (objs ! i)) \<le> base \<and> base \<le> snd (fst (objs ! i))) [0..<length objs];
          let (lo, hi) = fst (objs ! i);
          let last_byte = base + of_nat pages * 4096 - 1;
          assert (last_byte \<noteq> 0);
          if base = lo \<and> last_byte = hi then Some (take i objs @ drop (Suc i) objs)
          else if last_byte = hi then Some (objs[i := ((lo, base - 1), snd (objs ! i))])
          else None }"

definition unmap_object :: "u64 \<Rightarrow> nat \<Rightarrow> AddressSpace \<Rightarrow> mem_state \<Rightarrow> (AddressSpace \<times> mem_state) panics" where
  "unmap_object base pages sp s =
     do { objs \<leftarrow> unmap_object_common base pages (as_objects sp);
          (r, m) \<leftarrow> unmap_pages (as_root sp) base pages (snd s);
          case r of Inl _ \<Rightarrow> None | Inr _ \<Rightarrow> Some (sp\<lparr>as_objects := objs\<rparr>, fst s, m) }"

definition kernel_unmap_object :: "ppn \<Rightarrow> u64 \<Rightarrow> nat \<Rightarrow> mapping list \<Rightarrow> mem_state \<Rightarrow> (mapping list \<times> mem_state) panics" where
  "kernel_unmap_object cur base pages objs s =
     do { (r, m) \<leftarrow> unmap_pages cur base pages (snd s);
          case r of
            Inl _ \<Rightarrow> None
          | Inr _ \<Rightarrow> do { objs \<leftarrow> unmap_object_common base pages objs; Some (objs, fst s, m) } }"

section \<open>The callback\<close>

lemma map_slice_append:
  "map_slice root a (xs @ ys) st =
     do { (go_on, st) \<leftarrow> map_slice root a xs st; if go_on then map_slice root a ys st else Some (False, st) }"
  by (induction xs arbitrary: st) (auto split: bind_splits sum.splits)

lemma map_slices_concat: "map_slices root a cs st = map_option snd (map_slice root a (concat cs) st)"
proof (induction cs arbitrary: st)
  case (Cons c cs)
  then show ?case by (cases "map_slice root a c st") (auto simp: map_slice_append)
qed simp

text \<open>The frames that are mapped.\<close>

definition window :: "nat \<Rightarrow> nat \<Rightarrow> 'a list \<Rightarrow> 'a list" where
  "window offset max_length ps = take (max_length div PAGE_SIZE) (drop (offset div PAGE_SIZE) ps)"

lemma window_simps:
  "window offset max_length [] = []"
  "PAGE_SIZE \<le> offset \<Longrightarrow> window offset max_length (p # ps) = window (offset - PAGE_SIZE) max_length ps"
  "offset < PAGE_SIZE \<Longrightarrow> PAGE_SIZE \<le> max_length \<Longrightarrow>
     window offset max_length (p # ps) = p # window offset (max_length - PAGE_SIZE) ps"
  "offset < PAGE_SIZE \<Longrightarrow> max_length < PAGE_SIZE \<Longrightarrow> window offset max_length ps = []"
  by (simp_all add: window_def le_div_geq)

definition mapped_ok :: "((PtMapError + unit) \<times> mem_state) option \<Rightarrow> mem_state option" where
  "mapped_ok x = (case x of Some (Inr _, s) \<Rightarrow> Some s | _ \<Rightarrow> None)"

lemma map_slice_pages:
  "map_option (\<lambda>(_, st). ms_mem st) (map_slice root a ps st)
    = mapped_ok (map_pages root a (ms_address st) (window (ms_offset st) (ms_max_length st) ps) (ms_mem st))"
proof (induction ps arbitrary: st)
  case Nil
  then show ?case by (simp add: window_simps mapped_ok_def)
next
  case (Cons p ps)
  consider "PAGE_SIZE \<le> ms_offset st" | "ms_offset st < PAGE_SIZE" "PAGE_SIZE \<le> ms_max_length st"
    | "ms_offset st < PAGE_SIZE" "ms_max_length st < PAGE_SIZE" by linarith
  then show ?case
  proof cases
    case 2
    then show ?thesis
      using Cons.IH by (cases "map_page root a (ms_address st) p (ms_mem st)")
        (auto simp: window_simps mapped_ok_def split: sum.splits)
  qed (use Cons.IH in \<open>simp_all add: window_simps mapped_ok_def\<close>)
qed

lemma map_slices_pages:
  assumes "map_pages root a v (window offset max_length (concat cs)) s = Some (Inr (), s')"
  shows "\<exists>st. map_slices root a cs \<lparr>ms_address = v, ms_offset = offset, ms_max_length = max_length, ms_mem = s\<rparr> = Some st
    \<and> ms_mem st = s'"
  using map_slice_pages [of root a "concat cs" "\<lparr>ms_address = v, ms_offset = offset, ms_max_length = max_length, ms_mem = s\<rparr>"]
    assms by (auto simp: map_slices_concat mapped_ok_def)

section \<open>Well-formed address spaces\<close>

definition range_ok :: "u64 \<times> u64 \<Rightarrow> bool" where
  "range_ok = (\<lambda>(lo, hi). MIN_ADDR \<le> lo \<and> lo \<le> hi \<and> unat hi < 2 ^ 47 \<and> unat lo mod 4096 = 0 \<and> unat hi mod 4096 = 4095)"

definition in_range :: "u64 \<Rightarrow> u64 \<times> u64 \<Rightarrow> bool" where
  "in_range b = (\<lambda>(lo, hi). vpage lo \<le> vpage b \<and> vpage b \<le> vpage hi)"

text \<open>
  The mapped ranges are sorted and do not overlap, and in the lower half only they and the vsyscall page
  are mapped.
\<close>

definition space_ok :: "AddressSpace \<Rightarrow> mem_state \<Rightarrow> bool" where
  "space_ok sp s \<longleftrightarrow> pt_inv (as_root sp) s \<and> sorted_wrt (\<lambda>x y. snd (fst x) < fst (fst y)) (as_objects sp)
     \<and> (\<forall>x \<in> set (as_objects sp). range_ok (fst x))
     \<and> (\<forall>b. walk (snd s) (as_root sp) 3 b \<noteq> None \<longrightarrow> unat (vpage b) < 2 ^ 35 \<longrightarrow>
          vpage b = vpage VSYSCALL_DATA_USER_ADDR \<or> (\<exists>x \<in> set (as_objects sp). in_range b (fst x)))"

lemma unat_vpage_low: "unat a < 2 ^ 48 \<Longrightarrow> unat (vpage a) = unat a div 4096"
  by (simp add: unat_vpage)

lemma in_range_iff:
  "range_ok (lo, hi) \<Longrightarrow> in_range b (lo, hi) \<longleftrightarrow> unat lo div 4096 \<le> unat (vpage b) \<and> unat (vpage b) \<le> unat hi div 4096"
  by (simp add: range_ok_def in_range_def word_le_nat_alt unat_vpage_low)

lemma insert_sorted:
  assumes "sorted_wrt (\<lambda>x y. snd (fst x) < fst (fst y)) objs" and "\<forall>x \<in> set objs. fst (fst x) \<le> snd (fst x)"
    and "\<forall>x \<in> set objs. hi < fst (fst x) \<or> snd (fst x) < lo" and "lo \<le> hi"
  shows "sorted_wrt (\<lambda>x y. snd (fst x) < fst (fst y))
    (take (partition_point lo objs) objs @ ((lo, hi), obj) # drop (partition_point lo objs) objs)"
  using assms
proof (induction objs)
  case (Cons x xs)
  show ?case
  proof (cases "fst (fst x) < lo")
    case True
    then have "snd (fst x) < lo" using Cons.prems(3,4) by force
    with True Cons show ?thesis
      by (auto simp: partition_point_def dest: in_set_takeD in_set_dropD)
  next
    case False
    then have "hi < fst (fst x)" using Cons.prems(2,3) by force
    with False Cons.prems show ?thesis by (force simp: partition_point_def)
  qed
qed (simp add: partition_point_def)

section \<open>Mapping an object\<close>

lemma sorted_last:
  fixes objs :: "mapping list"
  assumes "sorted_wrt (\<lambda>x y. snd (fst x) < fst (fst y)) objs" and "\<forall>x \<in> set objs. fst (fst x) \<le> snd (fst x)"
    and "x \<in> set objs"
  shows "snd (fst x) \<le> snd (fst (last objs))"
  using assms
proof (induction objs)
  case (Cons y ys)
  show ?case
  proof (cases "ys = []")
    case False
    then have l: "last ys \<in> set ys" by simp
    then have "snd (fst y) < fst (fst (last ys))" "fst (fst (last ys)) \<le> snd (fst (last ys))"
      using Cons.prems(1,2) by auto
    then have "snd (fst y) \<le> snd (fst (last ys))" by (meson less_imp_le order_trans)
    then show ?thesis using Cons False by auto
  qed (use Cons.prems in simp)
qed simp

text \<open>Without a base, the range lies past the last one with a page between them.\<close>

lemma free_range:
  assumes "sorted_wrt (\<lambda>x y. snd (fst x) < fst (fst y)) objs" and "\<forall>x \<in> set objs. range_ok (fst x)" and "objs \<noteq> []"
  shows "\<exists>lo. find_free_range objs d = Some (lo, length objs) \<and> unat lo = unat (snd (fst (last objs))) + 4097
    \<and> (\<forall>x \<in> set objs. snd (fst x) < lo) \<and> partition_point lo objs = length objs \<and> unat lo mod 4096 = 0"
proof -
  let ?l = "snd (fst (last objs))"
  have le: "\<forall>x \<in> set objs. fst (fst x) \<le> snd (fst x)" using assms(2) by (force simp: range_ok_def)
  have l: "unat ?l < 2 ^ 47" "unat ?l mod 4096 = 4095" 
    using bspec [OF assms(2) last_in_set [OF assms(3)]] by (simp_all add: range_ok_def split_beta)
  have lo: "unat (?l + 1 + 4096) = unat ?l + 4097" using l(1) by (simp add: unat_word_ariths)
  have lt: "\<forall>x \<in> set objs. snd (fst x) < ?l + 1 + 4096"
  proof
    fix x assume "x \<in> set objs"
    then have "unat (snd (fst x)) \<le> unat ?l" using sorted_last [OF assms(1) le] by (simp add: word_le_nat_alt)
    then show "snd (fst x) < ?l + 1 + 4096" unfolding word_less_nat_alt lo by simp
  qed
  then have "partition_point (?l + 1 + 4096) objs = length objs"
    unfolding partition_point_def using le by (intro arg_cong [of _ _ length]) (auto intro: le_less_trans)
  moreover have "?l + 1 + 4096 \<noteq> 0" using lo by (auto simp: unat_eq_0 [symmetric])
  moreover have "unat (?l + 1 + 4096) mod 4096 = 0" 
    unfolding lo using mod_add_left_eq [of "unat ?l" 4096 4097] l(2) by simp
  ultimately show ?thesis
    using assms(3) lt lo by (intro exI [of _ "?l + 1 + 4096"]) (simp add: find_free_range_def)
qed

lemma map_object_common_Inr:
  assumes "map_object_common objs d base obj max_length = Some (Inr ((lo, hi), i))"
    and "sorted_wrt (\<lambda>x y. snd (fst x) < fst (fst y)) objs" and "\<forall>x \<in> set objs. range_ok (fst x)" and "d < MIN_ADDR"
  shows "i = partition_point lo objs \<and> MIN_ADDR \<le> lo \<and> lo \<le> hi
    \<and> hi = lo + of_nat (min (physical_pages_len obj) (max_length div PAGE_SIZE)) * 4096 - 1
    \<and> (case base of Some b \<Rightarrow> lo = b | None \<Rightarrow> (\<forall>x \<in> set objs. snd (fst x) < lo) \<and> unat lo mod 4096 = 0)"
proof (cases base)
  case None
  then have "objs \<noteq> []" using assms(1,4) by (auto simp: map_object_common_def find_free_range_def Let_def split: if_splits)
  from free_range [OF assms(2,3) this, of d] None assms(1) show ?thesis
    by (auto simp: map_object_common_def Let_def not_less split: if_splits)
next
  case (Some b)
  then show ?thesis using assms(1) by (auto simp: map_object_common_def Let_def not_less split: if_splits)
qed

lemma range_pages:
  fixes lo hi :: u64
  assumes "hi = lo + of_nat k * 4096 - 1" and "lo \<le> hi" and "unat hi < 2 ^ 47" and "k < 2 ^ 35" and "unat lo mod 4096 = 0"
  shows "0 < k \<and> unat hi = unat lo + k * 4096 - 1 \<and> unat hi mod 4096 = 4095 \<and> unat hi div 4096 = unat lo div 4096 + k - 1"
proof -
  have lo: "unat lo < 2 ^ 47" using assms(2,3) by (simp add: word_le_nat_alt)
  have k: "unat (of_nat k * 4096 :: u64) = k * 4096" using assms(4) by (simp add: unat_word_ariths unsigned_of_nat take_bit_eq_mod)
  have "k \<noteq> 0"
  proof
    assume "k = 0"
    then have "hi = lo - 1" using assms(1) by simp
    moreover have "lo \<noteq> 0" using \<open>hi = lo - 1\<close> assms(3) by (auto simp: unsigned_minus_1_eq_mask mask_eq_exp_minus_1)
    ultimately have "unat hi = unat lo - 1" "unat lo \<noteq> 0" by (simp_all add: unat_minus_one unat_eq_0)
    then show False using assms(2) by (simp add: word_le_nat_alt)
  qed
  then have "lo + of_nat k * 4096 \<noteq> 0"
    using lo k assms(4) by (auto simp: unat_eq_0 [symmetric] unat_word_ariths)
  then have "unat hi = unat (lo + of_nat k * 4096) - 1" unfolding assms(1) by (rule unat_minus_one)
  also have "unat (lo + of_nat k * 4096) = unat lo + k * 4096"
    using lo k assms(4) by (simp add: unat_word_ariths)
  finally have hi: "unat hi = unat lo + k * 4096 - 1" .
  obtain q where q: "unat lo = q * 4096" using assms(5) by (metis div_mult_mod_eq add_0_right)
  obtain j where j: "k = Suc j" using \<open>k \<noteq> 0\<close> by (cases k) auto
  have e: "unat hi = 4095 + (q + j) * 4096" using hi q j by simp
  have "unat hi mod 4096 = 4095" "unat hi div 4096 = q + j" unfolding e by (simp_all only: mod_mult_self1 div_mult_self1) simp_all
  then show ?thesis using hi q j by simp
qed

lemma page_off_range:
  assumes "range_ok (lo, hi)" and "page_off lo b < n" and "unat lo div 4096 + n \<le> unat hi div 4096 + 1"
  shows "in_range b (lo, hi) \<and> unat (vpage b) < 2 ^ 35"
proof -
  have lo: "unat (vpage lo) = unat lo div 4096" and hi: "unat hi div 4096 < 2 ^ 35"
    using assms(1) by (auto simp: range_ok_def unat_vpage_low word_le_nat_alt less_mult_imp_div_less)
  have "vpage b = vpage lo + of_nat (page_off lo b)" by (simp add: page_off_def)
  moreover have "unat lo div 4096 + page_off lo b < 2 ^ 35" using assms(2,3) hi by simp
  ultimately have b: "unat (vpage b) = unat lo div 4096 + page_off lo b"
    using lo by (simp add: unat_word_ariths unsigned_of_nat take_bit_eq_mod)
  then show ?thesis using assms(2,3) hi unfolding in_range_iff [OF assms(1)] by auto
qed

lemma ranges_disjoint:
  assumes "range_ok (lo, hi)" and "range_ok (lo', hi')" and "hi < lo' \<or> hi' < lo" and "in_range b (lo, hi)"
  shows "\<not> in_range b (lo', hi')"
proof
  assume "in_range b (lo', hi')"
  then have b: "unat lo div 4096 \<le> unat (vpage b)" "unat (vpage b) \<le> unat hi div 4096"
    "unat lo' div 4096 \<le> unat (vpage b)" "unat (vpage b) \<le> unat hi' div 4096"
    using assms(4) in_range_iff [OF assms(1)] in_range_iff [OF assms(2)] by simp_all
  have strict: "x div 4096 < y div 4096" if "x < y" "x mod 4096 = 4095" "y mod 4096 = 0" for x y :: nat
    using that div_mult_mod_eq [of x 4096] div_mult_mod_eq [of y 4096] by linarith
  from assms(3) show False
    using strict [of "unat hi" "unat lo'"] strict [of "unat hi'" "unat lo"] assms(1,2) b
    by (auto simp: range_ok_def word_less_nat_alt)
qed

lemma range_unmapped:
  assumes "space_ok sp s" and "range_ok (lo, hi)" and "\<forall>x \<in> set (as_objects sp). hi < fst (fst x) \<or> snd (fst x) < lo"
    and "in_range b (lo, hi)" and "unat (vpage b) < 2 ^ 35"
  shows "walk (snd s) (as_root sp) 3 b = None"
proof (rule ccontr)
  assume "walk (snd s) (as_root sp) 3 b \<noteq> None"
  then consider "vpage b = vpage VSYSCALL_DATA_USER_ADDR" | x where "x \<in> set (as_objects sp)" "in_range b (fst x)"
    using assms(1,5) unfolding space_ok_def by blast
  then show False
  proof cases
    case 1
    then have "unat lo div 4096 \<le> 1"
      using assms(4) unfolding in_range_iff [OF assms(2)] by (simp add: VSYSCALL_DATA_USER_ADDR_def unat_vpage)
    moreover have "0x10000 \<le> unat lo" using assms(2) by (simp add: range_ok_def MIN_ADDR_def word_le_nat_alt)
    ultimately show False by simp
  next
    case (2 x)
    then have "range_ok (fst (fst x), snd (fst x))" using assms(1) by (simp add: space_ok_def)
    from ranges_disjoint [OF assms(2) this _ assms(4)] 2 assms(3) show False by auto
  qed
qed

lemma space_ok_insert:
  assumes "space_ok sp s" and "range_ok (lo, hi)" and "\<forall>x \<in> set (as_objects sp). hi < fst (fst x) \<or> snd (fst x) < lo"
    and "pt_inv (as_root sp) s'" and "i = partition_point lo (as_objects sp)"
    and "\<And>b. walk (snd s') (as_root sp) 3 b \<noteq> None \<Longrightarrow> in_range b (lo, hi) \<or> walk (snd s) (as_root sp) 3 b \<noteq> None"
  shows "space_ok (sp\<lparr>as_objects := take i (as_objects sp) @ ((lo, hi), obj) # drop i (as_objects sp)\<rparr>) s'"
proof -
  let ?objs = "as_objects sp" let ?objs' = "take i ?objs @ ((lo, hi), obj) # drop i ?objs"
  note sok = assms(1) [unfolded space_ok_def]
  have proj: "as_root (sp\<lparr>as_objects := ?objs'\<rparr>) = as_root sp" "as_objects (sp\<lparr>as_objects := ?objs'\<rparr>) = ?objs'" by simp_all
  have set: "set ?objs' = insert ((lo, hi), obj) (set ?objs)"
    by (metis append_take_drop_id list.simps(15) set_append Un_insert_right)
  have "sorted_wrt (\<lambda>x y. snd (fst x) < fst (fst y)) ?objs'"
    unfolding assms(5) using sok assms(2,3) by (intro insert_sorted) (auto simp: range_ok_def)
  moreover have "\<forall>b. walk (snd s') (as_root sp) 3 b \<noteq> None \<longrightarrow> unat (vpage b) < 2 ^ 35 \<longrightarrow>
      vpage b = vpage VSYSCALL_DATA_USER_ADDR \<or> (\<exists>x \<in> insert ((lo, hi), obj) (set ?objs). in_range b (fst x))"
    using sok assms(6) by fastforce
  ultimately show ?thesis unfolding space_ok_def proj set using sok assms(2,4) by simp
qed

lemma map_object_ok:
  assumes ok: "space_ok sp s" and perm: "is_subset_of rwx (mo_rwx obj)" and off: "offset mod PAGE_SIZE = 0"
    and common: "map_object_common (as_objects sp) 4096 base obj max_length = Some (Inr ((lo, hi), i))"
    and len: "physical_pages_len obj = length (concat (physical_pages obj))" "physical_pages_len obj < 2 ^ 35"
    and hi: "unat hi < 2 ^ 47" and room: "3 * physical_pages_len obj \<le> length (free_frames s)"
    and base: "base \<noteq> None \<longrightarrow> unat lo mod 4096 = 0 \<and> (\<forall>x \<in> set (as_objects sp). hi < fst (fst x) \<or> snd (fst x) < lo)"
  shows "\<exists>sp' s'. map_object base obj rwx offset max_length sp s = Some (Inr (lo, hi - lo + 1), sp', s')
    \<and> space_ok sp' s' \<and> as_root sp' = as_root sp \<and> mset (as_objects sp') = add_mset ((lo, hi), obj) (mset (as_objects sp))
    \<and> (let fs = window offset max_length (concat (physical_pages obj)) in
       \<forall>b. walk (snd s') (as_root sp) 3 b = (if page_off lo b < length fs
         then Some (0, page_entry (fs ! page_off lo b) True (rwx_w rwx) (mo_write_combining obj) False)
         else walk (snd s) (as_root sp) 3 b))"
proof -
  let ?objs = "as_objects sp" and ?root = "as_root sp" and ?k = "min (physical_pages_len obj) (max_length div PAGE_SIZE)"
  let ?fs = "window offset max_length (concat (physical_pages obj))"
  let ?a = "\<lparr>ma_writeable = rwx_w rwx, ma_user = True, ma_write_combining = mo_write_combining obj, ma_global = False\<rparr>"
  note sok = ok [unfolded space_ok_def]
  have c: "i = partition_point lo ?objs" "MIN_ADDR \<le> lo" "lo \<le> hi" "hi = lo + of_nat ?k * 4096 - 1"
    "unat lo mod 4096 = 0" "\<forall>x \<in> set ?objs. hi < fst (fst x) \<or> snd (fst x) < lo"
    using map_object_common_Inr [OF common] sok base by (auto simp: MIN_ADDR_def split: option.splits)
  have k: "?k < 2 ^ 35" using len(2) by simp
  note r = range_pages [OF c(4,3) hi k c(5)]
  have rm: "unat hi mod 4096 = 4095" and rd: "unat hi div 4096 = unat lo div 4096 + ?k - 1" "0 < ?k" using r by blast+
  have rok: "range_ok (lo, hi)" using c(2,3,5) hi rm by (simp add: range_ok_def)
  have n: "length ?fs \<le> ?k" using len(1) by (simp add: window_def)
  have inr: "in_range b (lo, hi) \<and> unat (vpage b) < 2 ^ 35" if "page_off lo b < length ?fs" for b
    using page_off_range [OF rok that] n rd by linarith
  have "walk (snd s) ?root 3 b = None" if "page_off lo b < length ?fs" for b
    using range_unmapped [OF ok rok c(6)] inr [OF that] by blast
  moreover have lfs: "length ?fs \<le> 2 ^ 36" "3 * length ?fs \<le> length (free_frames s)" 
    using n k room by (auto simp del: length_free_frames)
  ultimately obtain s' where s': "map_pages ?root ?a lo ?fs s = Some (Inr (), s')" "pt_inv ?root s'"
    "\<forall>b. walk (snd s') ?root 3 b = (if page_off lo b < length ?fs then Some (0, map_entry ?a (?fs ! page_off lo b))
      else walk (snd s) ?root 3 b)"
    using map_pages_spec [of ?root s ?fs lo ?a] sok by fastforce
  obtain st where st: "map_slices ?root ?a (physical_pages obj) \<lparr>ms_address = lo, ms_offset = offset,
      ms_max_length = max_length, ms_mem = s\<rparr> = Some st" "ms_mem st = s'"
    using map_slices_pages [OF s'(1)] by blast
  let ?objs' = "take i ?objs @ ((lo, hi), obj) # drop i ?objs"
  let ?sp = "sp\<lparr>as_objects := ?objs'\<rparr>"
  have il: "i \<le> length ?objs" using c(1) by (simp add: partition_point_def length_takeWhile_le)
  have "map_object base obj rwx offset max_length sp s = Some (Inr (lo, hi - lo + 1), ?sp, s')"
    using off perm common st il by (simp add: map_object_def vec_insert_def)
  moreover have "space_ok ?sp s'"
    using s'(3) inr by (intro space_ok_insert [OF ok rok c(6) s'(2) c(1)]) (auto split: if_splits)
  moreover have "mset ?objs' = add_mset ((lo, hi), obj) (mset ?objs)"
    by (metis append_take_drop_id mset.simps(2) mset_append union_mset_add_mset_right)
  ultimately show ?thesis using s'(3) by (intro exI [of _ ?sp] exI [of _ s']) (simp add: map_entry_def)
qed

text \<open>
  C31. Mapping an object in a well-formed address space, at a base that the caller names where nothing is
  mapped or at one that the address space chooses itself: with enough free frames it succeeds, exactly
  the pages of the part of the object that was asked for lead to its frames with the permissions asked
  for, every other address leads where it led before, and the address space stays well-formed with one
  more mapped range.
\<close>

theorem map_object_correct:
  assumes ok: "space_ok sp s" and perm: "is_subset_of rwx (mo_rwx obj)" and off: "offset mod PAGE_SIZE = 0"
    and common: "map_object_common (as_objects sp) 4096 base obj max_length = Some (Inr ((lo, hi), i))"
    and len: "physical_pages_len obj = length (concat (physical_pages obj))" "physical_pages_len obj < 2 ^ 35"
    and hi: "unat hi < 2 ^ 47" and room: "3 * physical_pages_len obj \<le> length (free_frames s)"
    and base: "base \<noteq> None \<longrightarrow> unat lo mod 4096 = 0 \<and> (\<forall>x \<in> set (as_objects sp). hi < fst (fst x) \<or> snd (fst x) < lo)"
  shows "\<exists>sp' s'. map_object base obj rwx offset max_length sp s = Some (Inr (lo, hi - lo + 1), sp', s')
    \<and> space_ok sp' s' \<and> as_root sp' = as_root sp \<and> mset (as_objects sp') = add_mset ((lo, hi), obj) (mset (as_objects sp))
    \<and> (let fs = window offset max_length (concat (physical_pages obj)) in
       \<forall>b. walk (snd s') (as_root sp) 3 b = (if page_off lo b < length fs
         then Some (0, page_entry (fs ! page_off lo b) True (rwx_w rwx) (mo_write_combining obj) False)
         else walk (snd s) (as_root sp) 3 b))"
  by (rule map_object_ok [OF assms])

definition space_example :: AddressSpace where
  "space_example = \<lparr>as_root = 0, as_objects = []\<rparr>"

lemma space_example_ok: "space_ok space_example pt_example"
  using pt_example_inv pt_example_walk by (simp add: space_ok_def space_example_def)

theorem map_object_correct_witness:
  "\<exists>sp' s'. map_object (Some 0x10000) (frames_object [9]) RWX_RW 0 4096 space_example pt_example
      = Some (Inr (0x10000, 4096), sp', s') \<and> space_ok sp' s'"
proof -
  have c: "map_object_common (as_objects space_example) 4096 (Some 0x10000) (frames_object [9]) 4096
      = Some (Inr ((0x10000, 0x10fff), 0))"
    by (simp add: map_object_common_def space_example_def partition_point_def frames_object_def MIN_ADDR_def
        PAGE_SIZE_def Let_def)
  have room: "3 * physical_pages_len (frames_object [9]) \<le> length (free_frames pt_example)"
    unfolding pt_example_frames by (simp add: frames_object_def)
  show ?thesis
    using map_object_correct [OF space_example_ok _ _ c _ _ _ room, of RWX_RW 0]
    by (simp add: frames_object_def is_subset_of_def intersection_def rwx_defs space_example_def) blast
qed

section \<open>Unmapping\<close>

lemma sorted_nth_disjoint:
  fixes objs :: "mapping list"
  assumes "sorted_wrt (\<lambda>x y. snd (fst x) < fst (fst y)) objs" and "\<forall>x \<in> set objs. fst (fst x) \<le> snd (fst x)"
    and "i < length objs" and "j < length objs" and "i \<noteq> j"
  shows "snd (fst (objs ! i)) < fst (fst (objs ! j)) \<or> snd (fst (objs ! j)) < fst (fst (objs ! i))"
  using assms by (metis nat_neq_iff sorted_wrt_nth_less)

lemma find_containing:
  fixes objs :: "mapping list"
  assumes "sorted_wrt (\<lambda>x y. snd (fst x) < fst (fst y)) objs" and "\<forall>x \<in> set objs. fst (fst x) \<le> snd (fst x)"
    and "j < length objs" and "fst (fst (objs ! j)) \<le> base" and "base \<le> snd (fst (objs ! j))"
  shows "find (\<lambda>i. fst (fst (objs ! i)) \<le> base \<and> base \<le> snd (fst (objs ! i))) [0..<length objs] = Some j"
proof -
  have "\<not> (fst (fst (objs ! i)) \<le> base \<and> base \<le> snd (fst (objs ! i)))" if "i < j" for i
  proof -
    have "snd (fst (objs ! i)) < fst (fst (objs ! j))"
      using sorted_wrt_nth_less [OF assms(1) that assms(3)] .
    then show ?thesis using assms(4) by (auto dest: less_le_trans)
  qed
  then show ?thesis unfolding find_Some_iff using assms(3-5) by (intro exI [of _ j]) auto
qed

definition unmapped_objects :: "nat \<Rightarrow> u64 \<Rightarrow> mapping list \<Rightarrow> mapping list" where
  "unmapped_objects j base objs =
     (if base = fst (fst (objs ! j)) then take j objs @ drop (Suc j) objs
      else objs[j := ((fst (fst (objs ! j)), base - 1), snd (objs ! j))])"

lemma unmapped_objects_in:
  "j < length objs \<Longrightarrow> x \<in> set (unmapped_objects j base objs) \<Longrightarrow> x \<in> set objs
    \<or> base \<noteq> fst (fst (objs ! j)) \<and> x = ((fst (fst (objs ! j)), base - 1), snd (objs ! j))"
  by (auto simp: unmapped_objects_def dest: in_set_takeD in_set_dropD set_update_subset_insert [THEN subsetD] split: if_splits)

lemma unmapped_objects_keep:
  assumes "j < length objs" and "x \<in> set objs" and "x \<noteq> objs ! j"
  shows "x \<in> set (unmapped_objects j base objs)"
proof -
  obtain i where i: "i < length objs" "objs ! i = x" "i \<noteq> j" using assms by (auto simp: in_set_conv_nth)
  show ?thesis
  proof (cases "base = fst (fst (objs ! j))")
    case True
    have "x \<in> set (take j objs @ objs ! j # drop (Suc j) objs)" using assms(1,2) by (simp add: id_take_nth_drop [symmetric])
    then show ?thesis using True assms(3) by (auto simp: unmapped_objects_def)
  next
    case False
    have "objs[j := y] ! i = x" for y using i by simp
    then show ?thesis using False i(1) by (metis length_list_update nth_mem unmapped_objects_def)
  qed
qed

lemma sorted_wrt_update:
  assumes "sorted_wrt (\<lambda>x y. snd (fst x) < fst (fst y)) objs" and "j < length objs"
    and "fst (fst y) = fst (fst (objs ! j))" and "snd (fst y) \<le> (snd (fst (objs ! j)) :: u64)"
  shows "sorted_wrt (\<lambda>x y. snd (fst x) < fst (fst y)) (objs[j := y])"
  unfolding sorted_wrt_iff_nth_less
proof (intro allI impI)
  fix i k assume "i < k" "k < length (objs[j := y])"
  moreover from this have "snd (fst (objs ! i)) < fst (fst (objs ! k))"
    using sorted_wrt_nth_less [OF assms(1), of i k] by simp
  ultimately show "snd (fst (objs[j := y] ! i)) < fst (fst (objs[j := y] ! k))"
    using assms(2-4) by (cases "i = j"; cases "k = j") (auto intro: le_less_trans)
qed

lemma unmapped_objects_sorted:
  assumes "sorted_wrt (\<lambda>x y. snd (fst x) < fst (fst y)) objs" and "j < length objs" and "0 < base" and "base \<le> snd (fst (objs ! j))"
  shows "sorted_wrt (\<lambda>x y. snd (fst x) < fst (fst y)) (unmapped_objects j base objs)"
proof -
  have "base \<noteq> 0" using assms(3) by auto
  then have "base - 1 \<le> snd (fst (objs ! j))"
    using assms(4) by (simp add: word_le_nat_alt unat_minus_one)
  moreover have "sorted_wrt (\<lambda>x y. snd (fst x) < fst (fst y)) (take j objs @ objs ! j # drop (Suc j) objs)"
    using assms(1,2) by (simp add: id_take_nth_drop [symmetric])
  ultimately show ?thesis
    using sorted_wrt_update [OF assms(1,2)] by (auto simp: unmapped_objects_def sorted_wrt_append)
qed

lemma shortened_range:
  assumes "range_ok (lo, hi)" and "lo < base" and "base \<le> hi" and "unat base mod 4096 = 0"
  shows "range_ok (lo, base - 1) \<and> Suc (unat (base - 1) div 4096) = unat base div 4096"
proof -
  have "base \<noteq> 0" using assms(2) by auto
  then have u: "unat (base - 1) = unat base - 1" by (rule unat_minus_one)
  obtain q where q: "unat base = q * 4096" using assms(4) by (metis div_mult_mod_eq add_0_right)
  have "0 < q" using q \<open>base \<noteq> 0\<close> by (cases q) (auto simp: unat_eq_0)
  then obtain p where "q = Suc p" by (cases q) auto
  then have p: "unat (base - 1) = 4095 + p * 4096" "q = Suc p" using u q by simp_all
  have "unat (base - 1) mod 4096 = 4095" "unat (base - 1) div 4096 = p"
    unfolding p(1) by (simp_all only: mod_mult_self1 div_mult_self1) simp_all
  then show ?thesis using assms u q p(2) by (auto simp: range_ok_def word_le_nat_alt word_less_nat_alt)
qed

lemma space_ok_shrink:
  assumes ok: "space_ok sp s" and j: "j < length (as_objects sp)" "as_objects sp ! j = ((lo, hi), obj)"
    and base: "lo \<le> base" "base \<le> hi" "unat base mod 4096 = 0" and inv: "pt_inv (as_root sp) s'"
    and walk: "\<And>b. walk (snd s') (as_root sp) 3 b \<noteq> None \<Longrightarrow>
      walk (snd s) (as_root sp) 3 b \<noteq> None \<and> \<not> (unat base div 4096 \<le> unat (vpage b) \<and> unat (vpage b) \<le> unat hi div 4096)"
  shows "space_ok (sp\<lparr>as_objects := unmapped_objects j base (as_objects sp)\<rparr>) s'"
proof -
  let ?objs = "as_objects sp" let ?objs' = "unmapped_objects j base ?objs"
  note sok = ok [unfolded space_ok_def]
  have rok: "range_ok (lo, hi)" using sok j nth_mem [OF j(1)] by auto
  have short: "range_ok (lo, base - 1)" "Suc (unat (base - 1) div 4096) = unat base div 4096" if "base \<noteq> lo"
    using shortened_range [OF rok _ base(2,3)] base(1) that by auto
  have "0 < lo" using rok by (auto simp: range_ok_def MIN_ADDR_def word_le_nat_alt word_less_nat_alt)
  then have sorted: "sorted_wrt (\<lambda>x y. snd (fst x) < fst (fst y)) ?objs'"
    using sok j base by (intro unmapped_objects_sorted) auto
  have ranges: "\<forall>x \<in> set ?objs'. range_ok (fst x)"
    using unmapped_objects_in [OF j(1)] sok short(1) j(2) by fastforce
  have keep: "\<exists>x \<in> set ?objs'. in_range b (fst x)"
    if b: "walk (snd s') (as_root sp) 3 b \<noteq> None" and x: "x \<in> set ?objs" "in_range b (fst x)" for b x
  proof (cases "x = ?objs ! j")
    case True
    then have in1: "unat lo div 4096 \<le> unat (vpage b)" "unat (vpage b) \<le> unat hi div 4096"
      using x(2) j(2) in_range_iff [OF rok] by auto
    then have lt: "unat (vpage b) < unat base div 4096" using walk [OF b] by auto
    then have ne: "base \<noteq> lo" using in1 by auto
    have "in_range b (lo, base - 1)" unfolding in_range_iff [OF short(1) [OF ne]] using in1 lt short(2) [OF ne] by simp
    moreover have "((lo, base - 1), obj) \<in> set ?objs'"
      using ne j set_update_memI [OF j(1)] by (simp add: unmapped_objects_def)
    ultimately show ?thesis by force
  next
    case False
    then show ?thesis using unmapped_objects_keep [OF j(1) x(1)] x(2) by blast
  qed
  have "vpage b = vpage VSYSCALL_DATA_USER_ADDR \<or> (\<exists>x \<in> set ?objs'. in_range b (fst x))"
    if "walk (snd s') (as_root sp) 3 b \<noteq> None" "unat (vpage b) < 2 ^ 35" for b
    using keep [OF that(1)] walk [OF that(1)] sok that(2) by blast
  moreover have "as_root (sp\<lparr>as_objects := ?objs'\<rparr>) = as_root sp" "as_objects (sp\<lparr>as_objects := ?objs'\<rparr>) = ?objs'" by simp_all
  ultimately show ?thesis using inv sorted ranges unfolding space_ok_def by (simp only:) blast
qed

lemma unmap_object_ok:
  assumes ok: "space_ok sp s" and j: "j < length (as_objects sp)" "as_objects sp ! j = ((lo, hi), obj)"
    and base: "lo \<le> base" "base \<le> hi" "unat base mod 4096 = 0" and n: "hi = base + of_nat n * 4096 - 1" "n < 2 ^ 35"
    and mapped: "\<forall>b. page_off base b < n \<longrightarrow> (\<exists>e. walk (snd s) (as_root sp) 3 b = Some (0, e))"
  shows "\<exists>s'. unmap_object base n sp s = Some (sp\<lparr>as_objects := unmapped_objects j base (as_objects sp)\<rparr>, s')
    \<and> space_ok (sp\<lparr>as_objects := unmapped_objects j base (as_objects sp)\<rparr>) s'
    \<and> (\<forall>b. walk (snd s') (as_root sp) 3 b = (if page_off base b < n then None else walk (snd s) (as_root sp) 3 b))
    \<and> free_frames s' = free_frames s \<and> tables (snd s') (as_root sp) 3 = tables (snd s) (as_root sp) 3"
proof -
  let ?objs = "as_objects sp" and ?root = "as_root sp"
  obtain c m where s: "s = (c, m)" by fastforce
  note sok = ok [unfolded space_ok_def]
  have rok: "range_ok (lo, hi)" and le: "\<forall>x \<in> set ?objs. fst (fst x) \<le> snd (fst x)"
    using sok j nth_mem [OF j(1)] by (auto simp: range_ok_def)
  note r = range_pages [OF n(1) base(2) _ n(2) base(3)]
  have hi: "unat hi < 2 ^ 47" and lo: "0x10000 \<le> unat lo"
    using rok by (auto simp: range_ok_def MIN_ADDR_def word_le_nat_alt)
  have b0: "0x10000 \<le> unat base" using base(1) lo by (simp add: word_le_nat_alt)
  have pages: "unat base + of_nat n * 4096 \<le> 2 ^ 47" using r hi by simp
  have addr: "\<forall>i < n. base + of_nat i * 4096 \<noteq> 0"
  proof (intro allI impI)
    fix i assume "i < n"
    then have "unat (base + of_nat i * 4096) = unat base + i * 4096"
      using pages n(2) by (simp add: unat_word_ariths unsigned_of_nat take_bit_eq_mod)
    then show "base + of_nat i * 4096 \<noteq> 0" using b0 by (auto simp: unat_eq_0 [symmetric])
  qed
  note inv = conjunct1 [OF sok, unfolded s pt_inv_def snd_conv]
  obtain m' where m': "unmap_pages ?root base n m = Some (Inr (), m')" "tables m' ?root 3 = tables m ?root 3"
    "\<forall>x. x \<notin> set (tables m ?root 3) \<longrightarrow> m' x = m x"
    "\<forall>b. walk m' ?root 3 b = (if page_off base b < n then None else walk m ?root 3 b)"
    using unmap_pages_spec [OF _ _ addr, of m ?root] inv mapped n(2) s by auto
  have ff: "free_frames (c, m') = free_frames (c, m)" using m'(3) inv by (intro free_frames_cong) blast
  then have inv': "pt_inv ?root (c, m')" using inv m'(2) by (simp add: pt_inv_def chain_inv_def)
  have find: "find (\<lambda>i. fst (fst (?objs ! i)) \<le> base \<and> base \<le> snd (fst (?objs ! i))) [0..<length ?objs] = Some j"
    using sok le j base by (intro find_containing) auto
  have "hi \<noteq> 0" using b0 base(2) by (auto simp: word_le_nat_alt)
  then have "unmap_object_common base n ?objs = Some (unmapped_objects j base ?objs)"
    unfolding unmap_object_common_def find n(1) [symmetric] using j by (simp add: unmapped_objects_def Let_def)
  then have "unmap_object base n sp s = Some (sp\<lparr>as_objects := unmapped_objects j base ?objs\<rparr>, c, m')"
    using m'(1) s by (simp add: unmap_object_def)
  moreover have "page_off base b < n" if "unat base div 4096 \<le> unat (vpage b)" "unat (vpage b) \<le> unat hi div 4096" for b
  proof -
    have "unat (vpage base) = unat base div 4096" using pages by (simp add: unat_vpage_low)
    then have "page_off base b = unat (vpage b) - unat base div 4096"
      using that(1) by (simp add: page_off_def unat_sub word_le_nat_alt)
    then show ?thesis using that(2) r hi by linarith
  qed
  then have "space_ok (sp\<lparr>as_objects := unmapped_objects j base ?objs\<rparr>) (c, m')"
    using m'(4) s by (intro space_ok_shrink [OF ok j base inv']) (auto split: if_splits)
  ultimately show ?thesis using m'(2,4) s ff by auto
qed



section \<open>Permissions\<close>

lemma is_subset_of_trans: "is_subset_of p q \<Longrightarrow> is_subset_of q r \<Longrightarrow> is_subset_of p r"
  by (cases p; cases q; cases r) (simp_all add: is_subset_of_def intersection_def rwx_defs)

lemma intersection_subset: "intersection p q = Some r \<Longrightarrow> is_subset_of r p \<and> is_subset_of r q"
  by (cases p; cases q) (auto simp: is_subset_of_def intersection_def rwx_defs)

text \<open>
  C33. A handle whose permissions were restricted gives no way around the restriction: the masked object
  has the same pages, its permissions are those of the object and of the mask, and a mapping of it with
  a permission that the mask does not allow is refused.
\<close>

theorem masked_object_restricted:
  assumes "mask_permissions_object obj rwx = Some obj'"
  shows "physical_pages obj' = physical_pages obj \<and> is_subset_of (mo_rwx obj') (mo_rwx obj) \<and> is_subset_of (mo_rwx obj') rwx
    \<and> (\<not> is_subset_of perm rwx \<longrightarrow> offset mod PAGE_SIZE = 0 \<longrightarrow>
        map_object base obj' perm offset max_length sp s = Some (Inl Permission, sp, s))"
proof -
  have refl: "is_subset_of p p" "is_subset_of p RWX_RWX" for p
    by (cases p; simp add: is_subset_of_def intersection_def rwx_defs)+
  have "physical_pages obj' = physical_pages obj \<and> is_subset_of (mo_rwx obj') (mo_rwx obj) \<and> is_subset_of (mo_rwx obj') rwx"
    using assms intersection_subset [of "mo_rwx obj" rwx] refl
    by (auto simp: mask_permissions_object_def split: if_splits)
  then show ?thesis using is_subset_of_trans [of perm "mo_rwx obj'" rwx] by (auto simp: map_object_def)
qed

theorem masked_object_restricted_witness:
  "mask_permissions_object (frames_object [9]) RWX_R = Some ((frames_object [9])\<lparr>mo_rwx := RWX_R\<rparr>)
    \<and> map_object None ((frames_object [9])\<lparr>mo_rwx := RWX_R\<rparr>) RWX_RW 0 4096 space_example pt_example
      = Some (Inl Permission, space_example, pt_example)"
proof -
  have m: "mask_permissions_object (frames_object [9]) RWX_R = Some ((frames_object [9])\<lparr>mo_rwx := RWX_R\<rparr>)"
    by (simp add: mask_permissions_object_def frames_object_def is_subset_of_def intersection_def rwx_defs)
  from masked_object_restricted [OF m, of RWX_RW 0] m show ?thesis
    by (simp add: is_subset_of_def intersection_def rwx_defs)
qed

section \<open>Defects\<close>

text \<open>
  The first object of an address space cannot be mapped without a base: the default base lies below the
  reserved addresses.
\<close>

lemma first_mapping_reserved:
  "physical_pages_len obj \<noteq> 0 \<Longrightarrow> map_object_common [] 4096 None obj max_length = Some (Inl Reserved)"
  by (simp add: map_object_common_def find_free_range_def MIN_ADDR_def Let_def)

text \<open>A subrange of one page reports 4095 pages: it counts bytes as pages and misses the last byte.\<close>

lemma subrange_counts_bytes:
  "\<exists>r. subrange_new obj 0 4095 = Inr r \<and> physical_pages_len (subrange_object r) = 4095"
  by (simp add: subrange_new_def subrange_object_def PAGE_SIZE_def PAGE_MASK_def)

text \<open>An object in two slices loses the pages before the start twice.\<close>

lemma subrange_drops_twice: "subrange_calls 1 10 0 0 [[1, 2], [3, 4]] = [[2], [4]]"
  by simp

end
