(* ===== verification/Queue_Setup.thy ===== *)
theory Queue_Setup
  imports Io_Queue Virtual_Memory
begin

text \<open>
  Creating and destroying an I/O queue: the library's \<open>Queue::new\<close> (\<open>lib/rust/io_queue/src/lib.rs\<close>), the system
  calls \<open>create_io_queue\<close> and \<open>destroy_io_queue\<close> (\<open>kernel/src/scheduler/syscall.rs\<close>) and the kernel's operations
  behind them (\<open>kernel/src/scheduler/process/io.rs\<close>). The program and the kernel each compute the masks of
  the rings on their own, from a size that travels through a register; the memory of the rings is a
  frame that both sides see.
\<close>

section \<open>The kernel\<close>

datatype CreateQueueError = TooLarge | QueueMapError MapError

text \<open>The other variant of \<open>RemoveQueueError\<close> holds an \<open>UnmapError\<close>, an enumeration with no values.\<close>

datatype RemoveQueueError = QueueDoesNotExist

definition MAX_SIZE_P2 :: u8 where
  "MAX_SIZE_P2 = 15"

text \<open>A queue of a process with its frames, and the parts of a process that the operations change.\<close>

record kqueue = Queue +
  kq_frames :: "ppn list"

record qproc =
  qp_queues :: "kqueue list"
  qp_space :: AddressSpace
  qp_mem :: mem_state

text \<open>The rings in a frame that was cleared.\<close>

definition zero_rings :: "u32 \<Rightarrow> u32 \<Rightarrow> io_queue" where
  "zero_rings req resp = \<lparr>requests_mask = req, responses_mask = resp,
     request_ring = \<lparr>user_index = 0, kernel_index = 0, entries = replicate (unat (req + 1))
       \<lparr>rq_ty = 0, rq_arguments_8 = (0, 0, 0), rq_handle = 0, rq_arguments_64 = (0, 0), rq_user_data = 0\<rparr>\<rparr>,
     response_ring = \<lparr>user_index = 0, kernel_index = 0, entries = replicate (unat (resp + 1))
       \<lparr>rs_value = 0, rs_user_data = 0\<rparr>\<rparr>\<rparr>"

text \<open>
  When the frames cannot be mapped, they are dropped. \<open>dbg\<close> is whether freed frames are overwritten.
\<close>

definition create_io_queue ::
  "bool \<Rightarrow> u64 option \<Rightarrow> u8 \<Rightarrow> u8 \<Rightarrow> qproc \<Rightarrow> ((CreateQueueError + u64) \<times> qproc) panics" where
  "create_io_queue dbg base request_p2size response_p2size p =
     (if MAX_SIZE_P2 < request_p2size \<or> MAX_SIZE_P2 < response_p2size then Some (Inl TooLarge, p)
      else
        let req = push_bit (unat request_p2size) 1 - 1;
            resp = push_bit (unat response_p2size) 1 - 1;
            n = min_pages_for_bytes (total_size req resp)
        in do {
          assert (n = 1);
          (r, ms) \<leftarrow> owned_new n (qp_mem p);
          case r of
            Inl _ \<Rightarrow> None
          | Inr frames \<Rightarrow>
              do { (r, sp, ms) \<leftarrow> map_object base (frames_object frames) RWX_RW 0 usize_MAX (qp_space p) ms;
                   case r of
                     Inl e \<Rightarrow> Some (Inl (QueueMapError e), p\<lparr>qp_space := sp, qp_mem := owned_drop dbg frames ms\<rparr>)
                   | Inr (user_ptr, _) \<Rightarrow>
                       Some (Inr user_ptr, p\<lparr>qp_space := sp, qp_mem := ms,
                         qp_queues := qp_queues p @ [\<lparr>q_user_ptr = user_ptr, q_io = zero_rings req resp, q_pending = [],
                           kq_frames = frames\<rparr>]\<rparr>) } })"

text \<open>
  The mapping of the queue and the queue hold its frames; with both gone they are freed. A failure to
  unmap is a panic of \<open>unmap_object\<close>.
\<close>

definition destroy_io_queue :: "bool \<Rightarrow> u64 \<Rightarrow> qproc \<Rightarrow> ((RemoveQueueError + unit) \<times> qproc) panics" where
  "destroy_io_queue dbg base p =
     (case find (\<lambda>i. q_user_ptr (qp_queues p ! i) = base) [0..<length (qp_queues p)] of
        None \<Rightarrow> Some (Inl QueueDoesNotExist, p)
      | Some i \<Rightarrow>
          let q = qp_queues p ! i;
              n = min_pages_for_bytes (total_size (requests_mask (q_io q)) (responses_mask (q_io q)))
          in do {
            assert (n \<noteq> 0);
            (sp, ms) \<leftarrow> unmap_object base n (qp_space p) (qp_mem p);
            Some (Inr (), p\<lparr>qp_queues := take i (qp_queues p) @ drop (Suc i) (qp_queues p), qp_space := sp,
              qp_mem := owned_drop dbg (kq_frames q) ms\<rparr>) })"

section \<open>The system calls\<close>

definition non_null :: "usize \<Rightarrow> usize option" where
  "non_null a = (if a = 0 then None else Some a)"

definition syscall_create_io_queue ::
  "bool \<Rightarrow> usize \<Rightarrow> usize \<Rightarrow> usize \<Rightarrow> qproc \<Rightarrow> ((usize \<times> usize) \<times> qproc) panics" where
  "syscall_create_io_queue dbg base request_p2size response_p2size p =
     do { (r, p) \<leftarrow> create_io_queue dbg (non_null base) (ucast request_p2size) (ucast response_p2size) p;
          Some (case r of Inl _ \<Rightarrow> (1, 0) | Inr base \<Rightarrow> (0, base), p) }"

definition syscall_destroy_io_queue :: "bool \<Rightarrow> usize \<Rightarrow> qproc \<Rightarrow> ((usize \<times> usize) \<times> qproc) panics" where
  "syscall_destroy_io_queue dbg base p =
     (case non_null base of
        None \<Rightarrow> Some ((1, 0), p)
      | Some base \<Rightarrow>
          do { (r, p) \<leftarrow> destroy_io_queue dbg base p;
               Some (case r of Inl _ \<Rightarrow> (1, 0) | Inr _ \<Rightarrow> (0, 0), p) })"

section \<open>The library\<close>

text \<open>
  \<open>Queue::new\<close>, with the address of the rings. Its rings are the memory at that address: the rings in the
  frame that the address leads to. It has its own masks.
\<close>

definition rings_at :: "u64 \<Rightarrow> qproc \<Rightarrow> io_queue panics" where
  "rings_at base p =
     (case walk (snd (qp_mem p)) (as_root (qp_space p)) 3 base of
        Some (0, e) \<Rightarrow> map_option q_io (find (\<lambda>q. kq_frames q = [pte_ppn e]) (qp_queues p))
      | _ \<Rightarrow> None)"

definition lib_queue_new ::
  "bool \<Rightarrow> IoPow2Size \<Rightarrow> IoPow2Size \<Rightarrow> qproc \<Rightarrow> ((Error + u64 \<times> user_queue) \<times> qproc) panics" where
  "lib_queue_new dbg requests_size responses_size p =
     (let (_, args) = sys_create_io_queue None (into_p2size requests_size) (into_p2size responses_size) in
      do { (status, p) \<leftarrow> syscall_create_io_queue dbg (args ! 0) (args ! 1) (args ! 2) p;
           r \<leftarrow> sys_create_io_queue_ret status;
           case r of
             Inl e \<Rightarrow> Some (Inl e, p)
           | Inr base \<Rightarrow>
               do { rings \<leftarrow> rings_at base p;
                    Some (Inr (base, queue_new rings requests_size responses_size), p) } })"

section \<open>Facts\<close>

lemma owned_new_space:
  assumes "space_ok sp s" and "n \<le> length (free_frames s)"
  obtains ps s' where "owned_new n s = Some (Inr ps, s')" and "space_ok sp s'" and "length ps = n"
    and "\<And>b. walk (snd s') (as_root sp) 3 b = walk (snd s) (as_root sp) 3 b"
    and "free_frames s = ps @ free_frames s'" and "tables (snd s') (as_root sp) 3 = tables (snd s) (as_root sp) 3"
proof -
  let ?root = "as_root sp"
  note inv = assms(1) [unfolded space_ok_def pt_inv_def]
  obtain ps s' where n: "owned_new n s = Some (Inr ps, s')" "ps = take n (free_frames s)"
      "free_frames s' = drop n (free_frames s)" "chain_inv s'"
      "\<And>p. snd s' p = (if p \<in> set ps then (\<lambda>_. 0) else snd s p)"
    using owned_new_ok [OF _ assms(2)] inv by blast
  have sub: "set ps \<subseteq> set (free_frames s)" "set (free_frames s') \<subseteq> set (free_frames s)"
    using n(2,3) by (auto dest: in_set_takeD in_set_dropD)
  have same: "x \<in> set (tables (snd s) ?root 3) \<Longrightarrow> snd s' x = snd s x" for x using inv sub n(5) by auto
  have t: "tables (snd s') ?root 3 = tables (snd s) ?root 3" by (rule tables_cong [OF same])
  have w: "walk (snd s') ?root 3 b = walk (snd s) ?root 3 b" for b by (rule walk_cong [OF same])
  have "space_ok sp s'" unfolding space_ok_def pt_inv_def t w using inv sub(2) n(4) by blast
  moreover have "length ps = n" using n(2) assms(2) by (simp del: length_free_frames)
  moreover have "free_frames s = ps @ free_frames s'" using n(2,3) by simp
  ultimately show thesis using that n(1) w t by simp
qed

lemma zero_rings_ok:
  assumes "p < 32" "r < 32"
  shows "queue_ok (zero_rings (mask p) (mask r))" "requests (zero_rings (mask p) (mask r)) = []"
    "responses (zero_rings (mask p) (mask r)) = []" "request_cap (zero_rings (mask p) (mask r)) = 2 ^ p"
    "response_cap (zero_rings (mask p) (mask r)) = 2 ^ r"
  using assms
  by (auto simp: queue_ok_def request_ok_def response_ok_def ring_ok_def zero_rings_def mask_plus_one unat_exp32
      requests_def responses_def contents_def request_cap_def response_cap_def)

text \<open>
  A process whose address space is well-formed, and whose queues have a frame each that is neither free
  nor a table of the address space.
\<close>

definition queue_frames :: "qproc \<Rightarrow> ppn list" where
  "queue_frames p = concat (map kq_frames (qp_queues p))"

definition qproc_ok :: "qproc \<Rightarrow> bool" where
  "qproc_ok p \<longleftrightarrow> space_ok (qp_space p) (qp_mem p) \<and> (\<forall>q \<in> set (qp_queues p). length (kq_frames q) = 1)
     \<and> distinct (queue_frames p)
     \<and> set (queue_frames p) \<inter> (set (free_frames (qp_mem p)) \<union> set (tables (snd (qp_mem p)) (as_root (qp_space p)) 3)) = {}"

text \<open>Mapping one frame at an address that the address space chooses.\<close>

definition next_base :: "AddressSpace \<Rightarrow> u64" where
  "next_base sp = snd (fst (last (as_objects sp))) + 4097"

lemma next_base_ok:
  assumes ok: "space_ok sp s" and ne: "as_objects sp \<noteq> []"
    and hi: "unat (snd (fst (last (as_objects sp)))) + 8192 < 2 ^ 47"
  shows "map_object_common (as_objects sp) 4096 None (frames_object [f]) usize_MAX
      = Some (Inr ((next_base sp, next_base sp + 4095), length (as_objects sp)))"
    and "unat (next_base sp + 4095) < 2 ^ 47" and "next_base sp \<noteq> 0" 
    and "page_off (next_base sp) x = 0 \<Longrightarrow> walk (snd s) (as_root sp) 3 x = None"
proof -
  let ?lo = "next_base sp"
  have lo: "unat ?lo = unat (snd (fst (last (as_objects sp)))) + 4097" 
    using hi by (simp add: next_base_def unat_word_ariths)
  have free: "find_free_range (as_objects sp) 4096 = Some (?lo, length (as_objects sp))"
    "\<forall>x \<in> set (as_objects sp). snd (fst x) < ?lo" "unat ?lo mod 4096 = 0"
  proof -
    obtain l where l: "find_free_range (as_objects sp) 4096 = Some (l, length (as_objects sp))"
      "unat l = unat (snd (fst (last (as_objects sp)))) + 4097" "\<forall>x \<in> set (as_objects sp). snd (fst x) < l" "unat l mod 4096 = 0"
      using free_range [OF conjunct1 [OF conjunct2] conjunct1 [OF conjunct2 [OF conjunct2]] ne,
        OF ok [unfolded space_ok_def] ok [unfolded space_ok_def], of 4096] by (elim exE conjE) (rule that)
    have eq: "l = ?lo" unfolding word_unat_eq_iff using l(2) lo by simp
    show "find_free_range (as_objects sp) 4096 = Some (?lo, length (as_objects sp))"
      "\<forall>x \<in> set (as_objects sp). snd (fst x) < ?lo" "unat ?lo mod 4096 = 0"
      using l(1,3,4) unfolding eq by simp_all
  qed
  have min: "MIN_ADDR \<le> ?lo"
    using ok last_in_set [OF ne] lo by (fastforce simp: space_ok_def range_ok_def MIN_ADDR_def word_le_nat_alt)
  have end4: "unat (?lo + 4095) = unat ?lo + 4095" using lo hi by (simp add: unat_word_ariths)
  then have le: "?lo \<le> ?lo + 4095" by (simp add: word_le_nat_alt)
  then show "map_object_common (as_objects sp) 4096 None (frames_object [f]) usize_MAX
      = Some (Inr ((?lo, ?lo + 4095), length (as_objects sp)))"
    using free(1) min
    by (simp add: map_object_common_def frames_object_def usize_MAX_def PAGE_SIZE_def Let_def not_less add.commute [of 4095])
  show hi': "unat (?lo + 4095) < 2 ^ 47" using end4 lo hi by simp
  show "?lo \<noteq> 0" using lo by (auto simp: unat_eq_0 [symmetric])
  have "unat (?lo + 4095) mod 4096 = 4095" unfolding end4 by (subst mod_add_left_eq [symmetric]) (simp only: free(3), simp)
  then have r: "range_ok (?lo, ?lo + 4095)" using min le hi' free(3) by (simp add: range_ok_def)
  have i: "in_range ?lo (?lo, ?lo + 4095)" unfolding in_range_iff [OF r] using end4 hi' by (simp add: unat_vpage_low div_le_mono)
  have v: "unat (vpage ?lo) < 2 ^ 35" using end4 hi' by (simp add: unat_vpage_low)
  show "walk (snd s) (as_root sp) 3 x = None" if "page_off ?lo x = 0"
  proof -
    have x: "vpage x = vpage ?lo" using that by (simp add: page_off_def unat_eq_0)
    then have "in_range x (?lo, ?lo + 4095)" using i by (simp add: in_range_def)
    then show ?thesis using range_unmapped [OF ok r] free(2) v x by simp
  qed
qed

lemma window_frame: "window 0 usize_MAX (concat (physical_pages (frames_object [f]))) = [f]"
  by (simp add: window_def frames_object_def usize_MAX_def PAGE_SIZE_def)

lemma map_frame_ok:
  assumes ok: "space_ok sp s" and ne: "as_objects sp \<noteq> []"
    and hi: "unat (snd (fst (last (as_objects sp)))) + 8192 < 2 ^ 47" and room: "3 \<le> length (free_frames s)"
  obtains sp' s' where "map_object None (frames_object [f]) RWX_RW 0 usize_MAX sp s
      = Some (Inr (next_base sp, 4096), sp', s')"
    and "space_ok sp' s'" and "as_root sp' = as_root sp"
    and "mset (as_objects sp') = add_mset ((next_base sp, next_base sp + 4095), frames_object [f]) (mset (as_objects sp))"
    and "\<forall>b. walk (snd s') (as_root sp) 3 b = (if page_off (next_base sp) b = 0
      then Some (0, page_entry f True True False False) else walk (snd s) (as_root sp) 3 b)"
proof -
  let ?lo = "next_base sp" and ?o = "frames_object [f]"
  note n = next_base_ok [OF ok ne hi]
  have pre: "is_subset_of RWX_RW (mo_rwx ?o)" "0 mod PAGE_SIZE = 0" "physical_pages_len ?o = length (concat (physical_pages ?o))"
      "physical_pages_len ?o < 2 ^ 35" "3 * physical_pages_len ?o \<le> length (free_frames s)"
      "(None :: u64 option) \<noteq> None \<longrightarrow> unat ?lo mod 4096 = 0 \<and> (\<forall>x \<in> set (as_objects sp). ?lo + 4095 < fst (fst x) \<or> snd (fst x) < ?lo)"
    using room by (simp_all add: frames_object_def is_subset_of_def intersection_def rwx_defs del: length_free_frames)
  have e: "(if page_off ?lo b < length [f]
         then Some (0 :: nat, page_entry ([f] ! page_off ?lo b) True (rwx_w RWX_RW) (mo_write_combining ?o) False) else x)
     = (if page_off ?lo b = 0 then Some (0, page_entry f True True False False) else x)" for b x
    by (simp add: frames_object_def rwx_defs)
  from map_object_ok [OF ok pre(1,2) n(1) pre(3,4) n(2) pre(5,6)] obtain sp' s' where
    "map_object None ?o RWX_RW 0 usize_MAX sp s = Some (Inr (?lo, ?lo + 4095 - ?lo + 1), sp', s')"
    "space_ok sp' s'" "as_root sp' = as_root sp" "mset (as_objects sp') = add_mset ((?lo, ?lo + 4095), ?o) (mset (as_objects sp))"
    "\<forall>b. walk (snd s') (as_root sp) 3 b = (if page_off ?lo b = 0
         then Some (0, page_entry f True True False False) else walk (snd s) (as_root sp) 3 b)"
    unfolding window_frame Let_def e by blast
  then show thesis by (intro that) simp_all
qed

text \<open>The tables that mapping a frame adds are frames that were free.\<close>

lemma map_frame_tables:
  assumes ok: "space_ok sp s" and ne: "as_objects sp \<noteq> []"
    and hi: "unat (snd (fst (last (as_objects sp)))) + 8192 < 2 ^ 47" and room: "3 \<le> length (free_frames s)"
    and m: "map_object None (frames_object [f]) RWX_RW 0 usize_MAX sp s = Some (Inr r, sp', s')"
  obtains used where "free_frames s = used @ free_frames s'"
    and "set (tables (snd s') (as_root sp) 3) = set used \<union> set (tables (snd s) (as_root sp) 3)"
proof -
  let ?a = "\<lparr>ma_writeable = rwx_w RWX_RW, ma_user = True, ma_write_combining = mo_write_combining (frames_object [f]),
    ma_global = False\<rparr>"
  note n = next_base_ok [OF ok ne hi]
  obtain st where st: "map_slices (as_root sp) ?a (physical_pages (frames_object [f]))
      \<lparr>ms_address = next_base sp, ms_offset = 0, ms_max_length = usize_MAX, ms_mem = s\<rparr> = Some st" "s' = ms_mem st"
    using m n(1) [of f] by (auto simp: map_object_def split: if_splits bind_splits sum.splits)
  obtain r1 s1 where p: "map_page (as_root sp) ?a (next_base sp) f s = Some (r1, s1)"
      "map_page_post (as_root sp) ?a (next_base sp) f s r1 s1"
    using map_page_spec [OF _ n(4), of "next_base sp" ?a f] ok by (auto simp: space_ok_def page_off_def)
  have "r1 = Inr ()" using p(2) room steps_left_bound [of "snd s" "as_root sp" "next_base sp"]
    by (auto simp: map_page_post_def simp del: length_free_frames)
  then have "map_pages (as_root sp) ?a (next_base sp) (window 0 usize_MAX (concat (physical_pages (frames_object [f])))) s
      = Some (Inr (), s1)" unfolding window_frame using p(1) by simp
  then have "s1 = s'" using map_slices_pages st by fastforce
  then show thesis using p(2) that by (auto simp: map_page_post_def)
qed

section \<open>Creating a queue\<close>

lemma ring_sizes: "p < 32 \<Longrightarrow> r < 32 \<Longrightarrow> total_size (mask p) (mask r) = 16 + 2 ^ p * 32 + 2 ^ r * 16"
  by (simp add: total_size_def request_ring_size_def response_ring_size_def mask_plus_one unat_exp32)

lemma one_page:
  assumes "p < 32" "r < 32" shows "min_pages_for_bytes (total_size (mask p) (mask r)) = 1 \<longleftrightarrow> total_size (mask p) (mask r) \<le> PAGE_SIZE"
proof -
  have "(2 :: nat) ^ p \<le> 2 ^ 31" "(2 :: nat) ^ r \<le> 2 ^ 31" using assms by (intro power_increasing; simp)+
  then have "total_size (mask p) (mask r) \<le> isize_MAX" unfolding ring_sizes [OF assms] isize_MAX_def by simp
  moreover have "0 < total_size (mask p) (mask r)" unfolding ring_sizes [OF assms] by simp
  moreover have "(n + 4096 - 1) div 4096 = 1 \<longleftrightarrow> n \<le> 4096" if "0 < n" for n :: nat
    using that div_nat_eqI [of 4096 1 "n + 4095"] div_mult_mod_eq [of "n + 4095" 4096] mod_less_divisor [of 4096 "n + 4095"] by auto
  ultimately show ?thesis by (simp only: min_pages_for_bytes_eq PAGE_SIZE_def)
qed

lemma fits_small:
  assumes "p < 32" "r < 32" "total_size (mask p) (mask r) \<le> PAGE_SIZE" shows "p < 7" "r < 8"
proof -
  have s: "(2 :: nat) ^ p < 2 ^ 7" "(2 :: nat) ^ r < 2 ^ 8"
    using assms(3) by (simp_all add: ring_sizes [OF assms(1,2)] PAGE_SIZE_def)
  show "p < 7" by (rule power_less_imp_less_exp [OF _ s(1)]) simp
  show "r < 8" by (rule power_less_imp_less_exp [OF _ s(2)]) simp
qed

definition created :: "u64 \<Rightarrow> nat \<Rightarrow> nat \<Rightarrow> ppn \<Rightarrow> kqueue" where
  "created base p r f = \<lparr>q_user_ptr = base, q_io = zero_rings (mask p) (mask r), q_pending = [], kq_frames = [f]\<rparr>"

lemma create_io_queue_ok:
  assumes ok: "qproc_ok p" and ne: "as_objects (qp_space p) \<noteq> []"
    and hi: "unat (snd (fst (last (as_objects (qp_space p))))) + 8192 < 2 ^ 47" and room: "4 \<le> length (free_frames (qp_mem p))"
    and fits: "unat a < 32" "unat b < 32" "total_size (mask (unat a)) (mask (unat b)) \<le> PAGE_SIZE"
  obtains f p' where "create_io_queue dbg None a b p = Some (Inr (next_base (qp_space p)), p')" and "qproc_ok p'"
    and "qp_queues p' = qp_queues p @ [created (next_base (qp_space p)) (unat a) (unat b) f]" and "f \<notin> set (queue_frames p)"
    and "as_root (qp_space p') = as_root (qp_space p)"
    and "\<forall>x. walk (snd (qp_mem p')) (as_root (qp_space p)) 3 x = (if page_off (next_base (qp_space p)) x = 0
      then Some (0, page_entry f True True False False) else walk (snd (qp_mem p)) (as_root (qp_space p)) 3 x)"
    and "mset (as_objects (qp_space p')) = add_mset ((next_base (qp_space p), next_base (qp_space p) + 4095), frames_object [f])
      (mset (as_objects (qp_space p)))"
proof -
  let ?sp = "qp_space p" and ?t = "\<lambda>s. set (tables (snd s) (as_root (qp_space p)) 3)"
  note inv = ok [unfolded qproc_ok_def]
  have sok: "space_ok ?sp (qp_mem p)" using inv by blast
  have "1 \<le> length (free_frames (qp_mem p))" using room by linarith
  from owned_new_space [OF sok this] obtain ps s1 where
    s1: "owned_new 1 (qp_mem p) = Some (Inr ps, s1)" "space_ok ?sp s1" "length ps = 1" "free_frames (qp_mem p) = ps @ free_frames s1"
      "\<And>x. walk (snd s1) (as_root ?sp) 3 x = walk (snd (qp_mem p)) (as_root ?sp) 3 x" "?t s1 = ?t (qp_mem p)" by metis
  obtain f where f: "ps = [f]" using s1(3) by (auto simp: length_Suc_conv)
  have room1: "3 \<le> length (free_frames s1)" using room s1(3,4) by (simp del: length_free_frames)
  obtain sp' s2 where m: "map_object None (frames_object [f]) RWX_RW 0 usize_MAX ?sp s1 = Some (Inr (next_base ?sp, 4096), sp', s2)"
    "space_ok sp' s2" "as_root sp' = as_root ?sp"
    "mset (as_objects sp') = add_mset ((next_base ?sp, next_base ?sp + 4095), frames_object [f]) (mset (as_objects ?sp))"
    "\<forall>b. walk (snd s2) (as_root ?sp) 3 b = (if page_off (next_base ?sp) b = 0
      then Some (0, page_entry f True True False False) else walk (snd s1) (as_root ?sp) 3 b)"
    using map_frame_ok [OF s1(2) ne hi room1] by blast
  obtain used where used: "free_frames s1 = used @ free_frames s2" "?t s2 = set used \<union> ?t s1"
    using map_frame_tables [OF s1(2) ne hi room1 m(1)] by blast
  let ?q = "created (next_base ?sp) (unat a) (unat b) f"
  let ?p = "p\<lparr>qp_space := sp', qp_mem := s2, qp_queues := qp_queues p @ [?q]\<rparr>"
  have "a \<le> MAX_SIZE_P2" "b \<le> MAX_SIZE_P2" using fits_small [OF fits] by (simp_all add: MAX_SIZE_P2_def word_le_nat_alt)
  then have "create_io_queue dbg None a b p = Some (Inr (next_base ?sp), ?p)"
    using s1(1) f m(1) fits(3) one_page [OF fits(1,2)] fits(1,2)
    by (simp add: create_io_queue_def mask_eq_exp_minus_1 Let_def not_less created_def)
  moreover have fresh: "f \<notin> set (queue_frames p)" using inv s1(4) f by auto
  moreover have "qproc_ok ?p"
  proof -
    have "distinct (free_frames (qp_mem p))" "f \<notin> ?t (qp_mem p)"
      using sok s1(4) f by (auto simp: space_ok_def pt_inv_def chain_inv_def)
    then have "f \<notin> set (free_frames s2) \<union> ?t s2" using s1(4,6) used f by auto
    moreover have "set (free_frames s2) \<union> ?t s2 \<subseteq> set (free_frames (qp_mem p)) \<union> ?t (qp_mem p)" using s1(4,6) used by auto
    ultimately show ?thesis using inv m(2,3) fresh by (auto simp: qproc_ok_def queue_frames_def created_def)
  qed
  ultimately show thesis using m(3-5) s1(5) by (intro that [of ?p f]) simp_all
qed

lemma find_snoc: "\<forall>x \<in> set xs. \<not> P x \<Longrightarrow> P y \<Longrightarrow> find P (xs @ [y]) = Some y"
  by (induction xs) auto

lemma rings_at_created:
  assumes "qp_queues p' = qp_queues p @ [kq]" and "kq_frames kq = [f]" and "f \<notin> set (queue_frames p)"
    and "walk (snd (qp_mem p')) (as_root (qp_space p')) 3 base = Some (0, page_entry f True True False False)"
  shows "rings_at base p' = Some (q_io kq)"
proof -
  have "\<forall>q \<in> set (qp_queues p). kq_frames q \<noteq> [f]" using assms(3) by (force simp: queue_frames_def)
  then have "find (\<lambda>q. kq_frames q = [f]) (qp_queues p') = Some kq" unfolding assms(1) using assms(2) by (intro find_snoc)
  then show ?thesis using assms(4) by (simp add: rings_at_def)
qed

text \<open>The sizes pass through the registers of the system call unchanged.\<close>

lemma lib_queue_new_eq:
  "lib_queue_new dbg requests_size responses_size p =
     do { (r, p) \<leftarrow> create_io_queue dbg None (into_p2size requests_size) (into_p2size responses_size) p;
          r \<leftarrow> sys_create_io_queue_ret (case r of Inl _ \<Rightarrow> (1, 0) | Inr base \<Rightarrow> (0, base));
          case r of Inl e \<Rightarrow> Some (Inl e, p)
          | Inr base \<Rightarrow> do { rings \<leftarrow> rings_at base p; Some (Inr (base, queue_new rings requests_size responses_size), p) } }"
proof -
  have "ucast (ucast x :: usize) = x" for x :: u8 by (rule bit_word_eqI) (auto simp: bit_ucast_iff dest: bit_imp_le_length)
  then show ?thesis
    by (cases "create_io_queue dbg None (into_p2size requests_size) (into_p2size responses_size) p")
      (simp_all add: lib_queue_new_def sys_create_io_queue_def null_or_def syscall_create_io_queue_def non_null_def split_beta)
qed

lemma lib_queue_new_too_large:
  assumes "requests_size < 32" "responses_size < 32" "\<not> total_size (mask requests_size) (mask responses_size) \<le> PAGE_SIZE"
  shows "lib_queue_new dbg requests_size responses_size p = None"
proof -
  let ?c = "create_io_queue dbg None (into_p2size requests_size) (into_p2size responses_size) p"
  have "?c = None \<or> ?c = Some (Inl TooLarge, p)"
    using assms(3) one_page [OF assms(1,2)] assms(1,2)
    by (auto simp: create_io_queue_def Let_def mask_eq_exp_minus_1 into_p2size_eq)
  then show ?thesis unfolding lib_queue_new_eq by (auto simp: sys_create_io_queue_ret_def ret_def result_def)
qed

text \<open>
  C25. A queue of two sizes, of an address space with room for one more page and with enough free frames:
  when its rings fit in a page, \<open>Queue::new\<close> returns a queue that shares its rings with exactly one new queue of
  the kernel, whose masks the kernel computed on its own, with both rings empty, of the capacities asked
  for, and with nothing in flight; the sizes read back are those asked for. The page of the queue leads
  to its frame, writeable, and no other address changes. When the rings do not fit, nothing is created
  and the call does not return: the kernel panics, or it refuses with a status that the library takes
  for success and then panics on the missing address.
\<close>

theorem queue_created_agrees:
  assumes ok: "qproc_ok p" and ne: "as_objects (qp_space p) \<noteq> []"
    and hi: "unat (snd (fst (last (as_objects (qp_space p))))) + 8192 < 2 ^ 47" and room: "4 \<le> length (free_frames (qp_mem p))"
    and sizes: "requests_size < 32" "responses_size < 32"
  shows "if total_size (io_into_mask requests_size) (io_into_mask responses_size) \<le> PAGE_SIZE
    then \<exists>base uq p' kq. lib_queue_new dbg requests_size responses_size p = Some (Inr (base, uq), p')
      \<and> qp_queues p' = qp_queues p @ [kq] \<and> q_user_ptr kq = base \<and> q_pending kq = []
      \<and> uq_inner uq = q_io kq \<and> requests_in_flight uq = 0
      \<and> queue_ok (q_io kq) \<and> requests (q_io kq) = [] \<and> responses (q_io kq) = []
      \<and> request_cap (q_io kq) = 2 ^ requests_size \<and> response_cap (q_io kq) = 2 ^ responses_size
      \<and> queue_requests_size uq = Some requests_size \<and> queue_responses_size uq = Some responses_size
      \<and> qproc_ok p' \<and> as_root (qp_space p') = as_root (qp_space p)
      \<and> (\<forall>x. walk (snd (qp_mem p')) (as_root (qp_space p)) 3 x = (if page_off base x = 0
           then Some (0, page_entry (hd (kq_frames kq)) True True False False)
           else walk (snd (qp_mem p)) (as_root (qp_space p)) 3 x))
    else lib_queue_new dbg requests_size responses_size p = None"
proof (cases "total_size (mask requests_size) (mask responses_size) \<le> PAGE_SIZE")
  case False
  then show ?thesis using lib_queue_new_too_large [OF sizes False] sizes by (simp add: io_into_mask_eq)
next
  case True
  let ?a = "into_p2size requests_size" and ?b = "into_p2size responses_size" and ?base = "next_base (qp_space p)"
  have u: "unat ?a = requests_size" "unat ?b = responses_size" "io_into_mask requests_size = mask requests_size"
    "io_into_mask responses_size = mask responses_size"
    using sizes by (simp_all add: into_p2size_eq io_into_mask_eq)
  have fits: "unat ?a < 32" "unat ?b < 32" "total_size (mask (unat ?a)) (mask (unat ?b)) \<le> PAGE_SIZE"
    using sizes True unfolding u by blast+
  obtain f p' where c: "create_io_queue dbg None ?a ?b p = Some (Inr ?base, p')" "qproc_ok p'"
    "qp_queues p' = qp_queues p @ [created ?base requests_size responses_size f]" "f \<notin> set (queue_frames p)"
    "as_root (qp_space p') = as_root (qp_space p)"
    "\<forall>x. walk (snd (qp_mem p')) (as_root (qp_space p)) 3 x = (if page_off ?base x = 0
      then Some (0, page_entry f True True False False) else walk (snd (qp_mem p)) (as_root (qp_space p)) 3 x)"
    using create_io_queue_ok [OF ok ne hi room fits] unfolding u by blast
  let ?kq = "created ?base requests_size responses_size f"
  let ?uq = "queue_new (q_io ?kq) requests_size responses_size"
  have kq: "q_user_ptr ?kq = ?base" "q_pending ?kq = []" "kq_frames ?kq = [f]" "hd (kq_frames ?kq) = f"
    by (simp_all add: created_def)
  have "rings_at ?base p' = Some (q_io ?kq)" using c(5,6) by (intro rings_at_created [OF c(3) kq(3) c(4)]) (simp add: page_off_def)
  moreover have "?base \<noteq> 0" using next_base_ok(3) [OF _ ne hi] ok unfolding qproc_ok_def by blast
  ultimately have "lib_queue_new dbg requests_size responses_size p = Some (Inr (?base, ?uq), p')"
    unfolding lib_queue_new_eq using c(1) by (simp add: sys_create_io_queue_ret_def ret_def result_def)
  moreover have "uq_inner ?uq = q_io ?kq" "requests_in_flight ?uq = 0"
    unfolding queue_new_def u(3,4) by (simp_all add: created_def zero_rings_def)
  moreover have "queue_requests_size ?uq = Some requests_size" "queue_responses_size ?uq = Some responses_size"
    using sizes by (simp_all add: queue_requests_size_def queue_responses_size_def queue_new_def approx_mask_into_mask)
  moreover have "queue_ok (q_io ?kq)" "requests (q_io ?kq) = []" "responses (q_io ?kq) = []"
      "request_cap (q_io ?kq) = 2 ^ requests_size" "response_cap (q_io ?kq) = 2 ^ responses_size"
    using zero_rings_ok [OF sizes] by (simp_all add: created_def)
  ultimately show ?thesis
    unfolding u(3,4) using True c kq by (simp only: if_True True, intro exI [of _ ?base] exI [of _ ?uq] exI [of _ p'] exI [of _ ?kq]) simp
qed

text \<open>A process with one mapped range and four free frames.\<close>

definition qproc_example :: qproc where
  "qproc_example = \<lparr>qp_queues = [], qp_space = \<lparr>as_root = 0, as_objects = [((0x10000, 0x10fff), frames_object [9])]\<rparr>,
     qp_mem = pt_example4\<rparr>"

lemma qproc_example_ok:
  "qproc_ok qproc_example" "as_objects (qp_space qproc_example) \<noteq> []"
  "unat (snd (fst (last (as_objects (qp_space qproc_example))))) + 8192 < 2 ^ 47" "4 \<le> length (free_frames (qp_mem qproc_example))"
proof -
  have z: "snd pt_example4 0 = (\<lambda>_. 0)" by (simp add: pt_example4_def)
  have "cells g h 4 = [h, g h, g (g h), g (g (g h))]" for g :: "ppn \<Rightarrow> ppn" and h by (simp add: eval_nat_numeral)
  then have ff: "free_frames pt_example4 = [1, 2, 3, 4]" by (simp add: pt_example4_def free_frames_def read_ppn_def)
  have "walk (snd pt_example4) 0 3 b = None" for b by (rule empty_table(2)) (rule z)
  then have "space_ok (qp_space qproc_example) pt_example4"
    using empty_table(1) [of "snd pt_example4" 0 3, OF z] ff
    by (simp add: space_ok_def qproc_example_def pt_inv_def chain_inv_def range_ok_def MIN_ADDR_def)
  then show "qproc_ok qproc_example" by (simp add: qproc_ok_def qproc_example_def queue_frames_def)
  show "4 \<le> length (free_frames (qp_mem qproc_example))" unfolding qproc_example_def by (simp add: ff del: length_free_frames)
qed (simp_all add: qproc_example_def)

theorem queue_created_agrees_witness:
  "(\<exists>base uq p' kq. lib_queue_new False 5 6 qproc_example = Some (Inr (base, uq), p') \<and> qp_queues p' = [kq]
      \<and> uq_inner uq = q_io kq \<and> request_cap (q_io kq) = 32 \<and> response_cap (q_io kq) = 64)
   \<and> lib_queue_new False 7 7 qproc_example = None \<and> lib_queue_new False 16 2 qproc_example = None"
proof -
  note c = queue_created_agrees [OF qproc_example_ok, where dbg = False]
  have s: "total_size (io_into_mask 5) (io_into_mask 6) \<le> PAGE_SIZE" "\<not> total_size (io_into_mask 7) (io_into_mask 7) \<le> PAGE_SIZE"
      "\<not> total_size (io_into_mask 16) (io_into_mask 2) \<le> PAGE_SIZE"
    by (simp_all add: io_into_mask_eq ring_sizes PAGE_SIZE_def)
  have "qp_queues qproc_example = []" by (simp add: qproc_example_def)
  then have "\<exists>base uq p' kq. lib_queue_new False 5 6 qproc_example = Some (Inr (base, uq), p') \<and> qp_queues p' = [kq]
      \<and> uq_inner uq = q_io kq \<and> request_cap (q_io kq) = 2 ^ 5 \<and> response_cap (q_io kq) = 2 ^ 6"
    using c [of 5 6] s(1) by (simp only: if_True append_Nil) (force simp del: One_nat_def)
  then show ?thesis using c [of 7 7] c [of 16 2] s(2,3) by simp
qed

section \<open>Destroying a queue\<close>

lemma owned_drop_space:
  assumes "space_ok sp s" and "distinct ps" and "set ps \<inter> (set (free_frames s) \<union> set (tables (snd s) (as_root sp) 3)) = {}"
  shows "space_ok sp (owned_drop dbg ps s)" and "free_frames (owned_drop dbg ps s) = rev ps @ free_frames s"
    and "tables (snd (owned_drop dbg ps s)) (as_root sp) 3 = tables (snd s) (as_root sp) 3"
    and "walk (snd (owned_drop dbg ps s)) (as_root sp) 3 b = walk (snd s) (as_root sp) 3 b"
proof -
  let ?root = "as_root sp" and ?s = "owned_drop dbg ps s"
  note inv = assms(1) [unfolded space_ok_def pt_inv_def]
  have "set ps \<inter> set (free_frames s) = {}" using assms(3) by blast
  from deallocate_spec [OF assms(2) this] show ff: "free_frames ?s = rev ps @ free_frames s" by (simp add: owned_drop_def)
  have same: "x \<in> set (tables (snd s) ?root 3) \<Longrightarrow> snd ?s x = snd s x" for x
    using assms(3) by (auto simp: owned_drop_def intro!: deallocate_mem)
  show t: "tables (snd ?s) ?root 3 = tables (snd s) ?root 3" by (rule tables_cong [OF same])
  have w: "walk (snd ?s) ?root 3 b = walk (snd s) ?root 3 b" for b by (rule walk_cong [OF same])
  then show "walk (snd ?s) ?root 3 b = walk (snd s) ?root 3 b" .
  have "chain_inv ?s" using inv assms(2,3) unfolding chain_inv_def ff by auto
  moreover have "set (tables (snd s) ?root 3) \<inter> set (free_frames ?s) = {}" using inv assms(3) unfolding ff by auto
  ultimately show "space_ok sp ?s" unfolding space_ok_def pt_inv_def t w using inv by blast
qed

lemma mset_remove_nth: "j < length xs \<Longrightarrow> mset (take j xs @ drop (Suc j) xs) = mset xs - {#xs ! j#}"
  by (metis (no_types, lifting) add_mset_remove_trivial id_take_nth_drop mset.simps(2) mset_append union_mset_add_mset_right)

lemma find_index_last:
  assumes "\<forall>q \<in> set qs. \<not> P q" and "P k"
  shows "find (\<lambda>i. P ((qs @ [k]) ! i)) [0..<length (qs @ [k])] = Some (length qs)"
  unfolding find_Some_iff using assms by (intro exI [of _ "length qs"]) (auto simp: nth_append)

lemma destroy_io_queue_ok:
  assumes ok: "qproc_ok p" and qs: "qp_queues p = qs @ [created base na nb f]" "\<forall>q \<in> set qs. q_user_ptr q \<noteq> base"
    and fits: "na < 32" "nb < 32" "total_size (mask na) (mask nb) \<le> PAGE_SIZE"
    and obj: "((base, base + 4095), obj) \<in> set (as_objects (qp_space p))"
    and mapped: "\<forall>x. page_off base x = 0 \<longrightarrow> (\<exists>e. walk (snd (qp_mem p)) (as_root (qp_space p)) 3 x = Some (0, e))"
  obtains p' where "destroy_io_queue dbg base p = Some (Inr (), p')" and "qproc_ok p'" and "qp_queues p' = qs"
    and "as_root (qp_space p') = as_root (qp_space p)"
    and "mset (as_objects (qp_space p')) = mset (as_objects (qp_space p)) - {#((base, base + 4095), obj)#}"
    and "\<forall>x. walk (snd (qp_mem p')) (as_root (qp_space p)) 3 x =
      (if page_off base x = 0 then None else walk (snd (qp_mem p)) (as_root (qp_space p)) 3 x)"
    and "free_frames (qp_mem p') = f # free_frames (qp_mem p)"
proof -
  let ?sp = "qp_space p" and ?s = "qp_mem p"
  note inv = ok [unfolded qproc_ok_def]
  have sok: "space_ok ?sp ?s" using inv by blast
  obtain j where j: "j < length (as_objects ?sp)" "as_objects ?sp ! j = ((base, base + 4095), obj)" using obj by (metis in_set_conv_nth)
  have r: "range_ok (base, base + 4095)" using sok obj unfolding space_ok_def by (metis fst_conv)
  have b: "base \<le> base" "base \<le> base + 4095" "unat base mod 4096 = 0" "base + 4095 = base + of_nat 1 * 4096 - 1" "(1 :: nat) < 2 ^ 35"
    using r by (simp_all add: range_ok_def)
  have m1: "\<forall>x. page_off base x < 1 \<longrightarrow> (\<exists>e. walk (snd ?s) (as_root ?sp) 3 x = Some (0, e))" using mapped by simp
  let ?sp' = "?sp\<lparr>as_objects := unmapped_objects j base (as_objects ?sp)\<rparr>"
  obtain s' where s': "unmap_object base 1 ?sp ?s = Some (?sp', s')" "space_ok ?sp' s'"
    "\<forall>x. walk (snd s') (as_root ?sp) 3 x = (if page_off base x < 1 then None else walk (snd ?s) (as_root ?sp) 3 x)"
    "free_frames s' = free_frames ?s" "tables (snd s') (as_root ?sp) 3 = tables (snd ?s) (as_root ?sp) 3"
    using unmap_object_ok [OF sok j b m1] by (elim exE conjE) (rule that)
  let ?p = "p\<lparr>qp_queues := qs, qp_space := ?sp', qp_mem := owned_drop dbg [f] s'\<rparr>"
  have f: "f \<notin> set (free_frames ?s) \<union> set (tables (snd ?s) (as_root ?sp) 3)" "f \<notin> set (concat (map kq_frames qs))"
    using inv by (auto simp: queue_frames_def qs(1) created_def)
  then have "set [f] \<inter> (set (free_frames s') \<union> set (tables (snd s') (as_root ?sp') 3)) = {}" using s'(4,5) by simp
  note d = owned_drop_space [OF s'(2) _ this, of dbg, simplified]
  have "find (\<lambda>i. q_user_ptr (qp_queues p ! i) = base) [0..<length (qp_queues p)] = Some (length qs)"
    unfolding qs(1) by (rule find_index_last [where P = "\<lambda>q. q_user_ptr q = base"]) (use qs(2) in \<open>simp_all add: created_def\<close>)
  then have "destroy_io_queue dbg base p = Some (Inr (), ?p)"
    using s'(1) fits(3) one_page [OF fits(1,2)]
    by (simp add: destroy_io_queue_def qs(1) created_def zero_rings_def Let_def)
  moreover have "qproc_ok ?p"
    using inv d(1-3) s'(4,5) f by (auto simp: qproc_ok_def queue_frames_def qs(1))
  moreover have "mset (unmapped_objects j base (as_objects ?sp)) = mset (as_objects ?sp) - {#((base, base + 4095), obj)#}"
    using j mset_remove_nth [OF j(1)] by (simp add: unmapped_objects_def)
  ultimately show thesis using d(2,4) s'(3,4) by (intro that [of ?p]) simp_all
qed



end
