(* ===== verification/Handle_Arena.thy ===== *)
theory Handle_Arena
  imports Arena
begin

text \<open>
  The arena of \<open>lib/rust/driver_utils/src/arena.rs\<close>: an arena without generations whose entries are
  named by 32-bit handles. It is the table that drivers and the window manager keep their objects in.
  It meets the contract of a handle table as long as it holds fewer than $2^{32}$ entries.
\<close>

section \<open>Operations\<close>

type_synonym 'v harena = "('v, unit) arena"

definition convert_to_handle :: "u32 \<Rightarrow> unit handle" where
  "convert_to_handle h = from_raw (unat h) ()"

definition convert_from_handle :: "unit handle \<Rightarrow> u32 option" where
  "convert_from_handle h = (let (i, _) = into_raw h in if i < 2 ^ 32 then Some (of_nat i) else None)"

definition ha_new :: "'v harena" where
  "ha_new = arena_default ()"

definition ha_insert :: "'v \<Rightarrow> 'v harena \<Rightarrow> (u32 \<times> 'v harena) panics" where
  "ha_insert v a =
     do { (h, a) \<leftarrow> Arena.insert increment_unit v a; x \<leftarrow> convert_from_handle h; Some (x, a) }"

text \<open>
  The closure of \<open>insert_with\<close> gets the handle of the entry it is to fill; it may panic and may change
  the state \<open>'s\<close> that it captures.
\<close>

definition ha_next :: "'v harena \<Rightarrow> unit handle" where
  "ha_next a = \<lparr>h_index = (if free a \<noteq> usize_MAX then free a else length (storage a)), h_generation = generation a\<rparr>"

definition ha_insert_with :: "(u32 \<Rightarrow> ('v \<times> 's) panics) \<Rightarrow> 'v harena \<Rightarrow> (u32 \<times> 's \<times> 'v harena) panics" where
  "ha_insert_with f a =
     do { x \<leftarrow> convert_from_handle (ha_next a);
          (v, s) \<leftarrow> f x;
          (h, a) \<leftarrow> Arena.insert_with increment_unit (\<lambda>_. v) a;
          x \<leftarrow> convert_from_handle h;
          Some (x, s, a) }"

definition ha_remove :: "u32 \<Rightarrow> 'v harena \<Rightarrow> ('v option \<times> 'v harena) panics" where
  "ha_remove h a = Arena.remove (convert_to_handle h) a"

definition ha_get :: "'v harena \<Rightarrow> u32 \<Rightarrow> 'v option" where
  "ha_get a h = Arena.get a (convert_to_handle h)"

definition ha_get_mut :: "u32 \<Rightarrow> ('v \<Rightarrow> 'v) \<Rightarrow> 'v harena \<Rightarrow> 'v harena option" where
  "ha_get_mut h f a = Arena.get_mut (convert_to_handle h) f a"

definition ha_index :: "'v harena \<Rightarrow> u32 \<Rightarrow> 'v panics" where
  "ha_index a h = Arena.index a (from_raw (unat h) ())"

definition ha_index_mut :: "u32 \<Rightarrow> ('v \<Rightarrow> 'v) \<Rightarrow> 'v harena \<Rightarrow> 'v harena panics" where
  "ha_index_mut h f a = Arena.index_mut (from_raw (unat h) ()) f a"

definition ha_len :: "'v harena \<Rightarrow> nat" where
  "ha_len a = Arena.len a"

definition ha_is_empty :: "'v harena \<Rightarrow> bool" where
  "ha_is_empty a = Arena.is_empty a"

definition ha_iter :: "'v harena \<Rightarrow> (u32 \<times> 'v) list panics" where
  "ha_iter a = those (map (\<lambda>(h, v). map_option (\<lambda>x. (x, v)) (convert_from_handle h)) (Arena.iter a))"

section \<open>The contract\<close>

definition ha_ok :: "'v harena \<Rightarrow> bool" where
  "ha_ok a \<longleftrightarrow> arena_inv a \<and> length (storage a) \<le> 2 ^ 32"

definition ha_room :: "'v harena \<Rightarrow> bool" where
  "ha_room a \<longleftrightarrow> length (storage a) < 2 ^ 32"

lemma convert_to_handle_inj: "convert_to_handle h = convert_to_handle h' \<longleftrightarrow> h = h'"
  by (simp add: convert_to_handle_def from_raw_def word_unat_eq_iff)

lemma convert_from_handle_Some:
  "convert_from_handle h = Some x \<longleftrightarrow> h = convert_to_handle x"
proof -
  have "convert_from_handle (convert_to_handle x) = Some x"
    using unat_bound [of x] by (simp add: convert_from_handle_def convert_to_handle_def from_raw_def into_raw_def)
  moreover have "convert_from_handle h = Some x \<Longrightarrow> h = convert_to_handle x"
    by (auto simp: convert_from_handle_def convert_to_handle_def from_raw_def into_raw_def handle_eq_iff
        unat_of_nat_small split: if_splits)
  ultimately show ?thesis by auto
qed

lemma convert_from_handle_small: "h_index h < 2 ^ 32 \<Longrightarrow> \<exists>x. convert_from_handle h = Some x"
  by (simp add: convert_from_handle_def into_raw_def)

lemma ha_index_get [simp]: "ha_index a h = ha_get a h"
  by (simp add: ha_index_def ha_get_def index_def convert_to_handle_def)

lemma ha_insert_Some:
  "ha_insert v a = Some (x, a') \<longleftrightarrow> Arena.insert increment_unit v a = Some (convert_to_handle x, a')"
proof -
  have "convert_from_handle (convert_to_handle x) = Some x" by (simp add: convert_from_handle_Some)
  moreover have "ha_insert v a = Some (x, a') \<Longrightarrow> Arena.insert increment_unit v a = Some (convert_to_handle x, a')"
    by (auto simp: ha_insert_def convert_from_handle_Some)
  ultimately show ?thesis by (auto simp: ha_insert_def)
qed

lemma insert_with_index:
  assumes "arena_inv a" "Arena.insert_with inc f a = Some (h, a')"
  shows "h_index h < length (storage a')" and "length (storage a') \<le> Suc (length (storage a))"
proof -
  have "Arena.get a' h = Some (f h)" using insert_with_get [OF assms(2)] by simp
  then show "h_index h < length (storage a')" by (auto dest: get_SomeD)
  show "length (storage a') \<le> Suc (length (storage a))"
    using assms(2) by (auto simp: arena_op_defs split: if_splits option.splits entry.splits)
qed

lemma ha_insert_total:
  assumes "ha_ok a" "ha_room a" shows "\<exists>x a'. ha_insert v a = Some (x, a')"
proof -
  have "has_room a" using assms by (simp add: ha_room_def has_room_def isize_MAX_def)
  then obtain h a' where i: "Arena.insert increment_unit v a = Some (h, a')"
    using arena.ins_total [of a increment_unit v] assms(1) by (auto simp: ha_ok_def)
  then have "h_index h < length (storage a')" "length (storage a') \<le> Suc (length (storage a))"
    using insert_with_index [of a increment_unit] assms(1) by (auto simp: ha_ok_def insert_def)
  then have "h_index h < 2 ^ 32" using assms(2) by (simp add: ha_room_def)
  then obtain x where "convert_from_handle h = Some x" using convert_from_handle_small by blast
  then show ?thesis using i by (auto simp: ha_insert_def)
qed

lemma ha_insert_ok:
  assumes "ha_ok a" "ha_insert v a = Some (x, a')" shows "ha_ok a'"
proof -
  have i: "Arena.insert increment_unit v a = Some (convert_to_handle x, a')"
    using assms(2) unfolding ha_insert_Some .
  have inv: "arena_inv a'" using assms(1) arena.ins_ok [OF _ i] by (simp add: ha_ok_def)
  show ?thesis
  proof (cases "free a = usize_MAX")
    case True
    then have "convert_to_handle x = \<lparr>h_index = length (storage a), h_generation = ()\<rparr>"
      "length (storage a') = Suc (length (storage a))"
      using i by (auto simp: insert_def arena_op_defs split: if_splits)
    then have "unat x = length (storage a)" "length (storage a') = Suc (length (storage a))"
      by (simp_all add: convert_to_handle_def from_raw_def)
    then show ?thesis using inv unat_bound [of x] by (simp add: ha_ok_def)
  next
    case False
    then have "length (storage a') = length (storage a)"
      using i by (auto simp: insert_def arena_op_defs split: option.splits entry.splits)
    then show ?thesis using inv assms(1) by (simp add: ha_ok_def)
  qed
qed

interpretation hnd: handle_table ha_insert ha_remove ha_get ha_ok ha_room
proof unfold_locales
  fix v :: 'v and a a' x r
  show "ha_ok a \<Longrightarrow> ha_room a \<Longrightarrow> \<exists>h a'. ha_insert v a = Some (h, a')" by (rule ha_insert_total)
  show "ha_ok a \<Longrightarrow> ha_insert v a = Some (x, a') \<Longrightarrow> ha_ok a'" by (rule ha_insert_ok)
  show "ha_insert v a = Some (x, a') \<Longrightarrow> ha_get a x = None"
    unfolding ha_insert_Some ha_get_def by (rule arena.ins_fresh)
  show "ha_insert v a = Some (x, a') \<Longrightarrow> ha_get a' = (ha_get a)(x \<mapsto> v)"
    unfolding ha_insert_Some by (drule arena.ins_look) (auto simp: fun_eq_iff ha_get_def convert_to_handle_inj)
  show "ha_ok a \<Longrightarrow> \<exists>a'. ha_remove x a = Some (ha_get a x, a')"
    by (simp add: ha_ok_def ha_remove_def ha_get_def remove_total)
  show "ha_ok a \<Longrightarrow> ha_remove x a = Some (r, a') \<Longrightarrow> ha_ok a'"
    by (auto simp: ha_ok_def ha_remove_def remove_inv dest: remove_length)
  show "ha_remove x a = Some (r, a') \<Longrightarrow> ha_get a' = (ha_get a)(x := None)"
    unfolding ha_remove_def by (drule arena.rem_look) (auto simp: fun_eq_iff ha_get_def convert_to_handle_inj)
qed

lemma ha_index_mut_get:
  assumes "ha_get a h = Some v"
  obtains a' where "ha_index_mut h f a = Some a'" "ha_get a' = (ha_get a)(h \<mapsto> f v)" "ha_ok a \<Longrightarrow> ha_ok a'"
proof -
  let ?h = "from_raw (unat h) ()"
  have g: "Arena.get a ?h = Some v" using assms by (simp add: ha_get_def convert_to_handle_def)
  then obtain a' where a': "Arena.get_mut ?h f a = Some a'"
    by (auto simp: get_def get_mut_def split: option.splits entry.splits if_splits)
  then have "Arena.get a' = (Arena.get a)(?h \<mapsto> f v)" using get_mut_get [OF a'] g by auto
  then have "ha_get a' = (ha_get a)(h \<mapsto> f v)"
    by (auto simp: fun_eq_iff ha_get_def simp flip: convert_to_handle_def) (simp_all add: convert_to_handle_inj)
  moreover have "ha_ok a \<Longrightarrow> ha_ok a'"
    using get_mut_inv [of a ?h f a'] a'
    by (auto simp: ha_ok_def get_mut_def split: option.splits entry.splits if_splits)
  ultimately show thesis using that a' by (simp add: ha_index_mut_def index_mut_def)
qed

lemma insert_with_next: "Arena.insert_with inc f a = Some (h, a') \<Longrightarrow> h = ha_next a"
  by (auto simp: ha_next_def arena_op_defs split: if_splits option.splits entry.splits)

lemma ha_insert_with_insert:
  "ha_insert_with f a =
     do { x \<leftarrow> convert_from_handle (ha_next a); (v, s) \<leftarrow> f x; (x, a) \<leftarrow> ha_insert v a; Some (x, s, a) }"
  by (auto simp: ha_insert_with_def ha_insert_def insert_def split_def
      intro!: Option.bind_cong)

lemma ha_insert_next: "ha_insert v a = Some (x, a') \<Longrightarrow> convert_from_handle (ha_next a) = Some x"
  by (auto simp: ha_insert_def insert_def dest: insert_with_next)

lemma ha_is_empty_iff:
  assumes "ha_ok a" shows "ha_is_empty a \<longleftrightarrow> (\<forall>h. ha_get a h = None)"
proof -
  have inv: "arena_inv a" "length (storage a) \<le> 2 ^ 32" using assms by (auto simp: ha_ok_def)
  have "ha_is_empty a \<longleftrightarrow> (\<forall>i < length (storage a). \<not> is_occupied (storage a ! i))"
    using inv(1) by (auto simp: ha_is_empty_def is_empty_def len_def arena_inv_def filter_empty_conv
        all_set_conv_all_nth)
  also have "\<dots> \<longleftrightarrow> (\<forall>h. ha_get a h = None)"
  proof (intro iffI allI impI)
    fix h assume "\<forall>i < length (storage a). \<not> is_occupied (storage a ! i)"
    then show "ha_get a h = None"
      by (auto simp: ha_get_def get_def nth_opt_def split: entry.splits)
  next
    fix i assume n: "\<forall>h. ha_get a h = None" and i: "i < length (storage a)"
    have "i < 2 ^ 32" using i inv(2) by linarith
    then have "ha_get a (of_nat i) = Arena.get a (from_raw i ())"
      by (simp add: ha_get_def convert_to_handle_def unat_of_nat_small)
    then show "\<not> is_occupied (storage a ! i)"
      using n i by (auto simp: get_def from_raw_def nth_opt_def is_occupied_iff split: entry.splits)
  qed
  finally show ?thesis .
qed

lemma ha_ok_new: "ha_ok ha_new" and ha_get_new: "ha_get ha_new h = None"
  using arena_inv_default [of "()"]
  by (simp_all add: ha_ok_def ha_new_def ha_get_def get_def arena_default_def nth_opt_def)

end
