(* ===== verification/Workspace.thy ===== *)
theory Workspace
  imports Handle_Arena "HOL-Library.Sublist"
begin

text \<open>
  The tiling workspaces of the window manager, \<open>base/window_manager/src/workspace.rs\<close>, and the paths
  of \<open>window.rs\<close>. A workspace is a binary tree kept in an arena; a leaf holds the handle of a window
  and a path from the root is a sequence of left and right turns packed into a word. The arithmetic on
  ratios and rectangles comes from an external crate: the type \<open>'r\<close> of ratios, the type of rectangles
  and their operations are parameters.
\<close>

section \<open>Paths\<close>

record Path =
  depth :: u8
  directions :: u32

record PathIter =
  pi_count :: u8
  pi_path :: u32

definition path_iter_new :: "u8 \<Rightarrow> u32 \<Rightarrow> PathIter" where
  "path_iter_new d ds = \<lparr>pi_count = d, pi_path = ds\<rparr>"

definition right_bottom :: PathIter where
  "right_bottom = path_iter_new 32 (-1)"

definition path_iter_default :: PathIter where
  "path_iter_default = \<lparr>pi_count = 32, pi_path = 0\<rparr>"

definition path_next :: "PathIter \<Rightarrow> (bool \<times> PathIter) option" where
  "path_next p =
     (if pi_count p = 0 then None
      else Some (pi_path p AND 1 \<noteq> 0, \<lparr>pi_count = pi_count p - 1, pi_path = drop_bit 1 (pi_path p)\<rparr>))"

definition path_into_iter :: "Path \<Rightarrow> PathIter" where
  "path_into_iter p = path_iter_new (depth p) (directions p)"

section \<open>Workspaces\<close>

datatype 'r Node =
    Parent (left: u32) (right: u32) (vertical: bool) (ratio: 'r)
  | Leaf (window: u32)

record 'r Workspace =
  nodes :: "'r Node harena"
  root :: u32

datatype Direction = Left | Up | Right | Down

datatype SplitLeafError = TooDeep

definition workspace_new :: "'r Workspace" where
  "workspace_new = \<lparr>nodes = ha_new, root = 0\<rparr>"

text \<open>The branch of \<open>split_leaf\<close> for the leaf that is split.\<close>

definition split_here ::
  "u32 \<Rightarrow> Direction option \<Rightarrow> 'r \<Rightarrow> nat \<Rightarrow> u32 \<Rightarrow> u32 \<Rightarrow> u32 \<times> u32 \<Rightarrow> u32 \<Rightarrow> 'r Node harena
    \<Rightarrow> ((SplitLeafError + Path \<times> (u32 \<times> Path) option) \<times> 'r Node harena) panics" where
  "split_here win direction rt d dirs cur sz w ns =
     do { (r, ns) \<leftarrow> ha_insert (Leaf w) ns;
          (l, ns) \<leftarrow> ha_insert (Leaf win) ns;
          let dir = (case direction of Some dir \<Rightarrow> dir | None \<Rightarrow> if fst sz < snd sz then Down else Right);
          let turn = (dir = Right \<or> dir = Down);
          let (l, r) = (if turn then (r, l) else (l, r));
          let vert = (dir = Up \<or> dir = Down);
          ns \<leftarrow> ha_index_mut cur (\<lambda>_. Parent l r vert rt) ns;
          let dirs = dirs OR push_bit (d - 1) (of_bool turn);
          Some (Inr (\<lparr>depth = of_nat d, directions = dirs\<rparr>,
            Some (w, \<lparr>depth = of_nat d, directions = dirs XOR push_bit (d - 1) 1\<rparr>)), ns) }"

text \<open>The loop over the depths 1 to 23; \<open>part\<close> is \<open>Ratio::partition\<close>.\<close>

function split_loop ::
  "('r \<Rightarrow> u32 \<Rightarrow> u32 \<times> u32) \<Rightarrow> u32 \<Rightarrow> Direction option \<Rightarrow> 'r \<Rightarrow> nat \<Rightarrow> PathIter \<Rightarrow> u32 \<Rightarrow> u32 \<Rightarrow> u32 \<times> u32
    \<Rightarrow> 'r Node harena \<Rightarrow> ((SplitLeafError + Path \<times> (u32 \<times> Path) option) \<times> 'r Node harena) panics" where
  "split_loop part win direction rt d path dirs cur (x, y) ns =
     (if 24 \<le> d then Some (Inl TooDeep, ns)
      else case ha_index ns cur of
        None \<Rightarrow> None
      | Some (Parent l r vert rt') \<Rightarrow>
          (case path_next path of
             None \<Rightarrow> None
           | Some (turn, path) \<Rightarrow>
               let dirs = dirs OR push_bit (d - 1) (of_bool turn);
                   (a, b) = part rt' (if vert then y else x);
                   v = (if turn then b else a)
               in split_loop part win direction rt (Suc d) path dirs (if turn then r else l)
                    (if vert then (x, v) else (v, y)) ns)
      | Some (Leaf w) \<Rightarrow> split_here win direction rt d dirs cur (x, y) w ns)"
  by pat_completeness auto
termination
  by (relation "measure (\<lambda>(part, win, dr, rt, d, p, ds, c, s, ns). 24 - d)") auto

definition split_leaf ::
  "('r \<Rightarrow> u32 \<Rightarrow> u32 \<times> u32) \<Rightarrow> PathIter \<Rightarrow> u32 \<Rightarrow> Direction option \<Rightarrow> 'r \<Rightarrow> u32 \<times> u32 \<Rightarrow> 'r Workspace
    \<Rightarrow> ((SplitLeafError + Path \<times> (u32 \<times> Path) option) \<times> 'r Workspace) panics" where
  "split_leaf part path win direction rt sz ws =
     (if \<not> ha_is_empty (nodes ws) then
        do { (res, ns) \<leftarrow> split_loop part win direction rt 1 path 0 (root ws) sz (nodes ws);
             Some (res, ws\<lparr>nodes := ns\<rparr>) }
      else
        do { (h, ns) \<leftarrow> ha_insert (Leaf win) (nodes ws);
             Some (Inr (\<lparr>depth = 0, directions = 0\<rparr>, None), ws\<lparr>nodes := ns, root := h\<rparr>) })"

text \<open>The branch of \<open>remove_leaf\<close> for the leaf that is removed.\<close>

definition remove_here :: "u32 \<Rightarrow> (u32 \<times> u32 \<times> Path) option \<Rightarrow> 'r Node harena \<Rightarrow> (Path option \<times> 'r Node harena) panics" where
  "remove_here cur prev ns =
     do { (leaf, ns) \<leftarrow> ha_remove cur ns;
          _ \<leftarrow> leaf;
          case prev of
            Some (parent, sibling, path) \<Rightarrow>
              do { (n, ns) \<leftarrow> ha_remove sibling ns;
                   n \<leftarrow> n;
                   ns \<leftarrow> ha_index_mut parent (\<lambda>_. n) ns;
                   Some (Some path, ns) }
          | None \<Rightarrow> Some (None, ns) }"

text \<open>The shift by the depth wraps at 32 bits as in a release build.\<close>

partial_function (option) remove_loop ::
  "PathIter \<Rightarrow> u32 \<Rightarrow> (u32 \<times> u32 \<times> Path) option \<Rightarrow> Path \<Rightarrow> 'r Node harena \<Rightarrow> (Path option \<times> 'r Node harena) panics" where
  "remove_loop rem_path cur prev path ns =
     do { n \<leftarrow> ha_index ns cur;
          case n of
            Parent l r _ _ \<Rightarrow>
              do { (turn, rem_path) \<leftarrow> path_next rem_path;
                   remove_loop rem_path (if turn then r else l)
                     (Some (cur, if turn then l else r, path))
                     \<lparr>depth = depth path + 1,
                      directions = directions path OR push_bit (unat (depth path) mod 32) (of_bool turn)\<rparr> ns }
          | Leaf w \<Rightarrow> remove_here cur prev ns }"

definition remove_leaf :: "PathIter \<Rightarrow> 'r Workspace \<Rightarrow> (Path option \<times> 'r Workspace) panics" where
  "remove_leaf rem_path ws =
     do { (res, ns) \<leftarrow> remove_loop rem_path (root ws) None \<lparr>depth = 0, directions = 0\<rparr> (nodes ws);
          Some (res, ws\<lparr>nodes := ns\<rparr>) }"

text \<open>
  \<open>apply_with_prefix\<close> answers the handles it calls its closure with, in order. The loop along the
  prefix ends early at a leaf.
\<close>

partial_function (option) collect_leaves :: "'r Node harena \<Rightarrow> u32 \<Rightarrow> u32 list panics" where
  "collect_leaves ns cur =
     do { n \<leftarrow> ha_index ns cur;
          case n of
            Parent l r _ _ \<Rightarrow>
              do { xs \<leftarrow> collect_leaves ns l; ys \<leftarrow> collect_leaves ns r; Some (xs @ ys) }
          | Leaf w \<Rightarrow> Some [w] }"

function prefix_loop :: "PathIter \<Rightarrow> u32 \<Rightarrow> 'r Node harena \<Rightarrow> u32 list panics" where
  "prefix_loop pre cur ns =
     (case path_next pre of
        None \<Rightarrow> collect_leaves ns cur
      | Some (turn, pre) \<Rightarrow>
          (case ha_index ns cur of
             None \<Rightarrow> None
           | Some (Parent l r _ _) \<Rightarrow> prefix_loop pre (if turn then r else l) ns
           | Some (Leaf w) \<Rightarrow> Some []))"
  by pat_completeness auto
termination
  by (relation "measure (\<lambda>(p, c, ns). unat (pi_count p))")
    (auto simp: path_next_def measure_unat split: if_splits)

definition apply_with_prefix :: "PathIter \<Rightarrow> 'r Workspace \<Rightarrow> u32 list panics" where
  "apply_with_prefix pre ws = prefix_loop pre (root ws) (nodes ws)"

text \<open>The rectangles of the external crate; a range is inclusive at both ends.\<close>

record ('r, 'p, 'rect) geometry =
  g_partition_range :: "'r \<Rightarrow> u32 \<times> u32 \<Rightarrow> u32"
  g_from_size :: "u32 \<times> u32 \<Rightarrow> 'rect"
  g_from_ranges :: "u32 \<times> u32 \<Rightarrow> u32 \<times> u32 \<Rightarrow> 'rect"
  g_x :: "'rect \<Rightarrow> u32 \<times> u32"
  g_y :: "'rect \<Rightarrow> u32 \<times> u32"
  g_low :: "'rect \<Rightarrow> u32 \<times> u32"
  g_high :: "'rect \<Rightarrow> u32 \<times> u32"
  g_contains :: "'rect \<Rightarrow> 'p \<Rightarrow> bool"

definition split_rect :: "('r, 'p, 'rect) geometry \<Rightarrow> bool \<Rightarrow> 'r \<Rightarrow> 'rect \<Rightarrow> 'rect \<times> 'rect" where
  "split_rect g vert rt rect =
     (if vert then
        let mid = g_partition_range g rt (g_y g rect) in
        (g_from_ranges g (g_x g rect) (snd (g_low g rect), mid),
         g_from_ranges g (g_x g rect) (mid + 1, snd (g_high g rect)))
      else
        let mid = g_partition_range g rt (g_x g rect) in
        (g_from_ranges g (fst (g_low g rect), mid) (g_y g rect),
         g_from_ranges g (mid + 1, fst (g_high g rect)) (g_y g rect)))"

text \<open>The predicate of \<open>recurse\<close> may panic and keeps a state \<open>'s\<close>.\<close>

partial_function (option) recurse_loop ::
  "('r, 'p, 'rect) geometry \<Rightarrow> ('s \<Rightarrow> 'rect \<Rightarrow> 'rect \<Rightarrow> (bool \<times> 's) panics) \<Rightarrow> 'r Node harena
    \<Rightarrow> 's \<Rightarrow> 'r Node \<Rightarrow> 'rect \<Rightarrow> (u32 \<times> 'rect) panics" where
  "recurse_loop g pred ns s cur rect =
     (case cur of
        Parent l r vert rt \<Rightarrow>
          do { (turn, s) \<leftarrow> pred s (fst (split_rect g vert rt rect)) (snd (split_rect g vert rt rect));
               cur \<leftarrow> ha_index ns (if turn then r else l);
               recurse_loop g pred ns s cur
                 (if turn then snd (split_rect g vert rt rect) else fst (split_rect g vert rt rect)) }
      | Leaf w \<Rightarrow> Some (w, rect))"

definition recurse ::
  "('r, 'p, 'rect) geometry \<Rightarrow> ('s \<Rightarrow> 'rect \<Rightarrow> 'rect \<Rightarrow> (bool \<times> 's) panics) \<Rightarrow> 's \<Rightarrow> u32 \<times> u32 \<Rightarrow> 'r Workspace
    \<Rightarrow> (u32 \<times> 'rect) option panics" where
  "recurse g pred s sz ws =
     (case ha_get (nodes ws) (root ws) of
        None \<Rightarrow> Some None
      | Some cur \<Rightarrow> map_option Some (recurse_loop g pred (nodes ws) s cur (g_from_size g sz)))"

definition calculate_rect ::
  "('r, 'p, 'rect) geometry \<Rightarrow> PathIter \<Rightarrow> u32 \<times> u32 \<Rightarrow> 'r Workspace \<Rightarrow> 'rect option panics" where
  "calculate_rect g path sz ws =
     map_option (map_option snd) (recurse g (\<lambda>path _ _. path_next path) path sz ws)"

definition window_at ::
  "('r, 'p, 'rect) geometry \<Rightarrow> 'p \<Rightarrow> u32 \<times> u32 \<Rightarrow> 'r Workspace \<Rightarrow> (u32 \<times> 'rect) option panics" where
  "window_at g position sz ws = recurse g (\<lambda>s _ r. Some (g_contains g r position, s)) () sz ws"

definition windows :: "'r Workspace \<Rightarrow> u32 list panics" where
  "windows ws = map_option (\<lambda>ns. concat (map (\<lambda>(_, n). case n of Parent _ _ _ _ \<Rightarrow> [] | Leaf w \<Rightarrow> [w]) ns)) (ha_iter (nodes ws))"

definition workspace_is_empty :: "'r Workspace \<Rightarrow> bool" where
  "workspace_is_empty ws = ha_is_empty (nodes ws)"

section \<open>The tree in the arena\<close>

text \<open>A tree whose nodes carry their handles; \<open>stored\<close> says that the arena holds it.\<close>

datatype 'r htree = HLeaf u32 u32 | HNode u32 "'r htree" "'r htree" bool 'r

fun hroot :: "'r htree \<Rightarrow> u32" where
  "hroot (HLeaf h w) = h"
| "hroot (HNode h l r v q) = h"

fun stored :: "(u32 \<Rightarrow> 'r Node option) \<Rightarrow> 'r htree \<Rightarrow> bool" where
  "stored g (HLeaf h w) \<longleftrightarrow> g h = Some (Leaf w)"
| "stored g (HNode h l r v q) \<longleftrightarrow> g h = Some (Parent (hroot l) (hroot r) v q) \<and> stored g l \<and> stored g r"

fun gather :: "(u32 \<Rightarrow> 'a list) \<Rightarrow> (u32 \<Rightarrow> u32 \<Rightarrow> 'a list) \<Rightarrow> 'r htree \<Rightarrow> 'a list" where
  "gather n l (HLeaf h w) = l h w"
| "gather n l (HNode h a b v q) = n h @ gather n l a @ gather n l b"

abbreviation handles :: "'r htree \<Rightarrow> u32 list" where
  "handles \<equiv> gather (\<lambda>h. [h]) (\<lambda>h w. [h])"

abbreviation leaves :: "'r htree \<Rightarrow> u32 list" where
  "leaves \<equiv> gather (\<lambda>h. []) (\<lambda>h w. [w])"

fun height :: "'r htree \<Rightarrow> nat" where
  "height (HLeaf h w) = 0"
| "height (HNode h l r v q) = Suc (max (height l) (height r))"

text \<open>The subtree at a path, and replacing it.\<close>

fun sub :: "'r htree \<Rightarrow> bool list \<Rightarrow> 'r htree option" where
  "sub t [] = Some t"
| "sub (HNode h l r v q) (d # ds) = sub (if d then r else l) ds"
| "sub (HLeaf h w) (d # ds) = None"

fun subst :: "'r htree \<Rightarrow> bool list \<Rightarrow> 'r htree \<Rightarrow> 'r htree" where
  "subst t [] u = u"
| "subst (HNode h l r v q) (d # ds) u = (if d then HNode h l (subst r ds u) v q else HNode h (subst l ds u) r v q)"
| "subst (HLeaf h w) (d # ds) u = HLeaf h w"

lemma sub_append: "sub t (ds @ es) = Option.bind (sub t ds) (\<lambda>u. sub u es)"
  by (induction t ds rule: sub.induct) auto

lemma sub_gather: "sub t ds = Some u \<Longrightarrow> set (gather n l u) \<subseteq> set (gather n l t)"
  by (induction t ds rule: sub.induct) (auto split: if_splits)

lemma sub_distinct: "distinct (gather n l t) \<Longrightarrow> sub t ds = Some u \<Longrightarrow> distinct (gather n l u)"
  by (induction t ds rule: sub.induct) (auto split: if_splits)

lemma sub_stored: "stored g t \<Longrightarrow> sub t ds = Some u \<Longrightarrow> stored g u"
  by (induction t ds rule: sub.induct) (auto split: if_splits)

lemma sub_height: "sub t ds = Some u \<Longrightarrow> length ds + height u \<le> height t"
  by (induction t ds rule: sub.induct) (auto split: if_splits)

lemma subst_height: "sub t ds = Some u \<Longrightarrow> height (subst t ds v) \<le> max (height t) (length ds + height v)"
  by (induction t ds v rule: subst.induct) (auto split: if_splits)

lemma subst_gather:
  assumes "sub t ds = Some u" and "distinct (gather n l t)" and "distinct (gather n l v)"
    and "set (gather n l v) \<inter> (set (gather n l t) - set (gather n l u)) = {}"
  shows "distinct (gather n l (subst t ds v))
    \<and> set (gather n l (subst t ds v)) = (set (gather n l t) - set (gather n l u)) \<union> set (gather n l v)"
  using assms
proof (induction t ds v rule: subst.induct)
  case (2 h a b vt q d ds v)
  have s: "set (gather n l u) \<subseteq> set (gather n l (if d then b else a))"
    by (rule sub_gather) (use "2.prems"(1) in simp)
  show ?case
  proof (cases d)
    case True
    then have "set (gather n l v) \<inter> (set (gather n l b) - set (gather n l u)) = {}" using "2.prems"(4) by auto
    then show ?thesis using "2.IH"(1) True "2.prems" s by auto
  next
    case False
    then have "set (gather n l v) \<inter> (set (gather n l a) - set (gather n l u)) = {}" using "2.prems"(4) by auto
    then show ?thesis using "2.IH"(2) False "2.prems" s by auto
  qed
qed auto

lemma hroot_subst: "sub t ds = Some u \<Longrightarrow> hroot v = hroot u \<Longrightarrow> hroot (subst t ds v) = hroot t"
  by (induction t ds v rule: subst.induct) (auto split: if_splits)

lemma stored_cong: "(\<And>h. h \<in> set (handles t) \<Longrightarrow> g' h = g h) \<Longrightarrow> stored g' t = stored g t"
  by (induction t) auto

lemma stored_handles: "stored g t \<Longrightarrow> h \<in> set (handles t) \<Longrightarrow> g h \<noteq> None"
  by (induction t) auto

lemma hroot_handles: "hroot t \<in> set (handles t)"
  by (cases t) auto

lemma stored_subst:
  assumes "stored g t" "distinct (handles t)" "sub t ds = Some u" "stored g' v" "hroot v = hroot u"
    and "\<And>h. h \<in> set (handles t) - set (handles u) \<Longrightarrow> g' h = g h"
  shows "stored g' (subst t ds v)"
  using assms
proof (induction t ds v rule: subst.induct)
  case (2 h a b vt q d ds v)
  have s: "set (handles u) \<subseteq> set (handles (if d then b else a))"
    by (rule sub_gather) (use "2.prems"(3) in simp)
  show ?case
  proof (cases d)
    case True
    have "stored g' a = stored g a" by (rule stored_cong, rule "2.prems"(6)) (use "2.prems"(2) s True in auto)
    moreover have "g' h = g h" by (rule "2.prems"(6)) (use "2.prems"(2) s True in auto)
    ultimately show ?thesis using 2 True hroot_subst [of b ds u v] by auto
  next
    case False
    have "stored g' b = stored g b" by (rule stored_cong, rule "2.prems"(6)) (use "2.prems"(2) s False in auto)
    moreover have "g' h = g h" by (rule "2.prems"(6)) (use "2.prems"(2) s False in auto)
    ultimately show ?thesis using 2 False hroot_subst [of a ds u v] by auto
  qed
qed auto

lemma sub_subst_same: "sub t ds = Some u \<Longrightarrow> sub (subst t ds v) (ds @ es) = sub v es"
  by (induction t ds v rule: subst.induct) (auto split: if_splits)

lemma sub_subst_other:
  "sub t ds = Some u \<Longrightarrow> \<not> prefix ds es \<Longrightarrow> \<not> prefix es ds \<Longrightarrow> sub (subst t ds v) es = sub t es"
proof (induction t ds v arbitrary: es rule: subst.induct)
  case (2 h a b vt q d ds v)
  then show ?case by (cases es) (auto split: if_splits)
qed auto

section \<open>Paths as lists of turns\<close>

definition steps :: "PathIter \<Rightarrow> bool list" where
  "steps p = map (bit (pi_path p)) [0..<unat (pi_count p)]"

lemma path_next_Cons:
  assumes "steps p = d # ds"
  obtains p' where "path_next p = Some (d, p')" "steps p' = ds"
proof -
  let ?p = "\<lparr>pi_count = pi_count p - 1, pi_path = drop_bit 1 (pi_path p)\<rparr>"
  have c: "pi_count p \<noteq> 0" using assms by (auto simp: steps_def)
  then have u: "unat (pi_count p) = Suc (unat (pi_count p - 1))"
    using measure_unat [OF c] by (simp add: unat_minus_one unat_gt_0)
  have "steps p = bit (pi_path p) 0 # map (\<lambda>i. bit (pi_path p) (Suc i)) [0..<unat (pi_count p - 1)]"
    unfolding steps_def u by (subst upt_conv_Cons) (simp_all add: map_Suc_upt [symmetric] comp_def del: upt_Suc)
  also have "map (\<lambda>i. bit (pi_path p) (Suc i)) [0..<unat (pi_count p - 1)] = steps ?p"
    by (simp add: steps_def bit_drop_bit_eq comp_def fun_eq_iff)
  finally have "d = bit (pi_path p) 0" "steps ?p = ds" using assms by simp_all
  moreover have "path_next p = Some (bit (pi_path p) 0, ?p)"
    using c by (simp add: path_next_def and_one_eq odd_iff_mod_2_eq_one bit_0)
  ultimately show thesis using that by simp
qed

lemma path_next_Nil: "steps p = [] \<Longrightarrow> path_next p = None"
  by (simp add: steps_def path_next_def unat_eq_0)

definition word_of :: "bool list \<Rightarrow> u32" where
  "word_of ds = horner_sum of_bool 2 ds"

lemma bit_word_of: "bit (word_of ds) i \<longleftrightarrow> i < 32 \<and> i < length ds \<and> ds ! i"
  by (auto simp: word_of_def bit_horner_sum_bit_word_iff)

lemma word_of_snoc:
  "length ds < 32 \<Longrightarrow> word_of ds OR push_bit (length ds) (of_bool d) = word_of (ds @ [d])"
  by (rule bit_word_eqI)
    (auto simp: bit_or_iff bit_push_bit_iff bit_word_of bit_of_bool_iff nth_append less_Suc_eq)

lemma word_of_flip:
  "length ds < 32 \<Longrightarrow> word_of (ds @ [d]) XOR push_bit (length ds) 1 = word_of (ds @ [\<not> d])"
  by (rule bit_word_eqI)
    (auto simp: bit_xor_iff bit_push_bit_iff bit_word_of bit_exp_word nth_append less_Suc_eq)

definition path_of :: "bool list \<Rightarrow> Path" where
  "path_of ds = \<lparr>depth = of_nat (length ds), directions = word_of ds\<rparr>"

lemma steps_path_of:
  assumes "length ds \<le> 32" shows "steps (path_into_iter (path_of ds)) = ds"
proof -
  have "unat (of_nat (length ds) :: u8) = length ds"
    using assms by (intro unat_of_nat_small) simp
  then show ?thesis
    using assms by (auto simp: steps_def path_into_iter_def path_iter_new_def path_of_def bit_word_of intro: nth_equalityI)
qed

section \<open>Splitting\<close>

lemma split_loop_spec:
  assumes "stored (ha_get ns) t" "sub t ds = Some (HLeaf c w)" "steps path = ds @ rest" "length pre + length ds < 23"
  shows "\<exists>sz'. split_loop part win dr rt (Suc (length pre)) path (word_of pre) (hroot t) sz ns
    = split_here win dr rt (Suc (length pre + length ds)) (word_of (pre @ ds)) c sz' w ns"
  using assms
proof (induction ds arbitrary: t path pre sz)
  case Nil
  then show ?case by (cases sz) auto
next
  case (Cons d ds)
  obtain x y where sz: "sz = (x, y)" by (cases sz)
  obtain h l r v q where t: "t = HNode h l r v q" using Cons.prems(2) by (cases t) auto
  obtain path' where p: "path_next path = Some (d, path')" "steps path' = ds @ rest"
    using path_next_Cons [of path d "ds @ rest"] Cons.prems(3) by auto
  let ?t = "if d then r else l"
  have "\<exists>sz'. split_loop part win dr rt (Suc (length (pre @ [d]))) path' (word_of (pre @ [d])) (hroot ?t) s ns
    = split_here win dr rt (Suc (length (pre @ [d]) + length ds)) (word_of ((pre @ [d]) @ ds)) c sz' w ns" for s
    by (rule Cons.IH) (use Cons.prems t p in auto)
  moreover have "split_loop part win dr rt (Suc (length pre)) path (word_of pre) (hroot t) sz ns
    = split_loop part win dr rt (Suc (length (pre @ [d]))) path' (word_of (pre @ [d])) (hroot ?t)
        (let (a, b) = part q (if v then y else x); u = (if d then b else a) in if v then (x, u) else (u, y)) ns"
    using Cons.prems p word_of_snoc [of pre d] unfolding t sz
    by (subst split_loop.simps) (auto simp: Let_def split_beta)
  ultimately show ?case by simp
qed

lemma split_loop_too_deep:
  fixes pre :: "bool list"
  assumes "stored (ha_get ns) t" "sub t ds = Some (HLeaf c w)" "steps path = ds @ rest"
    "length pre \<le> 23" "23 \<le> length pre + length ds"
  shows "split_loop part win dr rt (Suc (length pre)) path dirs (hroot t) sz ns = Some (Inl TooDeep, ns)"
  using assms
proof (induction ds arbitrary: t path pre sz dirs)
  case Nil
  then show ?case by (cases sz) auto
next
  case (Cons d ds)
  obtain x y where sz: "sz = (x, y)" by (cases sz)
  obtain h l r v q where t: "t = HNode h l r v q" using Cons.prems(2) by (cases t) auto
  obtain path' where p: "path_next path = Some (d, path')" "steps path' = ds @ rest"
    using path_next_Cons [of path d "ds @ rest"] Cons.prems(3) by auto
  show ?case
  proof (cases "length pre = 23")
    case True
    then show ?thesis unfolding t sz by (subst split_loop.simps) simp
  next
    case False
    have "split_loop part win dr rt (Suc (length (pre @ [d]))) path' dirs' (hroot (if d then r else l)) s ns
      = Some (Inl TooDeep, ns)" for dirs' s
      by (rule Cons.IH) (use Cons.prems t p False in auto)
    then show ?thesis
      using Cons.prems p False unfolding t sz
      by (subst split_loop.simps) (auto simp: Let_def split_beta)
  qed
qed

lemma split_here_spec:
  assumes ok: "ha_ok ns" and room: "length (storage ns) + 2 \<le> 2 ^ 32" and c: "ha_get ns c = Some (Leaf w)"
    and pre: "length pre < 32"
  obtains turn vert hw hn ns' where
    "split_here win dr rt (Suc (length pre)) (word_of pre) c sz w ns
      = Some (Inr (path_of (pre @ [turn]), Some (w, path_of (pre @ [\<not> turn]))), ns')"
    "ha_ok ns'" "hw \<noteq> hn" "ha_get ns hw = None" "ha_get ns hn = None" "dr = None \<longrightarrow> turn"
    "ha_get ns' = (ha_get ns)(hw \<mapsto> Leaf w, hn \<mapsto> Leaf win,
       c \<mapsto> Parent (if turn then hw else hn) (if turn then hn else hw) vert rt)"
proof -
  define dir where "dir = (case dr of Some dir \<Rightarrow> dir | None \<Rightarrow> if fst sz < snd sz then Down else Right)"
  define turn where "turn = (dir = Right \<or> dir = Down)"
  define vert where "vert = (dir = Up \<or> dir = Down)"
  obtain hw n1 where i1: "ha_insert (Leaf w) ns = Some (hw, n1)"
    using hnd.ins_total [OF ok, of "Leaf w"] room by (auto simp: ha_room_def)
  have ok1: "ha_ok n1" using hnd.ins_ok [OF ok i1] .
  have "length (storage n1) \<le> Suc (length (storage ns))"
    using i1 by (auto simp: ha_insert_Some insert_def dest: insert_with_length)
  then have "ha_room n1" using room by (simp add: ha_room_def)
  then obtain hn n2 where i2: "ha_insert (Leaf win) n1 = Some (hn, n2)"
    using hnd.ins_total [OF ok1, of "Leaf win"] by auto
  have ok2: "ha_ok n2" using hnd.ins_ok [OF ok1 i2] .
  have g: "ha_get n2 = (ha_get ns)(hw \<mapsto> Leaf w, hn \<mapsto> Leaf win)"
    using hnd.ins_look [OF i1] hnd.ins_look [OF i2] by simp
  have f: "ha_get ns hw = None" "hw \<noteq> hn" "ha_get ns hn = None"
    using hnd.ins_fresh [OF i1] hnd.ins_twice [OF i1 i2] hnd.ins_fresh [OF i2] hnd.ins_look [OF i1] by auto
  have "ha_get n2 c = Some (Leaf w)" using g f c by auto
  then obtain ns' where s: "ha_index_mut c (\<lambda>_. Parent (if turn then hw else hn) (if turn then hn else hw) vert rt) n2 = Some ns'"
      "ha_get ns' = (ha_get n2)(c \<mapsto> Parent (if turn then hw else hn) (if turn then hn else hw) vert rt)" "ha_ok ns'"
    using ha_index_mut_get [of n2 c] ok2 by metis
  have "split_here win dr rt (Suc (length pre)) (word_of pre) c sz w ns
      = Some (Inr (path_of (pre @ [turn]), Some (w, path_of (pre @ [\<not> turn]))), ns')"
    using i1 i2 s(1) word_of_snoc [OF pre, of turn] word_of_flip [OF pre, of turn]
    unfolding split_here_def dir_def [symmetric] turn_def [symmetric] vert_def [symmetric]
    by (auto simp: Let_def path_of_def simp flip: dir_def turn_def vert_def split: if_splits)
  moreover have "dr = None \<longrightarrow> turn" by (auto simp: turn_def dir_def)
  ultimately show thesis using that f s g by simp
qed

section \<open>Well-formed workspaces\<close>

definition ws_tree :: "'r Workspace \<Rightarrow> 'r htree \<Rightarrow> bool" where
  "ws_tree ws t \<longleftrightarrow> ha_ok (nodes ws) \<and> stored (ha_get (nodes ws)) t \<and> distinct (handles t)
     \<and> dom (ha_get (nodes ws)) = set (handles t) \<and> hroot t = root ws \<and> height t \<le> 23"

definition ws_empty :: "'r Workspace \<Rightarrow> bool" where
  "ws_empty ws \<longleftrightarrow> ha_ok (nodes ws) \<and> ha_get (nodes ws) = Map.empty"

lemma ws_tree_nonempty: "ws_tree ws t \<Longrightarrow> \<not> ha_is_empty (nodes ws)"
  using hroot_handles [of t] stored_handles [of "ha_get (nodes ws)" t "hroot t"]
  by (auto simp: ws_tree_def ha_is_empty_iff)

lemma split_leaf_ok:
  assumes ws: "ws_tree ws t" and c: "sub t ds = Some (HLeaf c w)" and p: "steps path = ds @ rest"
    and ds: "length ds < 23" and room: "length (storage (nodes ws)) + 2 \<le> 2 ^ 32"
  obtains turn vert hw hn ws' where
    "split_leaf part path win dr rt sz ws
      = Some (Inr (path_of (ds @ [turn]), Some (w, path_of (ds @ [\<not> turn]))), ws')"
    "dr = None \<longrightarrow> turn"
    "ws_tree ws' (subst t ds (HNode c (if turn then HLeaf hw w else HLeaf hn win)
       (if turn then HLeaf hn win else HLeaf hw w) vert rt))"
proof -
  let ?ns = "nodes ws"
  have w: "ha_ok ?ns" "stored (ha_get ?ns) t" "distinct (handles t)" "dom (ha_get ?ns) = set (handles t)"
      "hroot t = root ws" "height t \<le> 23"
    using ws by (auto simp: ws_tree_def)
  obtain sz' where l: "split_loop part win dr rt 1 path 0 (root ws) sz ?ns
      = split_here win dr rt (Suc (length ds)) (word_of ds) c sz' w ?ns"
    using split_loop_spec [OF w(2) c p, of "[]" part win dr rt sz] ds w(5) by (auto simp: word_of_def)
  have gc: "ha_get ?ns c = Some (Leaf w)" using sub_stored [OF w(2) c] by simp
  have d32: "length ds < 32" using ds by simp
  obtain turn vert hw hn ns' where s:
    "split_here win dr rt (Suc (length ds)) (word_of ds) c sz' w ?ns
      = Some (Inr (path_of (ds @ [turn]), Some (w, path_of (ds @ [\<not> turn]))), ns')"
    "ha_ok ns'" "hw \<noteq> hn" "ha_get ?ns hw = None" "ha_get ?ns hn = None" "dr = None \<longrightarrow> turn"
    "ha_get ns' = (ha_get ?ns)(hw \<mapsto> Leaf w, hn \<mapsto> Leaf win,
       c \<mapsto> Parent (if turn then hw else hn) (if turn then hn else hw) vert rt)"
    by (rule split_here_spec [OF w(1) room gc d32])
  let ?u = "HNode c (if turn then HLeaf hw w else HLeaf hn win) (if turn then HLeaf hn win else HLeaf hw w) vert rt"
  have n: "hw \<notin> set (handles t)" "hn \<notin> set (handles t)" "hw \<noteq> c" "hn \<noteq> c" "c \<in> set (handles t)"
    using s(4,5) w(4) gc by (auto simp: domIff)
  have hu: "set (handles ?u) = {c, hw, hn}" "distinct (handles ?u)" using n s(3) by auto
  have "distinct (handles (subst t ds ?u)) \<and> set (handles (subst t ds ?u)) = (set (handles t) - {c}) \<union> {c, hw, hn}"
    using subst_gather [OF c w(3) hu(2)] n unfolding hu(1) by auto
  moreover have "stored (ha_get ns') (subst t ds ?u)"
    by (rule stored_subst [OF w(2,3) c]) (use n s(3) in \<open>auto simp: s(7)\<close>)
  moreover have "dom (ha_get ns') = (set (handles t) - {c}) \<union> {c, hw, hn}" using w(4) n by (auto simp: s(7))
  moreover have "height (subst t ds ?u) \<le> 23" using subst_height [OF c, of ?u] w(6) ds by auto
  moreover have "hroot (subst t ds ?u) = root ws" using hroot_subst [OF c, of ?u] w(5) by simp
  ultimately have "ws_tree (ws\<lparr>nodes := ns'\<rparr>) (subst t ds ?u)" using s(2) by (simp add: ws_tree_def)
  moreover have "split_leaf part path win dr rt sz ws
      = Some (Inr (path_of (ds @ [turn]), Some (w, path_of (ds @ [\<not> turn]))), ws\<lparr>nodes := ns'\<rparr>)"
    using ws_tree_nonempty [OF ws] l s(1) by (simp add: split_leaf_def)
  ultimately show thesis using that s(6) by blast
qed

lemma split_leaf_first:
  assumes "ws_empty ws" and "ha_room (nodes ws)"
  obtains h ws' where "split_leaf part path win dr rt sz ws = Some (Inr (path_of [], None), ws')"
    "ws_tree ws' (HLeaf h win)"
proof -
  obtain h ns where i: "ha_insert (Leaf win) (nodes ws) = Some (h, ns)"
    using hnd.ins_total [of "nodes ws" "Leaf win"] assms by (auto simp: ws_empty_def)
  have "ha_ok ns" "ha_get ns = [h \<mapsto> Leaf win]"
    using hnd.ins_ok [OF _ i] hnd.ins_look [OF i] assms(1) by (auto simp: ws_empty_def)
  then have "ws_tree (ws\<lparr>nodes := ns, root := h\<rparr>) (HLeaf h win)" by (simp add: ws_tree_def)
  moreover have "ha_is_empty (nodes ws)" using assms(1) by (simp add: ws_empty_def ha_is_empty_iff)
  ultimately show thesis
    using that i by (simp add: split_leaf_def path_of_def word_of_def)
qed

section \<open>Removing\<close>

lemma remove_loop_Node:
  assumes "ha_get ns h = Some (Parent l r v q)" "path_next path = Some (d, path')"
  shows "remove_loop path h prev p ns = remove_loop path' (if d then r else l) (Some (h, if d then l else r, p))
    \<lparr>depth = depth p + 1, directions = directions p OR push_bit (unat (depth p) mod 32) (of_bool d)\<rparr> ns"
  using assms by (subst remove_loop.simps) simp

lemma path_of_snoc:
  assumes "length pre < 32"
  shows "\<lparr>depth = depth (path_of pre) + 1,
    directions = directions (path_of pre) OR push_bit (unat (depth (path_of pre)) mod 32) (of_bool d)\<rparr> = path_of (pre @ [d])"
proof -
  have "unat (of_nat (length pre) :: u8) mod 32 = length pre"
    using assms by (subst unat_of_nat_small) simp_all
  then show ?thesis using word_of_snoc [OF assms, of d] by (simp add: path_of_def)
qed

lemma remove_loop_spec:
  assumes "stored (ha_get ns) t" "sub t ds = Some (HLeaf c w)" "steps path = ds @ rest" "length pre + length ds < 32"
  shows "ds = [] \<Longrightarrow> remove_loop path (hroot t) prev (path_of pre) ns = remove_here c prev ns"
    and "ds \<noteq> [] \<Longrightarrow> sub t (butlast ds) = Some (HNode h l r v q) \<Longrightarrow>
      remove_loop path (hroot t) prev (path_of pre) ns
        = remove_here c (Some (h, hroot (if last ds then l else r), path_of (pre @ butlast ds))) ns"
  using assms
proof (induction ds arbitrary: t path pre prev)
  case Nil
  {
    case 1
    then show ?case by (subst remove_loop.simps) simp
  next
    case 2
    then show ?case by simp
  }
next
  case (Cons d ds)
  {
    case 1
    then show ?case by simp
  next
    case 2
    obtain h' l' r' v' q' where t: "t = HNode h' l' r' v' q'" using 2(3,4) by (cases t) auto
    let ?t = "if d then r' else l'"
    obtain path' where p: "path_next path = Some (d, path')" "steps path' = ds @ rest"
      using path_next_Cons [of path d "ds @ rest"] 2(5) by auto
    have st: "stored (ha_get ns) ?t" "sub ?t ds = Some (HLeaf c w)" "length (pre @ [d]) + length ds < 32"
      using 2 t by auto
    have eq: "remove_loop path (hroot t) prev (path_of pre) ns
      = remove_loop path' (hroot ?t) (Some (h', hroot (if d then l' else r'), path_of pre)) (path_of (pre @ [d])) ns"
      using 2(3,6) t remove_loop_Node [OF _ p(1), of ns h' "hroot l'" "hroot r'" v' q' prev "path_of pre"]
        path_of_snoc [of pre d]
      by (cases d) auto
    show ?case
    proof (cases "ds = []")
      case True
      then show ?thesis
        using Cons.IH(1) [OF True st(1,2) p(2) st(3)] eq 2(2) t by simp
    next
      case False
      then show ?thesis
        using Cons.IH(2) [OF False _ st(1,2) p(2) st(3)] eq 2(2) t by simp
    qed
  }
qed

text \<open>The sibling takes the place of the parent.\<close>

fun retop :: "u32 \<Rightarrow> 'r htree \<Rightarrow> 'r htree" where
  "retop p (HLeaf h w) = HLeaf p w"
| "retop p (HNode h l r v q) = HNode p l r v q"

fun content :: "'r htree \<Rightarrow> 'r Node" where
  "content (HLeaf h w) = Leaf w"
| "content (HNode h l r v q) = Parent (hroot l) (hroot r) v q"

lemma retop_simps [simp]:
  "hroot (retop p t) = p" "height (retop p t) = height t" "leaves (retop p t) = leaves t"
  "sub (retop p t) [] = Some (retop p t)"
  by (cases t; simp)+

lemma sub_retop: "sub (retop p t) ds = (if ds = [] then Some (retop p t) else sub t ds)"
  by (cases t; cases ds) auto

lemma handles_retop: "\<exists>xs. handles t = hroot t # xs \<and> handles (retop p t) = p # xs"
  by (cases t) auto

lemma stored_content: "stored g t \<Longrightarrow> g (hroot t) = Some (content t)"
  by (cases t) auto

lemma stored_retop:
  assumes "stored g t" "distinct (handles t)" "p \<notin> set (handles t)"
  shows "stored (g(hroot t := None, p \<mapsto> content t)) (retop p t)"
proof (cases t)
  case (HNode h l r v q)
  have "stored (g(hroot t := None, p \<mapsto> content t)) l = stored g l"
    "stored (g(hroot t := None, p \<mapsto> content t)) r = stored g r"
    by (rule stored_cong; use assms HNode in auto)+
  then show ?thesis using HNode assms by auto
qed auto

lemma remove_here_spec:
  assumes ok: "ha_ok ns" and c: "ha_get ns c = Some n" and s: "ha_get ns s = Some m" and p: "ha_get ns p = Some k"
    and ne: "c \<noteq> s" "c \<noteq> p" "s \<noteq> p"
  obtains ns' where "remove_here c (Some (p, s, path)) ns = Some (Some path, ns')" "ha_ok ns'"
    "ha_get ns' = (ha_get ns)(c := None, s := None, p \<mapsto> m)"
proof -
  obtain n1 where r1: "ha_remove c ns = Some (Some n, n1)" using hnd.rem_total [OF ok, of c] c by auto
  have ok1: "ha_ok n1" "ha_get n1 = (ha_get ns)(c := None)"
    using hnd.rem_ok [OF ok r1] hnd.rem_look [OF r1] by auto
  obtain n2 where r2: "ha_remove s n1 = Some (Some m, n2)" using hnd.rem_total [OF ok1(1), of s] s ok1(2) ne by auto
  have ok2: "ha_ok n2" "ha_get n2 = (ha_get ns)(c := None, s := None)"
    using hnd.rem_ok [OF ok1(1) r2] hnd.rem_look [OF r2] ok1(2) by auto
  have "ha_get n2 p = Some k" using ok2(2) p ne by simp
  then obtain ns' where "ha_index_mut p (\<lambda>_. m) n2 = Some ns'" "ha_get ns' = (ha_get n2)(p \<mapsto> m)" "ha_ok ns'"
    using ha_index_mut_get [of n2 p k "\<lambda>_. m"] ok2(1) by metis
  then show thesis using that r1 r2 ok2(2) by (simp add: remove_here_def)
qed

lemma remove_leaf_ok:
  assumes ws: "ws_tree ws t" and leaf: "sub t (ds @ [d]) = Some (HLeaf c w)" and path: "steps path = ds @ d # rest"
  obtains h l r v q ws' where "sub t ds = Some (HNode h l r v q)"
    "remove_leaf path ws = Some (Some (path_of ds), ws')"
    "ws_tree ws' (subst t ds (retop h (if d then l else r)))"
proof -
  let ?ns = "nodes ws"
  have w: "ha_ok ?ns" "stored (ha_get ?ns) t" "distinct (handles t)" "dom (ha_get ?ns) = set (handles t)"
      "hroot t = root ws" "height t \<le> 23"
    using ws by (auto simp: ws_tree_def)
  obtain u where u: "sub t ds = Some u" "sub u [d] = Some (HLeaf c w)" using leaf by (auto simp: sub_append)
  then obtain h l r v q where n: "u = HNode h l r v q" by (cases u) auto
  define s where "s = (if d then l else r)"
  have cw: "(if d then r else l) = HLeaf c w" using u(2) n by simp
  have st: "stored (ha_get ?ns) u" using sub_stored [OF w(2) u(1)] .
  have len: "length [] + length (ds @ [d]) < 32" using sub_height [OF u(1)] w(6) n by auto
  have du: "distinct (handles u)" using sub_distinct [OF w(3) u(1)] .
  have hu: "set (handles u) = {h, c} \<union> set (handles s)" "distinct (handles s)" "h \<noteq> c" "h \<notin> set (handles s)"
    "c \<notin> set (handles s)"
    using du cw n by (auto simp: s_def split: if_splits)
  have ss: "stored (ha_get ?ns) s" using st n by (auto simp: s_def)
  have g: "ha_get ?ns c = Some (Leaf w)" "ha_get ?ns h = Some (content u)" "ha_get ?ns (hroot s) = Some (content s)"
    using sub_stored [OF w(2) leaf] stored_content [OF st] stored_content [OF ss] n by simp_all
  obtain ns' where r: "remove_here c (Some (h, hroot s, path_of ds)) ?ns = Some (Some (path_of ds), ns')" "ha_ok ns'"
      "ha_get ns' = (ha_get ?ns)(c := None, hroot s := None, h \<mapsto> content s)"
    by (rule remove_here_spec [OF w(1) g(1) g(3) g(2)]) (use hu hroot_handles [of s] in auto)
  obtain xs where xs: "handles s = hroot s # xs" "handles (retop h s) = h # xs" using handles_retop by blast
  have "stored ((ha_get ?ns)(c := None)) s = stored (ha_get ?ns) s" by (rule stored_cong) (use hu in auto)
  then have sv: "stored (ha_get ns') (retop h s)" using stored_retop [of "(ha_get ?ns)(c := None)" s h] ss hu r(3) by simp
  have dv: "distinct (handles (retop h s))" using xs hu by auto
  have "distinct (handles (subst t ds (retop h s))) \<and>
      set (handles (subst t ds (retop h s))) = (set (handles t) - set (handles u)) \<union> set (handles (retop h s))"
    by (rule subst_gather [OF u(1) w(3) dv]) (use xs hu in auto)
  moreover have "dom (ha_get ns') = (set (handles t) - set (handles u)) \<union> set (handles (retop h s))"
    using w(4) hu xs sub_gather [OF u(1), of "\<lambda>h. [h]" "\<lambda>h w. [h]"] unfolding r(3) by auto
  moreover have "stored (ha_get ns') (subst t ds (retop h s))"
    by (rule stored_subst [OF w(2,3) u(1) sv]) (use n hu hroot_handles [of s] in \<open>auto simp: r(3)\<close>)
  moreover have "height (subst t ds (retop h s)) \<le> 23"
    using subst_height [OF u(1), of "retop h s"] sub_height [OF u(1)] w(6) n by (auto simp: s_def split: if_splits)
  moreover have "hroot (subst t ds (retop h s)) = root ws" using hroot_subst [OF u(1), of "retop h s"] n w(5) by simp
  ultimately have "ws_tree (ws\<lparr>nodes := ns'\<rparr>) (subst t ds (retop h s))" using r(2) by (simp add: ws_tree_def)
  moreover have "remove_leaf path ws = Some (Some (path_of ds), ws\<lparr>nodes := ns'\<rparr>)"
    using remove_loop_spec(2) [OF w(2) leaf _ len, of path rest h l r v q None] path u(1) n w(5) r(1)
    by (simp add: remove_leaf_def path_of_def word_of_def s_def)
  ultimately show thesis using that u(1) n s_def by blast
qed

lemma remove_leaf_last:
  assumes ws: "ws_tree ws (HLeaf c w)"
  obtains ws' where "remove_leaf path ws = Some (None, ws')" "ws_empty ws'"
proof -
  let ?ns = "nodes ws"
  have w: "ha_ok ?ns" "ha_get ?ns c = Some (Leaf w)" "dom (ha_get ?ns) = {c}" "c = root ws"
    using ws by (auto simp: ws_tree_def)
  obtain ns' where r: "ha_remove c ?ns = Some (Some (Leaf w), ns')" using hnd.rem_total [OF w(1), of c] w(2) by auto
  have "ha_ok ns'" "ha_get ns' = (ha_get ?ns)(c := None)" using hnd.rem_ok [OF w(1) r] hnd.rem_look [OF r] by auto
  then have "ws_empty (ws\<lparr>nodes := ns'\<rparr>)" using w(3) by (auto simp: ws_empty_def fun_eq_iff dom_def)
  moreover have "remove_leaf path ws = Some (None, ws\<lparr>nodes := ns'\<rparr>)"
    unfolding remove_leaf_def by (subst remove_loop.simps) (use w r in \<open>simp add: remove_here_def\<close>)
  ultimately show thesis using that by blast
qed

section \<open>Reading\<close>

lemma collect_leaves_stored: "stored (ha_get ns) t \<Longrightarrow> collect_leaves ns (hroot t) = Some (leaves t)"
proof (induction t)
  case (HNode h l r v q)
  then show ?case by (subst collect_leaves.simps) simp
qed (simp add: collect_leaves.simps)

lemma prefix_loop_stored:
  "stored (ha_get ns) t \<Longrightarrow> sub t ds = Some u \<Longrightarrow> steps p = ds \<Longrightarrow> prefix_loop p (hroot t) ns = Some (leaves u)"
proof (induction ds arbitrary: t p)
  case Nil
  then show ?case by (simp add: path_next_Nil collect_leaves_stored)
next
  case (Cons d ds)
  obtain h l r v q where t: "t = HNode h l r v q" using Cons.prems(2) by (cases t) auto
  obtain p' where p: "path_next p = Some (d, p')" "steps p' = ds" using path_next_Cons [OF Cons.prems(3)] by auto
  have "prefix_loop p' (hroot (if d then r else l)) ns = Some (leaves u)"
    by (rule Cons.IH) (use Cons.prems t p in auto)
  then show ?case using Cons.prems t p by (subst prefix_loop.simps) (auto split: if_splits)
qed

lemma apply_with_prefix_leaves:
  assumes "ws_tree ws t" "sub t ds = Some u" "length ds \<le> 32"
  shows "apply_with_prefix (path_into_iter (path_of ds)) ws = Some (leaves u)"
  using prefix_loop_stored [of "nodes ws" t ds u] steps_path_of [OF assms(3)] assms(1,2)
  by (simp add: apply_with_prefix_def ws_tree_def del: prefix_loop.simps)

text \<open>The rectangle of the subtree at a path.\<close>

fun rect_of :: "('r, 'p, 'rect) geometry \<Rightarrow> 'r htree \<Rightarrow> 'rect \<Rightarrow> bool list \<Rightarrow> 'rect" where
  "rect_of g t rect [] = rect"
| "rect_of g (HNode h l r v q) rect (d # ds) =
     (if d then rect_of g r (snd (split_rect g v q rect)) ds else rect_of g l (fst (split_rect g v q rect)) ds)"
| "rect_of g (HLeaf h w) rect (d # ds) = rect"

lemma recurse_loop_path:
  assumes "stored (ha_get ns) t" "sub t ds = Some (HLeaf c w)" "steps p = ds @ rest"
  shows "recurse_loop g (\<lambda>p _ _. path_next p) ns p (content t) rect = Some (w, rect_of g t rect ds)"
  using assms
proof (induction ds arbitrary: t p rect)
  case Nil
  then show ?case by (simp add: recurse_loop.simps)
next
  case (Cons d ds)
  obtain h l r v q where t: "t = HNode h l r v q" using Cons.prems(2) by (cases t) auto
  obtain p' where p: "path_next p = Some (d, p')" "steps p' = ds @ rest"
    using path_next_Cons [of p d "ds @ rest"] Cons.prems(3) by auto
  have "recurse_loop g (\<lambda>p _ _. path_next p) ns p' (content (if d then r else l)) rect'
      = Some (w, rect_of g (if d then r else l) rect' ds)" for rect'
    by (rule Cons.IH) (use Cons.prems t p in auto)
  then show ?case using Cons.prems t p stored_content [of "ha_get ns" r] stored_content [of "ha_get ns" l]
    by (subst recurse_loop.simps) (auto split: if_splits)
qed

text \<open>What the external crate documents of rectangles: they are products of two inclusive ranges.\<close>

definition geometry_ok :: "('r, 'p, 'rect) geometry \<Rightarrow> ('p \<Rightarrow> u32) \<Rightarrow> ('p \<Rightarrow> u32) \<Rightarrow> bool" where
  "geometry_ok g px py \<longleftrightarrow>
     (\<forall>a b c d. g_low g (g_from_ranges g (a, b) (c, d)) = (a, c) \<and> g_high g (g_from_ranges g (a, b) (c, d)) = (b, d))
   \<and> (\<forall>r. g_x g r = (fst (g_low g r), fst (g_high g r)) \<and> g_y g r = (snd (g_low g r), snd (g_high g r)))
   \<and> (\<forall>r p. g_contains g r p \<longleftrightarrow> fst (g_low g r) \<le> px p \<and> px p \<le> fst (g_high g r)
        \<and> snd (g_low g r) \<le> py p \<and> py p \<le> snd (g_high g r))"

lemma word_le_or_ge_succ: "(x :: u32) \<le> m \<or> m + 1 \<le> x"
  by (metis inc_le linorder_le_less_linear)

lemma split_rect_covers:
  assumes "geometry_ok g px py" "g_contains g rect pos" "\<not> g_contains g (snd (split_rect g v q rect)) pos"
  shows "g_contains g (fst (split_rect g v q rect)) pos"
  using assms word_le_or_ge_succ [of "px pos" "g_partition_range g q (g_x g rect)"]
    word_le_or_ge_succ [of "py pos" "g_partition_range g q (g_y g rect)"]
  by (auto simp: split_rect_def Let_def geometry_ok_def split: if_splits)

lemma recurse_loop_at:
  assumes "stored (ha_get ns) t" "geometry_ok g px py"
  shows "\<exists>ds c w. sub t ds = Some (HLeaf c w)
    \<and> recurse_loop g (\<lambda>s _ r. Some (g_contains g r pos, s)) ns () (content t) rect = Some (w, rect_of g t rect ds)
    \<and> (g_contains g rect pos \<longrightarrow> g_contains g (rect_of g t rect ds) pos)"
  using assms
proof (induction t arbitrary: rect)
  case (HLeaf c w)
  then show ?case by (intro exI [of _ "[]"]) (simp add: recurse_loop.simps)
next
  case (HNode h l r v q)
  define d where "d = g_contains g (snd (split_rect g v q rect)) pos"
  define rect' where "rect' = (if d then snd (split_rect g v q rect) else fst (split_rect g v q rect))"
  have cont: "g_contains g rect pos \<Longrightarrow> g_contains g rect' pos"
    using split_rect_covers [OF HNode.prems(2)] by (auto simp: rect'_def d_def)
  obtain ds c w where ih: "sub (if d then r else l) ds = Some (HLeaf c w)"
    "recurse_loop g (\<lambda>s _ r. Some (g_contains g r pos, s)) ns () (content (if d then r else l)) rect'
       = Some (w, rect_of g (if d then r else l) rect' ds)"
    "g_contains g rect' pos \<longrightarrow> g_contains g (rect_of g (if d then r else l) rect' ds) pos"
    using HNode.IH(1) [of rect'] HNode.IH(2) [of rect'] HNode.prems by (cases d) auto
  have "recurse_loop g (\<lambda>s _ r. Some (g_contains g r pos, s)) ns () (content (HNode h l r v q)) rect
      = Some (w, rect_of g (HNode h l r v q) rect (d # ds))"
    using ih(2) HNode.prems stored_content [of "ha_get ns" l] stored_content [of "ha_get ns" r]
    by (subst recurse_loop.simps) (auto simp: rect'_def simp flip: d_def split: if_splits)
  then show ?case using ih cont by (intro exI [of _ "d # ds"]) (auto simp: rect'_def)
qed

lemma window_at_rect:
  assumes "ws_tree ws t" "geometry_ok g px py"
  obtains ds c w where "sub t ds = Some (HLeaf c w)"
    "window_at g pos sz ws = Some (Some (w, rect_of g t (g_from_size g sz) ds))"
    "g_contains g (g_from_size g sz) pos \<longrightarrow> g_contains g (rect_of g t (g_from_size g sz) ds) pos"
  using recurse_loop_at [of "nodes ws" t g px py pos "g_from_size g sz"] assms
    stored_content [of "ha_get (nodes ws)" t]
  by (auto simp: window_at_def recurse_def ws_tree_def)

lemma calculate_rect_path:
  assumes "ws_tree ws t" "sub t ds = Some (HLeaf c w)" "steps path = ds @ rest"
  shows "calculate_rect g path sz ws = Some (Some (rect_of g t (g_from_size g sz) ds))"
  using recurse_loop_path [OF _ assms(2,3), of "nodes ws" g "g_from_size g sz"] assms(1)
    stored_content [of "ha_get (nodes ws)" t]
  by (simp add: calculate_rect_def recurse_def ws_tree_def)

end
