(* ===== verification/Window_Manager.thy ===== *)
theory Window_Manager
  imports Workspace
begin

text \<open>
  The windows of \<open>base/window_manager/src/window.rs\<close> and the manager of \<open>manager.rs\<close>, which keeps in
  every window the path to its leaf in the workspace. The fields of a window for its title and its
  events are not used by these operations and are left out.
\<close>

section \<open>Windows\<close>

record Window =
  w_workspace :: u8
  w_path :: u32
  w_framebuffer :: u32

definition window_new :: "u8 \<Rightarrow> Path \<Rightarrow> Window panics" where
  "window_new ws p =
     do { assert (depth p \<le> 32);
          Some \<lparr>w_workspace = ws, w_path = directions p, w_framebuffer = -1\<rparr> }"

definition window_path :: "Window \<Rightarrow> u8 \<times> PathIter" where
  "window_path w = (w_workspace w, \<lparr>pi_count = 32, pi_path = w_path w\<rparr>)"

definition set_path :: "u8 \<Rightarrow> Path \<Rightarrow> Window \<Rightarrow> Window panics" where
  "set_path ws p w = do { assert (depth p \<le> 32); Some (w\<lparr>w_workspace := ws, w_path := directions p\<rparr>) }"

text \<open>The shift wraps at 32 bits as in a release build.\<close>

definition move_up :: "nat \<Rightarrow> Window \<Rightarrow> Window" where
  "move_up from w =
     (let msk = push_bit (from mod 32) 1 - 1
      in w\<lparr>w_path := w_path w AND msk OR (drop_bit 1 (w_path w) AND NOT msk)\<rparr>)"

section \<open>The manager\<close>

record 'r Manager =
  m_windows :: "Window harena"
  m_workspaces :: "'r Workspace list"
  m_current_workspace :: u8
  m_focused_window :: u32

definition manager_new :: "'r Manager" where
  "manager_new = \<lparr>m_windows = ha_new, m_workspaces = [workspace_new], m_current_workspace = 0,
     m_focused_window = -1\<rparr>"

text \<open>\<open>part\<close> is \<open>Ratio::partition\<close> and \<open>rt\<close> the default ratio. A leaf that is too deep is a \<open>todo!\<close>.\<close>

definition new_window ::
  "('r \<Rightarrow> u32 \<Rightarrow> u32 \<times> u32) \<Rightarrow> 'r \<Rightarrow> u32 \<times> u32 \<Rightarrow> 'r Manager \<Rightarrow> (u32 \<times> 'r Manager) panics" where
  "new_window part rt total_size m =
     (let cur = m_current_workspace m; i = unat cur in
      do { (res, (ws, update), wins) \<leftarrow> ha_insert_with (\<lambda>handle.
             do { ws \<leftarrow> nth_opt (m_workspaces m) i;
                  (r, ws) \<leftarrow> split_leaf part right_bottom handle None rt total_size ws;
                  case r of
                    Inl _ \<Rightarrow> None
                  | Inr (p, update) \<Rightarrow> do { w \<leftarrow> window_new cur p; Some (w, (ws, update)) } }) (m_windows m);
           wins \<leftarrow> (case update of
             None \<Rightarrow> Some wins
           | Some (handle, path) \<Rightarrow>
               do { w \<leftarrow> ha_index wins handle; w \<leftarrow> set_path cur path w; ha_index_mut handle (\<lambda>_. w) wins });
           Some (res, m\<lparr>m_windows := wins, m_workspaces := (m_workspaces m)[i := ws]\<rparr>) })"

text \<open>The closure of \<open>apply_with_prefix\<close> moves each window in turn.\<close>

fun move_all :: "nat \<Rightarrow> u32 list \<Rightarrow> Window harena \<Rightarrow> Window harena panics" where
  "move_all n [] wins = Some wins"
| "move_all n (h # hs) wins = do { wins \<leftarrow> ha_index_mut h (move_up n) wins; move_all n hs wins }"

definition destroy_window :: "u32 \<Rightarrow> 'r Manager \<Rightarrow> ((unit + Window) \<times> 'r Manager) panics" where
  "destroy_window handle m =
     do { (w, wins) \<leftarrow> ha_remove handle (m_windows m);
          case w of
            None \<Rightarrow> Some (Inl (), m\<lparr>m_windows := wins\<rparr>)
          | Some w \<Rightarrow>
              (let (i, path) = window_path w in
               do { ws \<leftarrow> nth_opt (m_workspaces m) (unat i);
                    (path, ws) \<leftarrow> remove_leaf path ws;
                    path \<leftarrow> path;
                    hs \<leftarrow> apply_with_prefix (path_into_iter path) ws;
                    wins \<leftarrow> move_all (unat (depth path)) hs wins;
                    Some (Inr w, m\<lparr>m_windows := wins, m_workspaces := (m_workspaces m)[unat i := ws]\<rparr>) }) }"

definition window_rect ::
  "('r, 'p, 'rect) geometry \<Rightarrow> u32 \<Rightarrow> u32 \<times> u32 \<Rightarrow> 'r Manager \<Rightarrow> 'rect option panics" where
  "window_rect g handle total_size m =
     (case ha_get (m_windows m) handle of
        None \<Rightarrow> Some None
      | Some w \<Rightarrow>
          (let (i, path) = window_path w in
           if m_current_workspace m = i
           then do { ws \<leftarrow> nth_opt (m_workspaces m) (unat i); calculate_rect g path total_size ws }
           else Some None))"

definition manager_window_at ::
  "('r, 'p, 'rect) geometry \<Rightarrow> 'p \<Rightarrow> u32 \<times> u32 \<Rightarrow> 'r Manager \<Rightarrow> (u32 \<times> 'rect) option panics" where
  "manager_window_at g position total_size m =
     do { ws \<leftarrow> nth_opt (m_workspaces m) (unat (m_current_workspace m)); window_at g position total_size ws }"

definition focused_window :: "'r Manager \<Rightarrow> (u32 option \<times> 'r Manager) panics" where
  "focused_window m =
     do { ws \<leftarrow> nth_opt (m_workspaces m) (unat (m_current_workspace m));
          hs \<leftarrow> windows ws;
          case hs of
            [] \<Rightarrow> Some (None, m)
          | h # hs \<Rightarrow>
              (let fw = m_focused_window m;
                   m = (if h \<noteq> fw \<and> fw \<notin> set hs then m\<lparr>m_focused_window := h\<rparr> else m)
               in Some (Some (m_focused_window m), m)) }"

definition set_focused_window :: "u32 \<Rightarrow> 'r Manager \<Rightarrow> 'r Manager" where
  "set_focused_window handle m = m\<lparr>m_focused_window := handle\<rparr>"

section \<open>The invariant\<close>

text \<open>The path of a window begins with the turns \<open>ds\<close>.\<close>

definition leads :: "Window \<Rightarrow> bool list \<Rightarrow> bool" where
  "leads w ds \<longleftrightarrow> length ds \<le> 32 \<and> (\<forall>i < length ds. bit (w_path w) i = ds ! i)"

definition mgr_tree :: "'r Manager \<Rightarrow> 'r htree \<Rightarrow> bool" where
  "mgr_tree m t \<longleftrightarrow> ha_ok (m_windows m) \<and> m_current_workspace m = 0
     \<and> (\<exists>ws. m_workspaces m = [ws] \<and> ws_tree ws t)
     \<and> distinct (leaves t) \<and> set (leaves t) = dom (ha_get (m_windows m))
     \<and> (\<forall>h w. ha_get (m_windows m) h = Some w \<longrightarrow>
          w_workspace w = 0 \<and> (\<exists>ds c. sub t ds = Some (HLeaf c h) \<and> leads w ds))"

definition mgr_empty :: "'r Manager \<Rightarrow> bool" where
  "mgr_empty m \<longleftrightarrow> ha_ok (m_windows m) \<and> m_current_workspace m = 0
     \<and> (\<exists>ws. m_workspaces m = [ws] \<and> ws_empty ws) \<and> ha_get (m_windows m) = Map.empty"

definition mgr_inv :: "'r Manager \<Rightarrow> bool" where
  "mgr_inv m \<longleftrightarrow> mgr_empty m \<or> (\<exists>t. mgr_tree m t)"

lemma manager_new_inv: "mgr_inv manager_new"
  by (simp add: mgr_inv_def mgr_empty_def manager_new_def ws_empty_def workspace_new_def ha_ok_new ha_get_new
      fun_eq_iff)

lemma leads_steps: "leads w ds \<Longrightarrow> \<exists>rest. steps (snd (window_path w)) = ds @ rest"
proof -
  assume l: "leads w ds"
  have "steps (snd (window_path w)) = map (bit (w_path w)) [0..<32]" by (simp add: steps_def window_path_def)
  also have "[0..<32] = [0..<length ds] @ [length ds..<32]"
    using l unfolding leads_def by (metis le_add_diff_inverse upt_add_eq_append zero_le)
  finally have "steps (snd (window_path w)) = map (bit (w_path w)) [0..<length ds] @ map (bit (w_path w)) [length ds..<32]"
    by (simp only: map_append)
  moreover have "map (bit (w_path w)) [0..<length ds] = ds" using l by (intro nth_equalityI) (auto simp: leads_def)
  ultimately show ?thesis by metis
qed

lemma leads_path_of: "length ds \<le> 32 \<Longrightarrow> w_path w = directions (path_of ds) \<Longrightarrow> leads w ds"
  by (auto simp: leads_def path_of_def bit_word_of)

lemma bit_low_mask: "k < 32 \<Longrightarrow> bit (2 ^ k - 1 :: u32) i \<longleftrightarrow> i < k"
  by (simp flip: mask_eq_exp_minus_1) (auto simp: bit_mask_iff)

lemma leads_move_up:
  assumes "leads w (ds @ d # es)" shows "leads (move_up (length ds) w) (ds @ es)"
proof -
  have k: "length ds < 32" using assms by (simp add: leads_def)
  have "bit (w_path (move_up (length ds) w)) i = (ds @ es) ! i" if "i < length (ds @ es)" for i
  proof (cases "i < length ds")
    case True
    then show ?thesis using assms k by (auto simp: leads_def move_up_def Let_def bit_simps bit_low_mask nth_append)
  next
    case False
    then have "bit (w_path w) (Suc i) = (ds @ d # es) ! Suc i" using assms that by (simp add: leads_def)
    moreover have "Suc i < 32" using assms that by (simp add: leads_def)
    ultimately show ?thesis using False k
      by (auto simp: move_up_def Let_def bit_simps bit_low_mask nth_append Suc_diff_le)
  qed
  then show ?thesis using assms by (simp add: leads_def)
qed

lemma leaf_paths:
  "sub t ds = Some (HLeaf c w) \<Longrightarrow> sub t es = Some u \<Longrightarrow> prefix ds es \<Longrightarrow> es = ds"
  by (auto simp: prefix_def sub_append elim: sub.elims)

lemma leaf_at_leaves: "sub t ds = Some (HLeaf c w) \<Longrightarrow> w \<in> set (leaves t)"
  using sub_gather [of t ds "HLeaf c w" "\<lambda>h. []" "\<lambda>h w. [w]"] by simp

lemma rightmost: "\<exists>k c w. k \<le> height t \<and> sub t (replicate k True) = Some (HLeaf c w)"
proof (induction t)
  case (HNode h l r v q)
  then obtain k c w where "k \<le> height r" "sub r (replicate k True) = Some (HLeaf c w)" by blast
  then show ?case by (intro exI [of _ "Suc k"]) auto
qed (auto intro: exI [of _ 0])

lemma height_leaves: "height t < length (leaves t)"
  by (induction t) auto

lemma steps_right_bottom: "steps right_bottom = replicate 32 True"
  by (intro nth_equalityI) (simp_all add: steps_def right_bottom_def path_iter_new_def)

section \<open>Opening a window\<close>

definition mgr_room :: "'r Manager \<Rightarrow> bool" where
  "mgr_room m \<longleftrightarrow> ha_room (m_windows m)
     \<and> (\<forall>ws \<in> set (m_workspaces m). length (storage (nodes ws)) + 2 \<le> 2 ^ 32)"

lemma insert_next:
  assumes "ha_ok a" "ha_room a"
  obtains x where "convert_from_handle (ha_next a) = Some x" "ha_get a x = None"
    "\<And>v. \<exists>a'. ha_insert v a = Some (x, a') \<and> ha_ok a' \<and> ha_get a' = (ha_get a)(x \<mapsto> v)"
proof -
  obtain x a' where i: "ha_insert undefined a = Some (x, a')" using hnd.ins_total [OF assms] by blast
  have x: "convert_from_handle (ha_next a) = Some x" using ha_insert_next [OF i] .
  have "\<exists>a'. ha_insert v a = Some (x, a') \<and> ha_ok a' \<and> ha_get a' = (ha_get a)(x \<mapsto> v)" for v
  proof -
    obtain y b where b: "ha_insert v a = Some (y, b)" using hnd.ins_total [OF assms] by blast
    have "y = x" using ha_insert_next [OF b] x by simp
    then show ?thesis using b hnd.ins_ok [OF assms(1) b] hnd.ins_look [OF b] by simp
  qed
  then show thesis using that x hnd.ins_fresh [OF i] by blast
qed

lemma window_new_ok: "length ds \<le> 32 \<Longrightarrow> window_new ws (path_of ds)
    = Some \<lparr>w_workspace = ws, w_path = word_of ds, w_framebuffer = -1\<rparr>"
  and set_path_ok: "length ds \<le> 32 \<Longrightarrow> set_path ws (path_of ds) w = Some (w\<lparr>w_workspace := ws, w_path := word_of ds\<rparr>)"
proof -
  have "of_nat (length ds) \<le> (32 :: u8)" if "length ds \<le> 32"
    using that by (simp add: word_le_nat_alt unat_of_nat_small)
  then show "length ds \<le> 32 \<Longrightarrow> window_new ws (path_of ds)
    = Some \<lparr>w_workspace = ws, w_path = word_of ds, w_framebuffer = -1\<rparr>"
    "length ds \<le> 32 \<Longrightarrow> set_path ws (path_of ds) w = Some (w\<lparr>w_workspace := ws, w_path := word_of ds\<rparr>)"
    by (simp_all add: window_new_def set_path_def path_of_def)
qed

lemma new_window_first:
  assumes e: "mgr_empty m" and room: "mgr_room m"
  obtains h m' t where "new_window part rt sz m = Some (h, m')" "mgr_tree m' t"
    "dom (ha_get (m_windows m')) = {h}"
proof -
  obtain ws where m: "ha_ok (m_windows m)" "m_current_workspace m = 0" "m_workspaces m = [ws]" "ws_empty ws"
    "ha_get (m_windows m) = Map.empty"
    using e by (auto simp: mgr_empty_def)
  have r: "ha_room (m_windows m)" "ha_room (nodes ws)" using room m(3) by (auto simp: mgr_room_def ha_room_def)
  obtain h where h: "convert_from_handle (ha_next (m_windows m)) = Some h"
    "\<And>v. \<exists>a'. ha_insert v (m_windows m) = Some (h, a') \<and> ha_ok a' \<and> ha_get a' = (ha_get (m_windows m))(h \<mapsto> v)"
    using insert_next [OF m(1) r(1)] by metis
  obtain c ws' where s: "split_leaf part right_bottom h None rt sz ws = Some (Inr (path_of [], None), ws')"
    "ws_tree ws' (HLeaf c h)"
    using split_leaf_first [OF m(4) r(2)] by metis
  let ?w = "\<lparr>w_workspace = 0, w_path = word_of [], w_framebuffer = -1\<rparr>"
  obtain wins where i: "ha_insert ?w (m_windows m) = Some (h, wins)" "ha_ok wins" "ha_get wins = [h \<mapsto> ?w]"
    using h(2) [of ?w] m(5) by auto
  let ?m = "m\<lparr>m_windows := wins, m_workspaces := [ws']\<rparr>"
  have "new_window part rt sz m = Some (h, ?m)"
    using h(1) s(1) i(1) m(2,3) window_new_ok [of "[]" 0]
    by (simp add: new_window_def ha_insert_with_insert nth_opt_def)
  moreover have "mgr_tree ?m (HLeaf c h)"
    using s(2) i(2,3) m(2) by (auto simp: mgr_tree_def leads_def intro!: exI [of _ "[]"])
  ultimately show thesis using that i(3) by simp
qed

text \<open>A leaf keeps its path when another leaf is split.\<close>

lemma other_leaf_path:
  assumes "sub t ds = Some (HLeaf c w)" "sub t es = Some (HLeaf c' x)" "x \<noteq> w"
  shows "sub (subst t ds u) es = Some (HLeaf c' x)"
proof -
  have "\<not> prefix ds es" using leaf_paths [OF assms(1,2)] assms by auto
  moreover have "\<not> prefix es ds" using leaf_paths [OF assms(2,1)] assms by auto
  ultimately show ?thesis using sub_subst_other [OF assms(1)] assms(2) by simp
qed

lemma mgr_tree_split:
  assumes t: "mgr_tree m t" and leaf: "sub t ds = Some (HLeaf c w)" and h: "ha_get (m_windows m) h = None"
    and ws': "ws_tree ws' (subst t ds (HNode c (HLeaf hw w) (HLeaf hn h) v q))"
    and wins: "ha_ok wins" "ha_get wins = (ha_get (m_windows m))(h \<mapsto> W, w \<mapsto> V)"
    and W: "w_workspace W = 0" "leads W (ds @ [True])" and V: "w_workspace V = 0" "leads V (ds @ [False])"
  shows "mgr_tree (m\<lparr>m_windows := wins, m_workspaces := [ws']\<rparr>) (subst t ds (HNode c (HLeaf hw w) (HLeaf hn h) v q))"
proof -
  let ?u = "HNode c (HLeaf hw w) (HLeaf hn h) v q" and ?g = "ha_get (m_windows m)"
  have m: "ha_ok (m_windows m)" "m_current_workspace m = 0" "distinct (leaves t)" "set (leaves t) = dom ?g"
      "\<And>h w. ?g h = Some w \<Longrightarrow> w_workspace w = 0"
      "\<And>h w. ?g h = Some w \<Longrightarrow> \<exists>ds c. sub t ds = Some (HLeaf c h) \<and> leads w ds"
    using t by (simp_all add: mgr_tree_def)
  have w: "w \<in> dom ?g" "w \<noteq> h" using leaf_at_leaves [OF leaf] m(4) h by auto
  have "distinct (leaves (subst t ds ?u)) \<and> set (leaves (subst t ds ?u)) = (set (leaves t) - {w}) \<union> {w, h}"
    using subst_gather [OF leaf m(3), of ?u] w h m(4) by auto
  moreover have "dom (ha_get wins) = Set.insert h (dom ?g)" using w by (auto simp: wins(2))
  moreover have "w_workspace y = 0 \<and> (\<exists>es c'. sub (subst t ds ?u) es = Some (HLeaf c' x) \<and> leads y es)"
    if y: "ha_get wins x = Some y" for x y
  proof -
    consider "x = w" "y = V" | "x = h" "x \<noteq> w" "y = W" | "x \<noteq> w" "?g x = Some y"
      using y unfolding wins(2) fun_upd_apply by (metis option.inject)
    then show ?thesis
    proof cases
      case 1
      then show ?thesis using V sub_subst_same [OF leaf, of ?u "[False]"] by force
    next
      case 2
      then show ?thesis using W sub_subst_same [OF leaf, of ?u "[True]"] by force
    next
      case 3
      then obtain es c' where "sub t es = Some (HLeaf c' x)" "leads y es" using m(6) by blast
      then show ?thesis using other_leaf_path [OF leaf _ 3(1)] m(5) 3(2) by blast
    qed
  qed
  ultimately show ?thesis using wins(1) m(2,4) w ws' by (simp add: mgr_tree_def insert_absorb) blast
qed

lemma new_window_next:
  assumes t: "mgr_tree m t" and room: "mgr_room m" and few: "length (leaves t) < 24"
  obtains h m' t' where "new_window part rt sz m = Some (h, m')" "mgr_tree m' t'"
    "ha_get (m_windows m) h = None" "dom (ha_get (m_windows m')) = Set.insert h (dom (ha_get (m_windows m)))"
proof -
  let ?g = "ha_get (m_windows m)"
  obtain ws where m: "ha_ok (m_windows m)" "m_current_workspace m = 0" "m_workspaces m = [ws]" "ws_tree ws t"
      "set (leaves t) = dom ?g"
    using t by (auto simp: mgr_tree_def)
  have r: "ha_room (m_windows m)" "length (storage (nodes ws)) + 2 \<le> 2 ^ 32" using room m(3) by (auto simp: mgr_room_def)
  obtain h where h: "convert_from_handle (ha_next (m_windows m)) = Some h" "?g h = None"
    "\<And>v. \<exists>a'. ha_insert v (m_windows m) = Some (h, a') \<and> ha_ok a' \<and> ha_get a' = ?g(h \<mapsto> v)"
    using insert_next [OF m(1) r(1)] by metis
  obtain k c w where k: "k \<le> height t" "sub t (replicate k True) = Some (HLeaf c w)" using rightmost by blast
  define ds where "ds = replicate k True"
  have k23: "length ds < 23" using k(1) few height_leaves [of t] by (simp add: ds_def)
  have leaf: "sub t ds = Some (HLeaf c w)" using k(2) ds_def by simp
  have st: "steps right_bottom = ds @ replicate (32 - k) True"
    using k23 by (simp add: steps_right_bottom ds_def flip: replicate_add)
  obtain turn vert hw hn ws' where s: "split_leaf part right_bottom h None rt sz ws
      = Some (Inr (path_of (ds @ [turn]), Some (w, path_of (ds @ [\<not> turn]))), ws')"
    and turn: "(None :: Direction option) = None \<longrightarrow> turn"
    and ws': "ws_tree ws' (subst t ds (HNode c (if turn then HLeaf hw w else HLeaf hn h)
       (if turn then HLeaf hn h else HLeaf hw w) vert rt))"
    by (rule split_leaf_ok [OF m(4) leaf st k23 r(2)])
  let ?W = "\<lparr>w_workspace = 0, w_path = word_of (ds @ [True]), w_framebuffer = -1\<rparr>"
  obtain wins where i: "ha_insert ?W (m_windows m) = Some (h, wins)" "ha_ok wins" "ha_get wins = ?g(h \<mapsto> ?W)"
    using h(3) [of ?W] by auto
  have "w \<in> dom ?g" using leaf_at_leaves [OF leaf] m(5) by simp
  then obtain wd where wd: "?g w = Some wd" by auto
  then have ne: "w \<noteq> h" using h(2) by auto
  let ?V = "wd\<lparr>w_workspace := 0, w_path := word_of (ds @ [False])\<rparr>"
  have gw: "ha_get wins w = Some wd" using wd i(3) ne by simp
  obtain wins' where u: "ha_index_mut w (\<lambda>_. ?V) wins = Some wins'" "ha_get wins' = ?g(h \<mapsto> ?W, w \<mapsto> ?V)" "ha_ok wins'"
    using ha_index_mut_get [OF gw, of "\<lambda>_. ?V"] i by metis
  let ?m = "m\<lparr>m_windows := wins', m_workspaces := [ws']\<rparr>"
  have l: "leads ?W (ds @ [True])" "leads ?V (ds @ [False])"
    by (rule leads_path_of; use k23 in \<open>simp add: path_of_def\<close>)+
  have "new_window part rt sz m = Some (h, ?m)"
    using h(1) s turn i(1) m(2,3) u(1) gw k23 window_new_ok [of "ds @ [True]" 0] set_path_ok [of "ds @ [False]" 0 wd]
    by (simp add: new_window_def ha_insert_with_insert nth_opt_def)
  moreover have "mgr_tree ?m (subst t ds (HNode c (HLeaf hw w) (HLeaf hn h) vert rt))"
    by (rule mgr_tree_split [OF t leaf h(2) _ u(3,2) _ l(1) _ l(2)]) (use ws' turn in simp_all)
  moreover have "dom (ha_get wins') = Set.insert h (dom ?g)" using wd by (auto simp: u(2))
  ultimately show thesis using that h(2) by simp
qed

section \<open>Closing a window\<close>

lemma leaves_path: "x \<in> set (leaves t) \<Longrightarrow> \<exists>ds c. sub t ds = Some (HLeaf c x)"
proof (induction t)
  case (HLeaf h w)
  then show ?case by (intro exI [of _ "[]"]) auto
next
  case (HNode h l r v q)
  then consider ds c where "sub l ds = Some (HLeaf c x)" | ds c where "sub r ds = Some (HLeaf c x)" by auto
  then show ?case
  proof cases
    case 1
    then show ?thesis by (intro exI [of _ "False # ds"]) auto
  next
    case 2
    then show ?thesis by (intro exI [of _ "True # ds"]) auto
  qed
qed

lemma leaf_path_unique:
  "distinct (leaves t) \<Longrightarrow> sub t a = Some (HLeaf c x) \<Longrightarrow> sub t b = Some (HLeaf c' x) \<Longrightarrow> a = b"
proof (induction t a arbitrary: b rule: sub.induct)
  case (1 t)
  then show ?case by (cases b) auto
next
  case (2 h l r v q d ds)
  then obtain e es where b: "b = e # es" by (cases b) auto
  have "x \<in> set (leaves (if d then r else l))" "x \<in> set (leaves (if e then r else l))"
    using leaf_at_leaves [of "if d then r else l" ds c x] leaf_at_leaves [of "if e then r else l" es c' x] 2 b by auto
  then have "e = d" using 2(2) by (auto split: if_splits)
  then show ?case using 2 b by (cases d) auto
qed simp

lemma move_all_spec:
  assumes "ha_ok wins" "distinct hs" "set hs \<subseteq> dom (ha_get wins)"
  obtains wins' where "move_all n hs wins = Some wins'" "ha_ok wins'"
    "ha_get wins' = (\<lambda>h. if h \<in> set hs then map_option (move_up n) (ha_get wins h) else ha_get wins h)"
  using assms
proof (induction hs arbitrary: wins thesis)
  case Nil
  then show ?case by simp
next
  case (Cons h hs)
  obtain w where w: "ha_get wins h = Some w" using Cons.prems(4) by auto
  obtain w1 where w1: "ha_index_mut h (move_up n) wins = Some w1" "ha_get w1 = (ha_get wins)(h \<mapsto> move_up n w)" "ha_ok w1"
    using ha_index_mut_get [OF w, of "move_up n"] Cons.prems(2) by metis
  have d: "distinct hs" "set hs \<subseteq> dom (ha_get w1)" using Cons.prems(3,4) w1(2) by auto
  obtain w2 where w2: "move_all n hs w1 = Some w2" "ha_ok w2"
    "ha_get w2 = (\<lambda>h. if h \<in> set hs then map_option (move_up n) (ha_get w1 h) else ha_get w1 h)"
    by (rule Cons.IH [OF _ w1(3) d])
  have "ha_get w2 = (\<lambda>x. if x \<in> set (h # hs) then map_option (move_up n) (ha_get wins x) else ha_get wins x)"
    using Cons.prems(3) w by (auto simp: fun_eq_iff w2(3) w1(2))
  then show ?case using Cons.prems(1) w1(1) w2(1,2) by simp
qed

text \<open>The paths after a leaf has been removed and its sibling has taken the place of their parent.\<close>

lemma moved_path:
  assumes d: "distinct (leaves t)" and u: "sub t ds = Some (HNode hh l r v q)" and s: "s = (if d then l else r)"
    and x: "x \<in> set (leaves s)" and es: "sub t es = Some (HLeaf c x)" "leads y es"
  shows "\<exists>es c. sub (subst t ds (retop hh s)) es = Some (HLeaf c x) \<and> leads (move_up (length ds) y) es"
proof -
  obtain rest c' where r: "sub s rest = Some (HLeaf c' x)" using leaves_path [OF x] by blast
  have "sub t (ds @ (\<not> d) # rest) = Some (HLeaf c' x)" using u r s by (cases d) (simp_all add: sub_append)
  then have "es = ds @ (\<not> d) # rest" using leaf_path_unique [OF d es(1)] by blast
  then have "leads (move_up (length ds) y) (ds @ rest)" using leads_move_up es(2) by simp
  moreover have "\<exists>c. sub (subst t ds (retop hh s)) (ds @ rest) = Some (HLeaf c x)"
    using sub_subst_same [OF u, of "retop hh s" rest] r by (cases rest) (auto simp: sub_retop elim: sub.elims)
  ultimately show ?thesis by blast
qed

lemma unmoved_path:
  assumes u: "sub t ds = Some (HNode hh l r v q)" and x: "x \<notin> set (leaves (HNode hh l r v q))"
    and es: "sub t es = Some (HLeaf c x)"
  shows "sub (subst t ds w) es = Some (HLeaf c x)"
proof -
  have "\<not> prefix ds es"
  proof
    assume "prefix ds es"
    then obtain rest where "sub (HNode hh l r v q) rest = Some (HLeaf c x)" using u es by (auto simp: prefix_def sub_append)
    then show False using leaf_at_leaves x by blast
  qed
  moreover have "\<not> prefix es ds" using leaf_paths [OF es u] u es by auto
  ultimately show ?thesis using sub_subst_other [OF u] es by simp
qed

lemma mgr_tree_remove:
  assumes t: "mgr_tree m t" and leaf: "sub t (ds @ [d]) = Some (HLeaf c h)" and u: "sub t ds = Some (HNode hh l r v q)"
    and s: "s = (if d then l else r)" and ws': "ws_tree ws' (subst t ds (retop hh s))" and wins: "ha_ok wins"
    and g: "ha_get wins = (\<lambda>x. if x \<in> set (leaves s)
      then map_option (move_up (length ds)) (((ha_get (m_windows m))(h := None)) x)
      else ((ha_get (m_windows m))(h := None)) x)"
  shows "mgr_tree (m\<lparr>m_windows := wins, m_workspaces := [ws']\<rparr>) (subst t ds (retop hh s))"
proof -
  let ?g = "ha_get (m_windows m)"
  have m: "m_current_workspace m = 0" "distinct (leaves t)" "set (leaves t) = dom ?g"
      "\<And>h w. ?g h = Some w \<Longrightarrow> w_workspace w = 0"
      "\<And>h w. ?g h = Some w \<Longrightarrow> \<exists>ds c. sub t ds = Some (HLeaf c h) \<and> leads w ds"
    using t by (simp_all add: mgr_tree_def)
  have hl: "(if d then r else l) = HLeaf c h" using leaf u by (simp add: sub_append)
  have lu: "set (leaves (HNode hh l r v q)) = Set.insert h (set (leaves s))" "h \<notin> set (leaves s)" "distinct (leaves s)"
    using sub_distinct [OF m(2) u] hl by (auto simp: s split: if_splits)
  have sub: "set (leaves (HNode hh l r v q)) \<subseteq> set (leaves t)" by (rule sub_gather [OF u])
  have "distinct (leaves (subst t ds (retop hh s)))
      \<and> set (leaves (subst t ds (retop hh s))) = (set (leaves t) - Set.insert h (set (leaves s))) \<union> set (leaves s)"
    using subst_gather [OF u m(2), of "retop hh s"] lu by auto
  then have lv: "distinct (leaves (subst t ds (retop hh s)))" "set (leaves (subst t ds (retop hh s))) = set (leaves t) - {h}"
    using sub lu by auto
  have dom: "dom (ha_get wins) = set (leaves t) - {h}" using lu sub m(3) by (auto simp: g split: if_splits)
  have "w_workspace y = 0 \<and> (\<exists>es c. sub (subst t ds (retop hh s)) es = Some (HLeaf c x) \<and> leads y es)"
    if y: "ha_get wins x = Some y" for x y
  proof (cases "x \<in> set (leaves s)")
    case True
    then obtain y' where y': "?g x = Some y'" "y = move_up (length ds) y'" using y lu(2) by (auto simp: g split: if_splits)
    obtain es c where "sub t es = Some (HLeaf c x)" "leads y' es" using m(5) [OF y'(1)] by blast
    then show ?thesis using moved_path [OF m(2) u s True] y' m(4) [OF y'(1)] by (auto simp: move_up_def Let_def)
  next
    case False
    then have y': "?g x = Some y" "x \<notin> set (leaves (HNode hh l r v q))"
      using y lu(1) by (auto simp: g simp del: gather.simps split: if_splits)
    obtain es c where "sub t es = Some (HLeaf c x)" "leads y es" using m(5) [OF y'(1)] by blast
    then show ?thesis using unmoved_path [OF u y'(2)] m(4) [OF y'(1)] by blast
  qed
  then show ?thesis using m(1) ws' wins lv dom by (simp add: mgr_tree_def)
qed

lemma destroy_window_ok:
  assumes t: "mgr_tree m t" and h: "ha_get (m_windows m) h = Some w" and many: "2 \<le> length (leaves t)"
  obtains m' t' where "destroy_window h m = Some (Inr w, m')" "mgr_tree m' t'"
    "dom (ha_get (m_windows m')) = dom (ha_get (m_windows m)) - {h}"
proof -
  let ?g = "ha_get (m_windows m)"
  obtain ws where m: "ha_ok (m_windows m)" "m_current_workspace m = 0" "m_workspaces m = [ws]" "ws_tree ws t"
      "distinct (leaves t)" "set (leaves t) = dom ?g"
    using t by (auto simp: mgr_tree_def)
  obtain es c where es: "sub t es = Some (HLeaf c h)" "leads w es" "w_workspace w = 0"
    using t h unfolding mgr_tree_def by metis
  have "es \<noteq> []" using es(1) many by auto
  then obtain ds d where ds: "es = ds @ [d]" by (cases es rule: rev_cases) auto
  have leaf: "sub t (ds @ [d]) = Some (HLeaf c h)" using es(1) ds by simp
  obtain rest where rest: "steps (snd (window_path w)) = ds @ d # rest" using leads_steps [OF es(2)] ds by auto
  obtain hh l r v q ws' where u: "sub t ds = Some (HNode hh l r v q)"
    "remove_leaf (snd (window_path w)) ws = Some (Some (path_of ds), ws')"
    "ws_tree ws' (subst t ds (retop hh (if d then l else r)))"
    by (rule remove_leaf_ok [OF m(4) leaf rest])
  define s where "s = (if d then l else r)"
  have len: "length ds \<le> 32" "unat (depth (path_of ds)) = length ds"
    using es(2) ds by (simp_all add: leads_def path_of_def unat_of_nat_small)
  have ap: "apply_with_prefix (path_into_iter (path_of ds)) ws' = Some (leaves s)"
    using apply_with_prefix_leaves [OF u(3) _ len(1)] sub_subst_same [OF u(1), of "retop hh s" "[]"]
    by (simp add: s_def)
  obtain w1 where r1: "ha_remove h (m_windows m) = Some (Some w, w1)" using hnd.rem_total [OF m(1), of h] h by auto
  have w1: "ha_ok w1" "ha_get w1 = ?g(h := None)" using hnd.rem_ok [OF m(1) r1] hnd.rem_look [OF r1] by auto
  have ls: "distinct (leaves s)" "h \<notin> set (leaves s)" "set (leaves s) \<subseteq> set (leaves t)"
    using sub_distinct [OF m(5) u(1)] sub_gather [OF u(1), of "\<lambda>h. []" "\<lambda>h w. [w]"] leaf u(1)
    by (auto simp: s_def sub_append split: if_splits)
  have dom: "set (leaves s) \<subseteq> dom (ha_get w1)" using ls m(6) w1(2) by auto
  obtain wins where mv: "move_all (length ds) (leaves s) w1 = Some wins" "ha_ok wins"
    "ha_get wins = (\<lambda>x. if x \<in> set (leaves s) then map_option (move_up (length ds)) (ha_get w1 x) else ha_get w1 x)"
    by (rule move_all_spec [OF w1(1) ls(1) dom])
  let ?m = "m\<lparr>m_windows := wins, m_workspaces := [ws']\<rparr>"
  have "destroy_window h m = Some (Inr w, ?m)"
    using r1 u(2) ap mv(1) len(2) m(3) es(3)
    by (simp add: destroy_window_def window_path_def nth_opt_def)
  moreover have "mgr_tree ?m (subst t ds (retop hh s))"
    using mgr_tree_remove [OF t leaf u(1) s_def u(3) [folded s_def] mv(2) mv(3) [unfolded w1(2)]] .
  moreover have "dom (ha_get wins) = dom ?g - {h}" by (auto simp: mv(3) w1(2) split: if_splits)
  ultimately show thesis using that by simp
qed

text \<open>Closing the only window panics, and so does opening a window below a leaf at depth 23.\<close>

theorem destroy_last_window_panics:
  assumes "mgr_tree m (HLeaf c h)"
  shows "destroy_window h m = None"
proof -
  obtain ws where m: "ha_ok (m_windows m)" "m_workspaces m = [ws]" "ws_tree ws (HLeaf c h)"
      "dom (ha_get (m_windows m)) = {h}"
    using assms by (auto simp: mgr_tree_def)
  then obtain w where w: "ha_get (m_windows m) h = Some w" by auto
  then have i: "w_workspace w = 0" using assms by (auto simp: mgr_tree_def)
  obtain ws' where r: "remove_leaf (snd (window_path w)) ws = Some (None, ws')" by (rule remove_leaf_last [OF m(3)])
  obtain wins where "ha_remove h (m_windows m) = Some (Some w, wins)" using hnd.rem_total [OF m(1), of h] w by auto
  then show ?thesis using r i m(2) by (simp add: destroy_window_def window_path_def nth_opt_def)
qed

theorem new_window_too_deep_panics:
  assumes "mgr_tree m t" and "sub t (replicate k True) = Some (HLeaf c w)" and "23 \<le> k"
  shows "new_window part rt sz m = None"
proof -
  obtain ws where m: "m_current_workspace m = 0" "m_workspaces m = [ws]" "ws_tree ws t"
    using assms(1) by (auto simp: mgr_tree_def)
  have k: "k \<le> 23" using sub_height [OF assms(2)] m(3) by (simp add: ws_tree_def)
  then have "steps right_bottom = replicate k True @ replicate (32 - k) True"
    by (simp add: steps_right_bottom flip: replicate_add)
  then have "split_loop part h None rt (Suc (length ([] :: bool list))) right_bottom 0 (hroot t) sz (nodes ws)
      = Some (Inl TooDeep, nodes ws)" for h
    using m(3) assms(2,3) by (intro split_loop_too_deep) (auto simp: ws_tree_def)
  then have "split_leaf part right_bottom h None rt sz ws = Some (Inl TooDeep, ws)" for h
    using ws_tree_nonempty [OF m(3)] m(3) by (simp add: split_leaf_def ws_tree_def)
  then show ?thesis using m(1,2) by (simp add: new_window_def ha_insert_with_def nth_opt_def)
qed

lemma card_leaves: "mgr_tree m t \<Longrightarrow> card (dom (ha_get (m_windows m))) = length (leaves t)"
  unfolding mgr_tree_def using distinct_card [of "leaves t"] by metis

lemma new_window_inv:
  assumes "mgr_inv m" "mgr_room m" "card (dom (ha_get (m_windows m))) < 24"
  shows "\<exists>h m'. new_window part rt sz m = Some (h, m') \<and> mgr_inv m' \<and> ha_get (m_windows m) h = None
         \<and> dom (ha_get (m_windows m')) = Set.insert h (dom (ha_get (m_windows m)))"
proof -
  consider "mgr_empty m" | t where "mgr_tree m t" using assms(1) by (auto simp: mgr_inv_def)
  then show ?thesis
  proof cases
    case 1
    obtain h m' t where "new_window part rt sz m = Some (h, m')" "mgr_tree m' t" "dom (ha_get (m_windows m')) = {h}"
      by (rule new_window_first [OF 1 assms(2)])
    then show ?thesis using 1 by (auto simp: mgr_inv_def mgr_empty_def)
  next
    case 2
    have few: "length (leaves t) < 24" using assms(3) card_leaves [OF 2] by simp
    obtain h m' t' where "new_window part rt sz m = Some (h, m')" "mgr_tree m' t'" "ha_get (m_windows m) h = None"
      "dom (ha_get (m_windows m')) = Set.insert h (dom (ha_get (m_windows m)))"
      by (rule new_window_next [OF 2 assms(2) few])
    then show ?thesis by (auto simp: mgr_inv_def)
  qed
qed

lemma destroy_window_inv:
  assumes "mgr_inv m" "2 \<le> card (dom (ha_get (m_windows m)))" "ha_get (m_windows m) h = Some w"
  shows "\<exists>m'. destroy_window h m = Some (Inr w, m') \<and> mgr_inv m'
         \<and> dom (ha_get (m_windows m')) = dom (ha_get (m_windows m)) - {h}"
proof -
  obtain t where t: "mgr_tree m t" using assms by (auto simp: mgr_inv_def mgr_empty_def)
  have many: "2 \<le> length (leaves t)" using assms(2) card_leaves [OF t] by simp
  obtain m' t' where "destroy_window h m = Some (Inr w, m')" "mgr_tree m' t'"
    "dom (ha_get (m_windows m')) = dom (ha_get (m_windows m)) - {h}"
    by (rule destroy_window_ok [OF t assms(3) many])
  then show ?thesis by (auto simp: mgr_inv_def)
qed

text \<open>A manager with two windows side by side.\<close>

definition full_arena :: "'v list \<Rightarrow> 'v harena" where
  "full_arena vs = \<lparr>storage = map (\<lambda>v. Occupied v ()) vs, free = usize_MAX, generation = (), count = length vs\<rparr>"

definition mgr_two :: "unit Manager" where
  "mgr_two = \<lparr>
     m_windows = full_arena [\<lparr>w_workspace = 0, w_path = 0, w_framebuffer = -1\<rparr>,
       \<lparr>w_workspace = 0, w_path = 1, w_framebuffer = -1\<rparr>],
     m_workspaces = [\<lparr>nodes = full_arena [Parent 1 2 False (), Leaf 0, Leaf 1], root = 0\<rparr>],
     m_current_workspace = 0, m_focused_window = -1\<rparr>"

lemma full_arena_ok:
  assumes "length vs < 2 ^ 32" shows "ha_ok (full_arena vs)"
proof -
  have "free_slots (map (\<lambda>v. Occupied v ()) vs) = {}" by (auto simp: free_slots_def)
  then show ?thesis using assms
    by (auto simp: full_arena_def ha_ok_def arena_inv_def isize_MAX_def comp_def intro: exI [of _ "[]"])
qed

lemma full_arena_get: "ha_get (full_arena vs) h = (if unat h < length vs then Some (vs ! unat h) else None)"
  by (simp add: full_arena_def ha_get_def get_def convert_to_handle_def from_raw_def nth_opt_def)

lemma u32_below_2: "unat (h :: u32) < Suc (Suc 0) \<longleftrightarrow> h = 0 \<or> h = 1"
proof -
  have "unat h < Suc (Suc 0) \<longleftrightarrow> unat h = unat (0 :: u32) \<or> unat h = unat (1 :: u32)" by auto
  then show ?thesis by (simp add: word_unat_eq_iff)
qed

lemma u32_below_3: "unat (h :: u32) < Suc (Suc (Suc 0)) \<longleftrightarrow> h = 0 \<or> h = 1 \<or> h = 2"
proof -
  have "unat h < Suc (Suc (Suc 0)) \<longleftrightarrow> unat h = unat (0 :: u32) \<or> unat h = unat (1 :: u32) \<or> unat h = unat (2 :: u32)" by auto
  then show ?thesis by (simp only: word_unat_eq_iff)
qed

lemma mgr_two_tree: "mgr_tree mgr_two (HNode 0 (HLeaf 1 0) (HLeaf 2 1) False ())"
proof -
  have "ws_tree (hd (m_workspaces mgr_two)) (HNode 0 (HLeaf 1 0) (HLeaf 2 1) False ())"
    by (auto simp: mgr_two_def ws_tree_def full_arena_ok full_arena_get dom_def u32_below_3)
  moreover have d: "dom (ha_get (m_windows mgr_two)) = {0, 1}"
    by (auto simp: mgr_two_def full_arena_get dom_def u32_below_2)
  moreover have "w_workspace w = 0 \<and> (\<exists>ds c. sub (HNode 0 (HLeaf 1 0) (HLeaf 2 1) False ()) ds = Some (HLeaf c h) \<and> leads w ds)"
    if w: "ha_get (m_windows mgr_two) h = Some w" for h w
  proof -
    have "h = 0 \<or> h = 1" using w d by auto
    then show ?thesis
    proof
      assume "h = 0"
      then show ?thesis using w
        by (auto simp: mgr_two_def full_arena_get leads_def intro!: exI [of _ "[False]"])
    next
      assume "h = 1"
      then show ?thesis using w
        by (auto simp: mgr_two_def full_arena_get leads_def intro!: exI [of _ "[True]"])
    qed
  qed
  ultimately show ?thesis
    by (auto simp: mgr_tree_def) (auto simp: mgr_two_def full_arena_ok)
qed

lemma mgr_two_windows: "dom (ha_get (m_windows mgr_two)) = {0, 1}"
  using mgr_two_tree by (simp add: mgr_tree_def)

text \<open>
  C34. Every window keeps a path that leads to its leaf: with fewer than 24 windows a new one is always
  opened under a fresh handle; closing one of several windows forgets exactly that window and fixes the
  paths of the others; closing an unknown handle is an error that changes nothing.
\<close>

theorem windows_keep_their_paths:
  assumes "mgr_inv m"
  shows "(mgr_room m \<and> card (dom (ha_get (m_windows m))) < 24 \<longrightarrow>
      (\<exists>h m'. new_window part rt sz m = Some (h, m') \<and> mgr_inv m' \<and> ha_get (m_windows m) h = None
         \<and> dom (ha_get (m_windows m')) = Set.insert h (dom (ha_get (m_windows m)))))
    \<and> (2 \<le> card (dom (ha_get (m_windows m))) \<and> ha_get (m_windows m) h = Some w \<longrightarrow>
      (\<exists>m'. destroy_window h m = Some (Inr w, m') \<and> mgr_inv m'
         \<and> dom (ha_get (m_windows m')) = dom (ha_get (m_windows m)) - {h}))
    \<and> (ha_get (m_windows m) h = None \<longrightarrow> destroy_window h m = Some (Inl (), m))"
  using new_window_inv [OF assms] destroy_window_inv [OF assms]
  by (simp add: destroy_window_def ha_remove_def ha_get_def remove_None)

theorem windows_keep_their_paths_witness:
  "(\<exists>h m'. new_window (\<lambda>_ v. (v, v)) () (8, 8) mgr_two = Some (h, m') \<and> mgr_inv m'
      \<and> dom (ha_get (m_windows m')) = {h, 0, 1})
   \<and> (\<exists>w m'. destroy_window 0 mgr_two = Some (Inr w, m') \<and> mgr_inv m' \<and> dom (ha_get (m_windows m')) = {1})
   \<and> destroy_window 7 mgr_two = Some (Inl (), mgr_two)"
proof -
  have inv: "mgr_inv mgr_two" using mgr_two_tree by (auto simp: mgr_inv_def)
  have room: "mgr_room mgr_two" by (simp add: mgr_room_def mgr_two_def ha_room_def full_arena_def)
  obtain w where w: "ha_get (m_windows mgr_two) 0 = Some w" using mgr_two_windows by blast
  have "7 \<notin> dom (ha_get (m_windows mgr_two))" unfolding mgr_two_windows by simp
  then have n: "ha_get (m_windows mgr_two) 7 = None" by (simp add: domIff)
  show ?thesis
    using windows_keep_their_paths [OF inv, of "\<lambda>_ v. (v, v)" "()" "(8, 8)" 0 w]
      windows_keep_their_paths [OF inv, of "\<lambda>_ v. (v, v)" "()" "(8, 8)" 7 w]
      room w n mgr_two_windows by auto
qed

text \<open>
  C35. What is drawn is what is clicked: with rectangles that behave as documented, the window found at
  a position is shown in exactly the rectangle that is reported with it, and that rectangle contains the
  position whenever the screen does. Without windows nothing is found.
\<close>

theorem pointer_hits_window:
  assumes "mgr_inv m" and "geometry_ok g px py"
  shows "(dom (ha_get (m_windows m)) = {} \<longrightarrow> manager_window_at g pos sz m = Some None)
    \<and> (dom (ha_get (m_windows m)) \<noteq> {} \<longrightarrow>
      (\<exists>h r. manager_window_at g pos sz m = Some (Some (h, r)) \<and> window_rect g h sz m = Some (Some r)
         \<and> (g_contains g (g_from_size g sz) pos \<longrightarrow> g_contains g r pos)))"
proof (cases "mgr_empty m")
  case True
  then show ?thesis
    by (auto simp: mgr_empty_def ws_empty_def manager_window_at_def window_at_def recurse_def nth_opt_def)
next
  case False
  then obtain t where t: "mgr_tree m t" using assms(1) by (auto simp: mgr_inv_def)
  then obtain ws where m: "m_current_workspace m = 0" "m_workspaces m = [ws]" "ws_tree ws t"
      "set (leaves t) = dom (ha_get (m_windows m))" "distinct (leaves t)"
    by (auto simp: mgr_tree_def)
  obtain ds c h where w: "sub t ds = Some (HLeaf c h)"
    "window_at g pos sz ws = Some (Some (h, rect_of g t (g_from_size g sz) ds))"
    "g_contains g (g_from_size g sz) pos \<longrightarrow> g_contains g (rect_of g t (g_from_size g sz) ds) pos"
    by (rule window_at_rect [OF m(3) assms(2), where pos = pos and sz = sz])
  have "h \<in> dom (ha_get (m_windows m))" using leaf_at_leaves [OF w(1)] m(4) by simp
  then obtain y where y: "ha_get (m_windows m) h = Some y" by auto
  then obtain es c' where e: "w_workspace y = 0" "sub t es = Some (HLeaf c' h)" "leads y es"
    using t unfolding mgr_tree_def by metis
  have "es = ds" using leaf_path_unique [OF m(5) e(2) w(1)] .
  then obtain rest where "steps (snd (window_path y)) = ds @ rest" using leads_steps [OF e(3)] by auto
  then have "window_rect g h sz m = Some (Some (rect_of g t (g_from_size g sz) ds))"
    using calculate_rect_path [OF m(3) w(1)] y e(1) m(1,2) by (simp add: window_rect_def window_path_def nth_opt_def)
  then show ?thesis using w(2,3) m(1,2) y by (auto simp: manager_window_at_def nth_opt_def)
qed

text \<open>Rectangles as pairs of ranges, divided in the middle.\<close>

definition pair_geometry :: "(unit, u32 \<times> u32, (u32 \<times> u32) \<times> (u32 \<times> u32)) geometry" where
  "pair_geometry = \<lparr>g_partition_range = (\<lambda>_ (a, b). (a + b) div 2), g_from_size = (\<lambda>(x, y). ((0, x - 1), (0, y - 1))),
     g_from_ranges = Pair, g_x = fst, g_y = snd, g_low = (\<lambda>(x, y). (fst x, fst y)),
     g_high = (\<lambda>(x, y). (snd x, snd y)),
     g_contains = (\<lambda>(x, y) (a, b). fst x \<le> a \<and> a \<le> snd x \<and> fst y \<le> b \<and> b \<le> snd y)\<rparr>"

theorem pointer_hits_window_witness:
  "\<exists>h r. manager_window_at pair_geometry (5, 2) (8, 8) mgr_two = Some (Some (h, r))
     \<and> window_rect pair_geometry h (8, 8) mgr_two = Some (Some r) \<and> g_contains pair_geometry r (5, 2)"
proof -
  have inv: "mgr_inv mgr_two" using mgr_two_tree by (auto simp: mgr_inv_def)
  have geo: "geometry_ok pair_geometry fst snd" by (simp add: geometry_ok_def pair_geometry_def split_beta)
  have "g_contains pair_geometry (g_from_size pair_geometry (8, 8)) (5, 2)"
    by (simp add: pair_geometry_def)
  then show ?thesis
    using pointer_hits_window [OF inv geo, of "(5, 2)" "(8, 8)"] mgr_two_windows by auto
qed

end
