(* ===== verification/Stream_Buffers.thy ===== *)
theory Stream_Buffers
  imports Linked_Stack "HOL-Library.Multiset"
begin

text \<open>
  The block allocator of the stream tables, \<open>lib/rust/ipc/stream_table/src/stack.rs\<close> and
  \<open>buffer.rs\<close>. A region of shared memory is divided into blocks of equal size. The free blocks form a
  stack linked through their first four bytes. Data that does not fit one block is spread over several
  blocks that are listed in scatter-gather blocks; the last entry of a full list block leads to the next
  one. Addresses are relative to the base of the region; \<open>to\<close> in the code, a quarter of the block size,
  is the number of entries of a list block. The atomic operations on the head of the stack are modelled
  without interference, so that a compare-exchange succeeds at once.
\<close>

section \<open>Memory\<close>

type_synonym buf_mem = "nat \<Rightarrow> u8"

definition to_le_bytes :: "u32 \<Rightarrow> u8 list" where
  "to_le_bytes v = [ucast v, ucast (drop_bit 8 v), ucast (drop_bit 16 v), ucast (drop_bit 24 v)]"

fun from_le_bytes :: "u8 list \<Rightarrow> u32" where
  "from_le_bytes [] = 0"
| "from_le_bytes (b # bs) = ucast b OR push_bit 8 (from_le_bytes bs)"

definition put :: "nat \<Rightarrow> u8 list \<Rightarrow> buf_mem \<Rightarrow> buf_mem" where
  "put a bs m = (\<lambda>x. if a \<le> x \<and> x < a + length bs then bs ! (x - a) else m x)"

definition slice :: "nat \<Rightarrow> nat \<Rightarrow> buf_mem \<Rightarrow> u8 list" where
  "slice a n m = map m [a..<a + n]"

section \<open>The stack of free blocks\<close>

type_synonym buf_state = "u32 \<times> buf_mem"

definition stack_push :: "u32 \<Rightarrow> nat \<Rightarrow> buf_state \<Rightarrow> buf_state" where
  "stack_push offset block_size = (\<lambda>(head, m). (offset, put (unat offset * block_size) (to_le_bytes head) m))"

definition stack_pop :: "nat \<Rightarrow> buf_state \<Rightarrow> (u32 \<times> buf_state) option" where
  "stack_pop block_size = (\<lambda>(head, m).
     if head = -1 then None
     else Some (head, (from_le_bytes (slice (unat head * block_size) 4 m), m)))"

section \<open>Buffers\<close>

record Buffer =
  buf_base :: nat
  buf_size :: nat

definition buf_copy_from :: "Buffer \<Rightarrow> nat \<Rightarrow> u8 list \<Rightarrow> buf_mem \<Rightarrow> buf_mem panics" where
  "buf_copy_from b offset src m =
     do { assert (offset + length src \<le> buf_size b); Some (put (buf_base b + offset) src m) }"

definition buf_copy_to :: "Buffer \<Rightarrow> nat \<Rightarrow> nat \<Rightarrow> buf_mem \<Rightarrow> u8 list panics" where
  "buf_copy_to b offset n m =
     do { assert (offset + n \<le> buf_size b); Some (slice (buf_base b + offset) n m) }"

record Buffers =
  total_size :: nat
  block_size :: nat

record Data =
  d_offset :: u32
  d_len :: nat

record Slice =
  sl_offset :: u32
  sl_length :: u32

definition from_offset :: "u32 \<Rightarrow> nat \<Rightarrow> Buffer" where
  "from_offset offset sz = \<lparr>buf_base = unat offset * sz, buf_size = sz\<rparr>"

definition get_buf :: "Buffers \<Rightarrow> u32 \<Rightarrow> Buffer" where
  "get_buf B offset = from_offset offset (block_size B)"

definition get_data :: "Buffers \<Rightarrow> Slice \<Rightarrow> Data panics" where
  "get_data B s =
     do { assert (unat (sl_offset s) * block_size B < total_size B);
          Some \<lparr>d_offset = sl_offset s, d_len = unat (sl_length s)\<rparr> }"

definition alloc_empty :: Data where
  "alloc_empty = \<lparr>d_offset = 0, d_len = 0\<rparr>"

text \<open>
  The loop of \<open>alloc\<close>: \<open>b\<close> is the list block, \<open>i\<close> the entry, \<open>base\<close> the block popped last and \<open>l\<close>
  the number of bytes still without a block. The answer says whether all blocks were found.
\<close>

partial_function (option) alloc_loop ::
  "Buffers \<Rightarrow> u32 \<Rightarrow> nat \<Rightarrow> u32 \<Rightarrow> nat \<Rightarrow> buf_state \<Rightarrow> (bool \<times> buf_state) panics" where
  "alloc_loop B b i base l st =
     (if i < block_size B div 4 then
        if l = 0 then Some (True, st)
        else case stack_pop (block_size B) st of
          None \<Rightarrow> Some (False, st)
        | Some (base, (head, m)) \<Rightarrow>
            do { m \<leftarrow> buf_copy_from (get_buf B b) (i * 4) (to_le_bytes base) m;
                 alloc_loop B b (i + 1) base (l - block_size B) (head, m) }
      else if l = 0 then Some (True, st)
      else alloc_loop B base 0 base ((l + block_size B) mod 2 ^ 64) st)"

definition alloc :: "Buffers \<Rightarrow> nat \<Rightarrow> buf_state \<Rightarrow> (Data option \<times> buf_state) panics" where
  "alloc B sz st =
     (if sz = 0 then Some (Some alloc_empty, st)
      else case stack_pop (block_size B) st of
        None \<Rightarrow> Some (None, st)
      | Some (offset, st) \<Rightarrow>
          if sz \<le> block_size B then do { assert (sz < 2 ^ 32); Some (Some \<lparr>d_offset = offset, d_len = sz\<rparr>, st) }
          else do { (found, st) \<leftarrow> alloc_loop B offset 0 offset sz st;
                    if found then do { assert (sz < 2 ^ 32); Some (Some \<lparr>d_offset = offset, d_len = sz\<rparr>, st) }
                    else Some (None, st) })"

definition dealloc :: "Buffers \<Rightarrow> u32 \<Rightarrow> buf_state \<Rightarrow> buf_state panics" where
  "dealloc B buf st =
     do { assert (unat buf * block_size B < total_size B); Some (stack_push buf (block_size B) st) }"

section \<open>Data\<close>

definition read_entry :: "Buffer \<Rightarrow> nat \<Rightarrow> buf_mem \<Rightarrow> u32 panics" where
  "read_entry b i m = map_option from_le_bytes (buf_copy_to b (i * 4) 4 m)"

text \<open>The loop of \<open>manual_drop\<close>: \<open>bo\<close> is the list block and \<open>oo\<close> the entry read last.\<close>

partial_function (option) drop_loop :: "Buffers \<Rightarrow> u32 \<Rightarrow> u32 \<Rightarrow> nat \<Rightarrow> nat \<Rightarrow> buf_state \<Rightarrow> buf_state panics" where
  "drop_loop B bo oo i l st =
     (if i < block_size B div 4 then
        if l \<le> block_size B then
          do { st \<leftarrow> (if 0 < i then do { e \<leftarrow> read_entry (get_buf B bo) i (snd st); dealloc B e st } else Some st);
               dealloc B bo st }
        else
          do { e \<leftarrow> read_entry (get_buf B bo) i (snd st);
               st \<leftarrow> (if i + 1 \<noteq> block_size B div 4 then dealloc B e st else Some st);
               drop_loop B bo e (i + 1) (l - block_size B) st }
      else do { st \<leftarrow> dealloc B bo st; drop_loop B oo oo 0 (l + block_size B) st })"

definition manual_drop :: "Buffers \<Rightarrow> Data \<Rightarrow> buf_state \<Rightarrow> buf_state panics" where
  "manual_drop B d st =
     (if d_len d = 0 then Some st else drop_loop B (d_offset d) (d_offset d) 0 (d_len d) st)"

record DataIter =
  it_offset :: u32
  it_count :: nat
  it_cur_buf :: Buffer
  it_cur_i :: nat
  it_last_size :: nat

text \<open>\<open>len.wrapping_sub(1) & (block_size - 1)\<close> keeps its width.\<close>

definition blocks :: "Buffers \<Rightarrow> Data \<Rightarrow> DataIter" where
  "blocks B d =
     \<lparr>it_offset = d_offset d, it_count = (d_len d + block_size B - 1) div block_size B,
      it_cur_buf = get_buf B (d_offset d), it_cur_i = 0,
      it_last_size = unat ((of_nat (d_len d) - 1 :: u32) AND (of_nat (block_size B) - 1)) + 1\<rparr>"

partial_function (option) data_next ::
  "Buffers \<Rightarrow> buf_mem \<Rightarrow> DataIter \<Rightarrow> ((u32 \<times> Buffer) \<times> DataIter) option panics" where
  "data_next B m it =
     (if it_count it = 0 then Some None
      else if it_count it = 1 then
        do { it \<leftarrow> (if 0 < it_cur_i it then
                     do { n \<leftarrow> read_entry (it_cur_buf it) (it_cur_i it) m;
                          Some (it\<lparr>it_offset := n, it_cur_buf := get_buf B n\<rparr>) }
                   else Some it);
             let it = it\<lparr>it_cur_buf := (it_cur_buf it)\<lparr>buf_size := it_last_size it\<rparr>, it_count := it_count it - 1\<rparr>;
             Some (Some ((it_offset it, it_cur_buf it), it)) }
      else
        do { n \<leftarrow> read_entry (it_cur_buf it) (it_cur_i it) m;
             let it = it\<lparr>it_offset := n\<rparr>;
             if it_cur_i it + 1 = block_size B div 4
             then data_next B m (it\<lparr>it_cur_buf := get_buf B n, it_cur_i := 0\<rparr>)
             else Some (Some ((n, get_buf B n), it\<lparr>it_cur_i := it_cur_i it + 1, it_count := it_count it - 1\<rparr>)) })"

fun data_skip :: "Buffers \<Rightarrow> buf_mem \<Rightarrow> nat \<Rightarrow> DataIter \<Rightarrow> DataIter panics" where
  "data_skip B m 0 it = Some it"
| "data_skip B m (Suc n) it =
     do { r \<leftarrow> data_next B m it;
          case r of None \<Rightarrow> Some it | Some (_, it) \<Rightarrow> data_skip B m n it }"

partial_function (option) copy_from_loop :: "Buffers \<Rightarrow> DataIter \<Rightarrow> nat \<Rightarrow> u8 list \<Rightarrow> buf_mem \<Rightarrow> buf_mem panics" where
  "copy_from_loop B it offset src m =
     do { r \<leftarrow> data_next B m it;
          case r of
            None \<Rightarrow> Some m
          | Some ((_, b), it) \<Rightarrow>
              if src = [] then Some m
              else let c = min (length src) (block_size B - offset) in
                do { m \<leftarrow> buf_copy_from b offset (take c src) m;
                     copy_from_loop B it 0 (drop c src) m } }"

definition data_copy_from :: "Buffers \<Rightarrow> Data \<Rightarrow> nat \<Rightarrow> u8 list \<Rightarrow> buf_mem \<Rightarrow> buf_mem panics" where
  "data_copy_from B d offset src m =
     do { assert (offset + length src \<le> d_len d);
          it \<leftarrow> data_skip B m (offset div block_size B) (blocks B d);
          copy_from_loop B it (offset mod block_size B) src m }"

partial_function (option) copy_to_loop :: "Buffers \<Rightarrow> buf_mem \<Rightarrow> DataIter \<Rightarrow> nat \<Rightarrow> nat \<Rightarrow> u8 list panics" where
  "copy_to_loop B m it offset n =
     do { r \<leftarrow> data_next B m it;
          case r of
            None \<Rightarrow> Some []
          | Some ((_, b), it) \<Rightarrow>
              let c = min n (block_size B - offset) in
                do { bs \<leftarrow> buf_copy_to b offset c m;
                     if n - c = 0 then Some bs
                     else do { rest \<leftarrow> copy_to_loop B m it 0 (n - c); Some (bs @ rest) } } }"

definition data_copy_to :: "Buffers \<Rightarrow> Data \<Rightarrow> nat \<Rightarrow> nat \<Rightarrow> buf_mem \<Rightarrow> u8 list panics" where
  "data_copy_to B d offset n m =
     do { assert (offset + n \<le> d_len d);
          it \<leftarrow> data_skip B m (offset div block_size B) (blocks B d);
          copy_to_loop B m it (offset mod block_size B) n }"

section \<open>Words in memory\<close>

lemma from_to_le_bytes [simp]: "from_le_bytes (to_le_bytes v) = v"
proof (rule bit_word_eqI)
  fix n assume "n < LENGTH(32)"
  then consider "n < 8" | "8 \<le> n" "n < 16" | "16 \<le> n" "n < 24" | "24 \<le> n" "n < 32" by fastforce
  then show "bit (from_le_bytes (to_le_bytes v)) n = bit v n"
    by cases (auto simp: to_le_bytes_def bit_simps)
qed

lemma length_to_le_bytes [simp]: "length (to_le_bytes v) = 4"
  by (simp add: to_le_bytes_def)

lemma slice_put_same: "slice a (length bs) (put a bs m) = bs"
  by (rule nth_equalityI) (simp_all add: slice_def put_def)

lemma slice_cong: "(\<And>x. a \<le> x \<Longrightarrow> x < a + n \<Longrightarrow> m x = m' x) \<Longrightarrow> slice a n m = slice a n m'"
  by (simp add: slice_def)

lemma slice_put_other: "x + n \<le> a \<or> a + length bs \<le> x \<Longrightarrow> slice x n (put a bs m) = slice x n m"
  by (rule slice_cong) (auto simp: put_def)

text \<open>The entry \<open>i\<close> of a list block; entry 0 is also where a free block keeps its link.\<close>

definition entry :: "nat \<Rightarrow> buf_mem \<Rightarrow> u32 \<Rightarrow> nat \<Rightarrow> u32" where
  "entry bs m b i = from_le_bytes (slice (unat b * bs + i * 4) 4 m)"

definition set_entry :: "nat \<Rightarrow> u32 \<Rightarrow> nat \<Rightarrow> u32 \<Rightarrow> buf_mem \<Rightarrow> buf_mem" where
  "set_entry bs b i v m = put (unat b * bs + i * 4) (to_le_bytes v) m"

text \<open>Two memories agree on a block.\<close>

definition same :: "nat \<Rightarrow> u32 \<Rightarrow> buf_mem \<Rightarrow> buf_mem \<Rightarrow> bool" where
  "same bs b m m' \<longleftrightarrow> (\<forall>j < bs. m' (unat b * bs + j) = m (unat b * bs + j))"

lemma same_refl [simp]: "same bs b m m" by (simp add: same_def)

lemma same_trans: "same bs b m m' \<Longrightarrow> same bs b m' m'' \<Longrightarrow> same bs b m m''" by (simp add: same_def)

lemma block_disjoint:
  assumes "x \<noteq> (b :: u32)" "j < bs" "k < bs" shows "unat x * bs + j \<noteq> unat b * bs + k"
proof
  assume "unat x * bs + j = unat b * bs + k"
  then have "(unat x * bs + j) div bs = (unat b * bs + k) div bs" by simp
  then have "unat x = unat b" using assms by simp
  then show False using assms(1) by (simp add: word_unat_eq_iff)
qed

lemma same_put:
  assumes "x \<noteq> b" "off + length v \<le> bs" shows "same bs x m (put (unat b * bs + off) v m)"
  unfolding same_def put_def
proof (intro allI impI)
  fix j assume "j < bs"
  have "\<not> (unat b * bs + off \<le> unat x * bs + j \<and> unat x * bs + j < unat b * bs + off + length v)"
  proof
    assume a: "unat b * bs + off \<le> unat x * bs + j \<and> unat x * bs + j < unat b * bs + off + length v"
    let ?k = "unat x * bs + j - unat b * bs"
    have "unat x * bs + j = unat b * bs + ?k" "?k < bs" using assms(2) a by linarith+
    then show False using block_disjoint [OF assms(1) \<open>j < bs\<close>] by blast
  qed
  then show "(if unat b * bs + off \<le> unat x * bs + j \<and> unat x * bs + j < unat b * bs + off + length v
      then v ! (unat x * bs + j - (unat b * bs + off)) else m (unat x * bs + j)) = m (unat x * bs + j)"
    by auto
qed

lemma entry_same: "same bs b m m' \<Longrightarrow> i < bs div 4 \<Longrightarrow> entry bs m' b i = entry bs m b i"
proof -
  assume s: "same bs b m m'" and i: "i < bs div 4"
  then have "i * 4 + 4 \<le> bs" by linarith
  have "slice (unat b * bs + i * 4) 4 m' = slice (unat b * bs + i * 4) 4 m"
  proof (rule slice_cong)
    fix x assume x: "unat b * bs + i * 4 \<le> x" "x < unat b * bs + i * 4 + 4"
    then obtain j where j: "x = unat b * bs + j" by (metis add.assoc le_add_diff_inverse)
    then have "j < bs" using x(2) \<open>i * 4 + 4 \<le> bs\<close> by linarith
    then show "m' x = m x" using s j by (simp add: same_def)
  qed
  then show ?thesis by (simp add: entry_def)
qed

lemma entry_set_same [simp]: "entry bs (set_entry bs b i v m) b i = v"
  using slice_put_same [of "unat b * bs + i * 4" "to_le_bytes v" m] by (simp add: entry_def set_entry_def)

lemma entry_set_other: "i \<noteq> j \<Longrightarrow> entry bs (set_entry bs b j v m) b i = entry bs m b i"
  unfolding entry_def set_entry_def by (subst slice_put_other) (auto simp: neq_iff)

lemma same_set_entry: "x \<noteq> b \<Longrightarrow> i < bs div 4 \<Longrightarrow> same bs x m (set_entry bs b i v m)"
proof -
  assume "x \<noteq> b" "i < bs div 4"
  moreover from this have "i * 4 + length (to_le_bytes v) \<le> bs" by simp
  ultimately show ?thesis unfolding set_entry_def by (intro same_put)
qed

section \<open>The free list\<close>

interpretation block_links: link_store "\<lambda>m b. entry (4 + n) m b 0" "\<lambda>m b v. set_entry (4 + n) b 0 v m"
proof unfold_locales
  fix m b v
  show "(\<lambda>x. entry (4 + n) (set_entry (4 + n) b 0 v m) x 0) = (\<lambda>x. entry (4 + n) m x 0)(b := v)"
  proof
    fix x
    show "entry (4 + n) (set_entry (4 + n) b 0 v m) x 0 = ((\<lambda>x. entry (4 + n) m x 0)(b := v)) x"
      using entry_same [OF same_set_entry [of x b 0 "4 + n" m v]] by auto
  qed
qed

text \<open>The free blocks, from the head of the stack to the sentinel.\<close>

definition free_list :: "Buffers \<Rightarrow> buf_state \<Rightarrow> u32 list \<Rightarrow> bool" where
  "free_list B st xs \<longleftrightarrow> links (\<lambda>b. entry (block_size B) (snd st) b 0) (fst st) (xs @ [-1]) \<and> distinct xs
     \<and> (\<forall>x \<in> set xs. x \<noteq> -1 \<and> unat x * block_size B < total_size B)"

definition buffers_ok :: "Buffers \<Rightarrow> bool" where
  "buffers_ok B \<longleftrightarrow> (\<exists>k. 3 \<le> k \<and> k < 32 \<and> block_size B = 2 ^ k)"

lemma buffers_ok_size: "buffers_ok B \<Longrightarrow> 8 \<le> block_size B \<and> 2 \<le> block_size B div 4 \<and> block_size B < 2 ^ 32"
proof -
  assume "buffers_ok B"
  then obtain k where k: "3 \<le> k" "k < 32" "block_size B = 2 ^ k" by (auto simp: buffers_ok_def)
  have "(2 :: nat) ^ 3 \<le> 2 ^ k" by (rule power_increasing) (use k in simp_all)
  moreover have "(2 :: nat) ^ k < 2 ^ 32" using k by (intro power_strict_increasing) simp_all
  ultimately show ?thesis using k by simp
qed

lemma free_list_Nil: "free_list B st [] \<Longrightarrow> stack_pop (block_size B) st = None"
  by (cases st) (simp add: free_list_def stack_pop_def)

lemma free_list_Cons:
  assumes "free_list B (h, m) (x # xs)"
  obtains h' where "stack_pop (block_size B) (h, m) = Some (x, (h', m))" "free_list B (h', m) xs"
proof -
  have "h = x" "x \<noteq> -1" using assms by (auto simp: free_list_def)
  then have "stack_pop (block_size B) (h, m) = Some (x, (entry (block_size B) m x 0, m))"
    by (simp add: stack_pop_def entry_def)
  moreover have "free_list B (entry (block_size B) m x 0, m) xs" using assms by (auto simp: free_list_def)
  ultimately show thesis using that by blast
qed

lemma free_list_push:
  assumes "free_list B (h, m) xs" "buffers_ok B" "x \<notin> set xs" "x \<noteq> -1" "unat x * block_size B < total_size B"
  shows "dealloc B x (h, m) = Some (x, set_entry (block_size B) x 0 h m)"
    and "free_list B (x, set_entry (block_size B) x 0 h m) (x # xs)"
proof -
  show "dealloc B x (h, m) = Some (x, set_entry (block_size B) x 0 h m)"
    using assms(5) by (simp add: dealloc_def stack_push_def set_entry_def)
  obtain n where n: "block_size B = 4 + n" using buffers_ok_size [OF assms(2)] le_Suc_ex [of 4 "block_size B"] by auto
  have "links (\<lambda>b. entry (4 + n) (set_entry (4 + n) x 0 h m) b 0) x (x # xs @ [-1])"
    by (rule block_links.links_push) (use assms(1,3,4) n in \<open>auto simp: free_list_def\<close>)
  then show "free_list B (x, set_entry (block_size B) x 0 h m) (x # xs)"
    using assms(1,3-5) n by (simp add: free_list_def)
qed

lemma free_list_same:
  assumes "buffers_ok B" "free_list B (h, m) xs" "\<And>x. x \<in> set xs \<Longrightarrow> same (block_size B) x m m'"
  shows "free_list B (h, m') xs"
proof -
  have "entry (block_size B) m' x 0 = entry (block_size B) m x 0" if "x \<in> set xs" for x
    using entry_same [OF assms(3) [OF that], of 0] buffers_ok_size [OF assms(1)] by simp
  then have "links (\<lambda>b. entry (block_size B) m' b 0) h xs = links (\<lambda>b. entry (block_size B) m b 0) h xs"
    "xs \<noteq> [] \<Longrightarrow> entry (block_size B) m' (last xs) 0 = entry (block_size B) m (last xs) 0"
    using links_cong [of xs "\<lambda>b. entry (block_size B) m' b 0" "\<lambda>b. entry (block_size B) m b 0" h] by auto
  then show ?thesis using assms(2) by (cases "xs = []") (auto simp: free_list_def links_append)
qed

section \<open>Scattered data\<close>

text \<open>
  The data blocks and the further list blocks of the \<open>r\<close> data blocks whose entries start at entry \<open>i\<close>
  of the list block \<open>b\<close>, and their number.
\<close>

function scat :: "nat \<Rightarrow> buf_mem \<Rightarrow> u32 \<Rightarrow> nat \<Rightarrow> nat \<Rightarrow> u32 list \<times> u32 list" where
  "scat bs m b i r =
     (if r = 0 then ([], [])
      else if i + 1 = bs div 4 \<and> 2 \<le> r \<and> 0 < i then
        let (ds, ls) = scat bs m (entry bs m b i) 0 r in (ds, entry bs m b i # ls)
      else let (ds, ls) = scat bs m b (i + 1) (r - 1) in (entry bs m b i # ds, ls))"
  by pat_completeness auto
termination
  by (relation "inv_image (less_than <*lex*> less_than) (\<lambda>(bs, m, b, i, r). (r, i))") auto

declare scat.simps [simp del]

function need :: "nat \<Rightarrow> nat \<Rightarrow> nat \<Rightarrow> nat" where
  "need to i r =
     (if r = 0 then 0
      else if i + 1 = to \<and> 2 \<le> r \<and> 0 < i then Suc (need to 0 r)
      else Suc (need to (i + 1) (r - 1)))"
  by pat_completeness auto
termination
  by (relation "inv_image (less_than <*lex*> less_than) (\<lambda>(to, i, r). (r, i))") auto

declare need.simps [simp del]

lemma scat_simps:
  "scat bs m b i 0 = ([], [])"
  "i + 1 = bs div 4 \<Longrightarrow> 0 < i \<Longrightarrow> 2 \<le> r \<Longrightarrow> scat bs m b i r
     = (fst (scat bs m (entry bs m b i) 0 r), entry bs m b i # snd (scat bs m (entry bs m b i) 0 r))"
  "0 < r \<Longrightarrow> i + 1 \<noteq> bs div 4 \<or> r = 1 \<Longrightarrow> scat bs m b i r
     = (entry bs m b i # fst (scat bs m b (i + 1) (r - 1)), snd (scat bs m b (i + 1) (r - 1)))"
  by (subst scat.simps, auto simp: split_beta Let_def)+

lemma need_simps:
  "need to i 0 = 0"
  "i + 1 = to \<Longrightarrow> 0 < i \<Longrightarrow> 2 \<le> r \<Longrightarrow> need to i r = Suc (need to 0 r)"
  "0 < r \<Longrightarrow> i + 1 \<noteq> to \<or> r = 1 \<Longrightarrow> need to i r = Suc (need to (i + 1) (r - 1))"
  by (subst need.simps, auto)+

lemma length_scat: "2 \<le> bs div 4 \<Longrightarrow> length (fst (scat bs m b i r)) = r"
proof (induction bs m b i r rule: scat.induct)
  case (1 bs m b i r)
  consider "r = 0" | "i + 1 = bs div 4" "0 < i" "2 \<le> r" | "0 < r" "i + 1 \<noteq> bs div 4 \<or> r = 1"
    using "1.prems" by fastforce
  then show ?case using 1 by cases (auto simp: scat_simps)
qed

text \<open>Only the list blocks matter.\<close>

lemma scat_same:
  "2 \<le> bs div 4 \<Longrightarrow> i < bs div 4 \<or> r = 0 \<Longrightarrow> same bs b m m' \<Longrightarrow>
   (\<And>x. x \<in> set (snd (scat bs m b i r)) \<Longrightarrow> same bs x m m') \<Longrightarrow> scat bs m' b i r = scat bs m b i r"
proof (induction bs m b i r rule: scat.induct)
  case (1 bs m b i r)
  consider "r = 0" | "i + 1 = bs div 4" "0 < i" "2 \<le> r" | "0 < r" "i + 1 \<noteq> bs div 4 \<or> r = 1"
    using "1.prems" by fastforce
  then show ?case
  proof cases
    case 2
    have e: "entry bs m' b i = entry bs m b i" using entry_same [OF "1.prems"(3)] 2 by simp
    have "scat bs m' (entry bs m b i) 0 r = scat bs m (entry bs m b i) 0 r"
      by (rule "1.IH"(1)) (use 2 "1.prems" in \<open>auto simp: scat_simps\<close>)
    then show ?thesis using 2 e by (simp add: scat_simps)
  next
    case 3
    then have i: "i < bs div 4" using "1.prems"(2) by auto
    have e: "entry bs m' b i = entry bs m b i" using entry_same [OF "1.prems"(3) i] .
    have "scat bs m' b (i + 1) (r - 1) = scat bs m b (i + 1) (r - 1)"
      by (rule "1.IH"(2)) (use 3 i "1.prems" in \<open>auto simp: scat_simps\<close>)
    then show ?thesis using 3 e by (simp add: scat_simps)
  qed (simp add: scat_simps)
qed

section \<open>Allocation\<close>

definition ceil_div :: "nat \<Rightarrow> nat \<Rightarrow> nat" where
  "ceil_div l bs = (l + bs - 1) div bs"

lemma ceil_div_0 [simp]: "ceil_div 0 bs = 0"
  by (cases bs) (simp_all add: ceil_div_def)

lemma ceil_div_pos: "0 < bs \<Longrightarrow> 0 < l \<Longrightarrow> 0 < ceil_div l bs"
  by (simp add: ceil_div_def div_greater_zero_iff)

lemma ceil_div_zero: "0 < bs \<Longrightarrow> ceil_div l bs = 0 \<longleftrightarrow> l = 0"
  using ceil_div_pos [of bs l] by (cases "l = 0") auto

lemma ceil_div_minus: "0 < bs \<Longrightarrow> 0 < l \<Longrightarrow> ceil_div (l - bs) bs = ceil_div l bs - 1"
proof (cases "l \<le> bs")
  case True
  assume "0 < bs" "0 < l"
  then have "(l + bs - 1) div bs = 1" using True by (intro div_nat_eqI) auto
  then show ?thesis using True \<open>0 < bs\<close> by (simp add: ceil_div_def div_eq_0_iff)
next
  case False
  assume "0 < bs"
  have "l + bs - 1 = (l - bs + bs - 1) + bs" using False \<open>0 < bs\<close> by simp
  then have "(l + bs - 1) div bs = (l - bs + bs - 1) div bs + 1" using \<open>0 < bs\<close> by (metis div_add_self2 neq0_conv)
  then show ?thesis by (simp add: ceil_div_def)
qed

lemma ceil_div_one: "0 < bs \<Longrightarrow> 0 < l \<Longrightarrow> ceil_div l bs = 1 \<longleftrightarrow> l \<le> bs"
proof -
  assume a: "0 < bs" "0 < l"
  have "ceil_div l bs = 1 \<longleftrightarrow> ceil_div (l - bs) bs = 0" using ceil_div_minus [OF a] ceil_div_pos [OF a] by linarith
  also have "\<dots> \<longleftrightarrow> l \<le> bs" using ceil_div_zero [OF a(1), of "l - bs"] by simp
  finally show ?thesis .
qed

lemma get_buf_entry:
  "i < block_size B div 4 \<Longrightarrow> buf_copy_from (get_buf B b) (i * 4) (to_le_bytes v) m = Some (set_entry (block_size B) b i v m)"
  "i < block_size B div 4 \<Longrightarrow> read_entry (get_buf B b) i m = Some (entry (block_size B) m b i)"
  by (auto simp: buf_copy_from_def get_buf_def from_offset_def set_entry_def read_entry_def buf_copy_to_def entry_def)

lemma alloc_loop_done: "alloc_loop B b i base 0 st = Some (True, st)"
  by (subst alloc_loop.simps) simp

lemma alloc_loop_empty:
  "0 < l \<Longrightarrow> i < block_size B div 4 \<Longrightarrow> free_list B st [] \<Longrightarrow> alloc_loop B b i base l st = Some (False, st)"
  by (subst alloc_loop.simps) (simp add: free_list_Nil)

lemma alloc_loop_pop:
  assumes "0 < l" "i < block_size B div 4" "stack_pop (block_size B) (h, m) = Some (e, (h', m))"
  shows "alloc_loop B b i base l (h, m)
    = alloc_loop B b (i + 1) e (l - block_size B) (h', set_entry (block_size B) b i e m)"
  using assms by (subst alloc_loop.simps) (simp add: get_buf_entry)

lemma alloc_loop_chain:
  assumes "0 < l" "l + block_size B < 2 ^ 64" "i = block_size B div 4"
  shows "alloc_loop B b i base l st = alloc_loop B base 0 base (l + block_size B) st"
  using assms by (subst alloc_loop.simps) simp

definition alloc_post :: "Buffers \<Rightarrow> u32 \<Rightarrow> nat \<Rightarrow> nat \<Rightarrow> u32 list \<Rightarrow> buf_mem \<Rightarrow> buf_state \<Rightarrow> bool" where
  "alloc_post B b i r ys m st \<longleftrightarrow>
     (let n = need (block_size B div 4) i r; (ds, ls) = scat (block_size B) (snd st) b i r in
      free_list B st (drop n ys) \<and> mset ds + mset ls = mset (take n ys)
    \<and> (\<forall>x. x \<noteq> b \<longrightarrow> x \<notin> set (take n ys) \<longrightarrow> same (block_size B) x m (snd st))
    \<and> (\<forall>j < i. entry (block_size B) (snd st) b j = entry (block_size B) m b j))"

lemma alloc_post_chain:
  assumes post: "alloc_post B e 0 r ys (set_entry (block_size B) b i e m) st"
    and i: "i + 1 = block_size B div 4" "0 < i" and r: "2 \<le> r" and B: "buffers_ok B" and d: "b \<noteq> e" "b \<notin> set ys"
  shows "alloc_post B b i r (e # ys) m st"
proof -
  let ?bs = "block_size B" and ?m = "set_entry (block_size B) b i e m"
  have p: "free_list B st (drop (need (?bs div 4) 0 r) ys)"
    "mset (fst (scat ?bs (snd st) e 0 r)) + mset (snd (scat ?bs (snd st) e 0 r)) = mset (take (need (?bs div 4) 0 r) ys)"
    "\<And>x. x \<noteq> e \<Longrightarrow> x \<notin> set (take (need (?bs div 4) 0 r) ys) \<Longrightarrow> same ?bs x ?m (snd st)"
    using post by (auto simp: alloc_post_def Let_def split_beta)
  have b: "same ?bs b ?m (snd st)" by (rule p(3)) (use d in \<open>auto dest: in_set_takeD\<close>)
  have e: "entry ?bs (snd st) b i = e" using entry_same [OF b, of i] i by simp
  have "entry ?bs (snd st) b j = entry ?bs m b j" if "j < i" for j
    using entry_same [OF b, of j] that i by (simp add: entry_set_other)
  moreover have "same ?bs x m (snd st)" if "x \<noteq> b" "x \<notin> set (e # take (need (?bs div 4) 0 r) ys)" for x
    using same_trans [OF same_set_entry [OF that(1), of i] p(3)] that i by simp
  ultimately show ?thesis
    using p(1,2) e i r by (auto simp: alloc_post_def Let_def scat_simps(2) need_simps(2))
qed

lemma alloc_post_next:
  assumes post: "alloc_post B b (i + 1) (r - 1) ys (set_entry (block_size B) b i e m) st"
    and i: "i < block_size B div 4" and r: "0 < r" "i + 1 \<noteq> block_size B div 4 \<or> r = 1" and d: "b \<noteq> e"
  shows "alloc_post B b i r (e # ys) m st"
proof -
  let ?bs = "block_size B" and ?m = "set_entry (block_size B) b i e m" and ?n = "need (block_size B div 4) (i + 1) (r - 1)"
  have p: "free_list B st (drop ?n ys)"
    "mset (fst (scat ?bs (snd st) b (i + 1) (r - 1))) + mset (snd (scat ?bs (snd st) b (i + 1) (r - 1))) = mset (take ?n ys)"
    "\<And>x. x \<noteq> b \<Longrightarrow> x \<notin> set (take ?n ys) \<Longrightarrow> same ?bs x ?m (snd st)"
    "\<And>j. j < i + 1 \<Longrightarrow> entry ?bs (snd st) b j = entry ?bs ?m b j"
    using post by (auto simp: alloc_post_def Let_def split_beta)
  have e: "entry ?bs (snd st) b i = e" using p(4) [of i] by simp
  have "entry ?bs (snd st) b j = entry ?bs m b j" if "j < i" for j
    using p(4) [of j] that by (simp add: entry_set_other)
  moreover have "same ?bs x m (snd st)" if "x \<noteq> b" "x \<notin> set (e # take ?n ys)" for x
    using same_trans [OF same_set_entry [OF that(1) i] p(3)] that by simp
  ultimately show ?thesis
    using p(1,2) e i r by (auto simp: alloc_post_def Let_def scat_simps(3) need_simps(3))
qed

lemma alloc_loop_ok:
  assumes B: "buffers_ok B" and "i < block_size B div 4 \<or> l = 0" "free_list B (h, m) ys" "b \<notin> set ys"
    "l < 2 ^ 63" "r = ceil_div l (block_size B)"
  shows "if need (block_size B div 4) i r \<le> length ys
    then \<exists>st. alloc_loop B b i base l (h, m) = Some (True, st) \<and> alloc_post B b i r ys m st
    else \<exists>st. alloc_loop B b i base l (h, m) = Some (False, st) \<and> free_list B st []"
  using assms(2-)
proof (induction ys arbitrary: b i base l h m r)
  case Nil
  note s = buffers_ok_size [OF B]
  show ?case
  proof (cases "l = 0")
    case True
    then show ?thesis using Nil s
      by (simp add: alloc_loop_done alloc_post_def need_simps scat_simps)
  next
    case False
    then have "0 < r" using Nil(5) s ceil_div_pos [of "block_size B" l] by simp
    then have "0 < need (block_size B div 4) i r" by (subst need.simps) simp
    then show ?thesis using False Nil s alloc_loop_empty by simp
  qed
next
  case (Cons e ys)
  note s = buffers_ok_size [OF B]
  let ?bs = "block_size B"
  show ?case
  proof (cases "l = 0")
    case True
    then show ?thesis using Cons.prems s
      by (simp add: alloc_loop_done alloc_post_def need_simps scat_simps)
  next
    case False
    then have i: "i < ?bs div 4" and r: "0 < r" "r - 1 = ceil_div (l - ?bs) ?bs"
      using Cons.prems s ceil_div_pos [of ?bs l] ceil_div_minus [of ?bs l] by auto
    obtain h' where p: "stack_pop ?bs (h, m) = Some (e, (h', m))" "free_list B (h', m) ys"
      by (rule free_list_Cons [OF Cons.prems(2)])
    let ?m = "set_entry ?bs b i e m"
    have d: "e \<notin> set ys" "b \<noteq> e" "b \<notin> set ys" using Cons.prems(2,3) by (auto simp: free_list_def)
    have sm: "same ?bs x m ?m" if "x \<noteq> b" for x using same_set_entry [OF that i] .
    have fl: "free_list B (h', ?m) ys" by (rule free_list_same [OF B p(2)], rule sm) (use d(3) in auto)
    have step: "alloc_loop B b i base l (h, m) = alloc_loop B b (i + 1) e (l - ?bs) (h', ?m)"
      using alloc_loop_pop [OF _ i p(1)] False by simp
    show ?thesis
    proof (cases "i + 1 = ?bs div 4 \<and> 2 \<le> r")
      case True
      then have "?bs < l" using r(2) ceil_div_zero [of ?bs "l - ?bs"] s by (cases "l \<le> ?bs") auto
      then have "alloc_loop B b i base l (h, m) = alloc_loop B e 0 e l (h', ?m)"
        using step alloc_loop_chain [of "l - ?bs" B "i + 1"] True Cons.prems(4) s by simp
      moreover have "need (?bs div 4) i r = Suc (need (?bs div 4) 0 r)" using True s by (intro need_simps(2)) auto
      moreover have "if need (?bs div 4) 0 r \<le> length ys
          then \<exists>st. alloc_loop B e 0 e l (h', ?m) = Some (True, st) \<and> alloc_post B e 0 r ys ?m st
          else \<exists>st. alloc_loop B e 0 e l (h', ?m) = Some (False, st) \<and> free_list B st []"
        by (rule Cons.IH [OF _ fl d(1) Cons.prems(4,5)]) (use s in simp)
      moreover have "alloc_post B b i r (e # ys) m st" if "alloc_post B e 0 r ys ?m st" for st
        by (rule alloc_post_chain [OF that _ _ _ B d(2,3)]) (use True s in auto)
      ultimately show ?thesis by (auto split: if_splits)
    next
      case nc: False
      then have "i + 1 < ?bs div 4 \<or> l - ?bs = 0" using i r ceil_div_zero [of ?bs "l - ?bs"] s by auto
      then have "if need (?bs div 4) (i + 1) (r - 1) \<le> length ys
          then \<exists>st. alloc_loop B b (i + 1) e (l - ?bs) (h', ?m) = Some (True, st) \<and> alloc_post B b (i + 1) (r - 1) ys ?m st
          else \<exists>st. alloc_loop B b (i + 1) e (l - ?bs) (h', ?m) = Some (False, st) \<and> free_list B st []"
        by (rule Cons.IH [OF _ fl d(3) _ r(2)]) (use Cons.prems(4) in simp)
      moreover have "need (?bs div 4) i r = Suc (need (?bs div 4) (i + 1) (r - 1))" using nc r by (intro need_simps(3)) auto
      moreover have "alloc_post B b i r (e # ys) m st" if "alloc_post B b (i + 1) (r - 1) ys ?m st" for st
        by (rule alloc_post_next [OF that i r(1) _ d(2)]) (use nc r in auto)
      ultimately show ?thesis using step by (auto split: if_splits)
    qed
  qed
qed

text \<open>The data blocks and the list blocks of allocated data, and how many blocks it takes.\<close>

definition layout :: "Buffers \<Rightarrow> buf_mem \<Rightarrow> Data \<Rightarrow> u32 list \<times> u32 list" where
  "layout B m d =
     (if d_len d = 0 then ([], [])
      else if d_len d \<le> block_size B then ([d_offset d], [])
      else let (ds, ls) = scat (block_size B) m (d_offset d) 0 (ceil_div (d_len d) (block_size B))
        in (ds, d_offset d # ls))"

definition blocks_needed :: "Buffers \<Rightarrow> nat \<Rightarrow> nat" where
  "blocks_needed B sz =
     (if sz = 0 then 0
      else if sz \<le> block_size B then 1
      else Suc (need (block_size B div 4) 0 (ceil_div sz (block_size B))))"

lemma alloc_ok:
  assumes B: "buffers_ok B" and fl: "free_list B (h, m) xs" and sz: "sz < 2 ^ 32"
  shows "blocks_needed B sz \<le> length xs \<Longrightarrow> \<exists>d st. alloc B sz (h, m) = Some (Some d, st) \<and> d_len d = sz
      \<and> free_list B st (drop (blocks_needed B sz) xs)
      \<and> mset (fst (layout B (snd st) d)) + mset (snd (layout B (snd st) d)) = mset (take (blocks_needed B sz) xs)
      \<and> (\<forall>x. x \<notin> set (take (blocks_needed B sz) xs) \<longrightarrow> same (block_size B) x m (snd st))"
    and "length xs < blocks_needed B sz \<Longrightarrow> \<exists>st. alloc B sz (h, m) = Some (None, st) \<and> free_list B st []"
proof -
  note s = buffers_ok_size [OF B]
  let ?k = "blocks_needed B sz"
  have "(?k \<le> length xs \<longrightarrow> (\<exists>d st. alloc B sz (h, m) = Some (Some d, st) \<and> d_len d = sz \<and> free_list B st (drop ?k xs)
      \<and> mset (fst (layout B (snd st) d)) + mset (snd (layout B (snd st) d)) = mset (take ?k xs)
      \<and> (\<forall>x. x \<notin> set (take ?k xs) \<longrightarrow> same (block_size B) x m (snd st))))
    \<and> (length xs < ?k \<longrightarrow> (\<exists>st. alloc B sz (h, m) = Some (None, st) \<and> free_list B st []))"
  proof (cases "sz = 0")
    case True
    then show ?thesis using fl by (simp add: alloc_def blocks_needed_def layout_def alloc_empty_def)
  next
    case nz: False
    show ?thesis
    proof (cases xs)
      case Nil
      then show ?thesis using nz free_list_Nil fl by (simp add: alloc_def blocks_needed_def)
    next
      case (Cons e ys)
      obtain h' where p: "stack_pop (block_size B) (h, m) = Some (e, (h', m))" "free_list B (h', m) ys"
        using free_list_Cons fl Cons by metis
      have e: "e \<notin> set ys" using fl Cons by (simp add: free_list_def)
      show ?thesis
      proof (cases "sz \<le> block_size B")
        case True
        then show ?thesis using nz p sz Cons by (auto simp: alloc_def blocks_needed_def layout_def)
      next
        case False
        let ?r = "ceil_div sz (block_size B)" and ?n = "need (block_size B div 4) 0 (ceil_div sz (block_size B))"
        have "if ?n \<le> length ys
          then \<exists>st. alloc_loop B e 0 e sz (h', m) = Some (True, st) \<and> alloc_post B e 0 ?r ys m st
          else \<exists>st. alloc_loop B e 0 e sz (h', m) = Some (False, st) \<and> free_list B st []"
          by (rule alloc_loop_ok [OF B _ p(2) e]) (use s sz in auto)
        moreover have "mset (fst (layout B (snd st) \<lparr>d_offset = e, d_len = sz\<rparr>))
            + mset (snd (layout B (snd st) \<lparr>d_offset = e, d_len = sz\<rparr>)) = mset (e # take ?n ys)
            \<and> free_list B st (drop ?n ys) \<and> (\<forall>x. x \<notin> set (e # take ?n ys) \<longrightarrow> same (block_size B) x m (snd st))"
          if "alloc_post B e 0 ?r ys m st" for st
          using that False nz by (auto simp: alloc_post_def layout_def Let_def split_beta)
        ultimately show ?thesis
          using False nz sz p(1) Cons by (auto simp: alloc_def blocks_needed_def split: if_splits)
      qed
    qed
  qed
  then show "?k \<le> length xs \<Longrightarrow> \<exists>d st. alloc B sz (h, m) = Some (Some d, st) \<and> d_len d = sz
      \<and> free_list B st (drop ?k xs)
      \<and> mset (fst (layout B (snd st) d)) + mset (snd (layout B (snd st) d)) = mset (take ?k xs)
      \<and> (\<forall>x. x \<notin> set (take ?k xs) \<longrightarrow> same (block_size B) x m (snd st))"
    "length xs < ?k \<Longrightarrow> \<exists>st. alloc B sz (h, m) = Some (None, st) \<and> free_list B st []" by auto
qed

section \<open>Release\<close>

lemma drop_loop_last:
  assumes "0 < i" "i < block_size B div 4" "l \<le> block_size B"
  shows "drop_loop B b oo i l st = do { st \<leftarrow> dealloc B (entry (block_size B) (snd st) b i) st; dealloc B b st }"
  using assms by (subst drop_loop.simps) (simp add: get_buf_entry)

lemma drop_loop_next:
  assumes "i + 1 < block_size B div 4" "block_size B < l"
  shows "drop_loop B b oo i l st = do { st' \<leftarrow> dealloc B (entry (block_size B) (snd st) b i) st;
    drop_loop B b (entry (block_size B) (snd st) b i) (i + 1) (l - block_size B) st' }"
  using assms by (subst drop_loop.simps) (simp add: get_buf_entry)

lemma drop_loop_chain:
  assumes "i + 1 = block_size B div 4" "block_size B < l"
  shows "drop_loop B b oo i l st = do { st' \<leftarrow> dealloc B b st;
    drop_loop B (entry (block_size B) (snd st) b i) (entry (block_size B) (snd st) b i) 0 l st' }"
proof -
  have "drop_loop B b oo i l st = drop_loop B b (entry (block_size B) (snd st) b i) (i + 1) (l - block_size B) st"
    using assms by (subst drop_loop.simps) (simp add: get_buf_entry)
  also have "\<dots> = do { st' \<leftarrow> dealloc B b st;
      drop_loop B (entry (block_size B) (snd st) b i) (entry (block_size B) (snd st) b i) 0 l st' }"
    using assms by (subst drop_loop.simps) simp
  finally show ?thesis .
qed

lemma drop_loop_ok:
  assumes B: "buffers_ok B" and "n = need (block_size B div 4) i r" "r = ceil_div l (block_size B)"
    "i < block_size B div 4" "0 < l" "0 < i \<or> 2 \<le> r" "scat (block_size B) m b i r = (ds, ls)"
    "free_list B (h, m) ys" "distinct (b # ds @ ls @ ys)"
    "\<forall>x \<in> set (b # ds @ ls). x \<noteq> -1 \<and> unat x * block_size B < total_size B"
  shows "\<exists>st zs. drop_loop B b oo i l (h, m) = Some st \<and> free_list B st zs \<and> mset zs = mset (b # ds @ ls @ ys)
    \<and> (\<forall>x. x \<notin> set (b # ds @ ls) \<longrightarrow> same (block_size B) x m (snd st))"
  using assms(2-)
proof (induction n arbitrary: b i r l m ds ls h ys oo)
  case 0
  then have "r = 0" by (subst (asm) need.simps) (auto split: if_splits)
  then show ?case using 0 ceil_div_pos [of "block_size B" l] buffers_ok_size [OF B] by simp
next
  case (Suc n)
  note s = buffers_ok_size [OF B]
  let ?bs = "block_size B"
  let ?e = "entry ?bs m b i"
  have r: "0 < r" "r - 1 = ceil_div (l - ?bs) ?bs"
    using Suc.prems(2,4) ceil_div_pos [of ?bs l] ceil_div_minus [of ?bs l] s by auto
  consider "r = 1" | "2 \<le> r" "i + 1 < ?bs div 4" | "2 \<le> r" "i + 1 = ?bs div 4" using r Suc.prems(3) by linarith
  then show ?case
  proof cases
    case 1
    then have "l \<le> ?bs" "0 < i" using ceil_div_one [of ?bs l] Suc.prems s by auto
    have dl: "ds = [?e]" "ls = []" using Suc.prems(6) 1 by (auto simp: scat_simps)
    have d: "?e \<notin> set ys" "?e \<noteq> -1" "unat ?e * ?bs < total_size B" "b \<noteq> ?e" "b \<notin> set ys" "b \<noteq> -1"
        "unat b * ?bs < total_size B"
      using Suc.prems(8,9) dl by auto
    let ?m = "set_entry ?bs ?e 0 h m"
    note p1 = free_list_push [OF Suc.prems(7) B d(1-3)]
    have n: "b \<notin> set (?e # ys)" using d by auto
    note p2 = free_list_push [OF p1(2) B n d(6,7)]
    have "drop_loop B b oo i l (h, m) = Some (b, set_entry ?bs b 0 ?e ?m)"
      using drop_loop_last [OF \<open>0 < i\<close> Suc.prems(3) \<open>l \<le> ?bs\<close>] p1(1) p2(1) by simp
    moreover have "same ?bs x m (set_entry ?bs b 0 ?e ?m)" if "x \<notin> set (b # ds @ ls)" for x
      using same_trans [OF same_set_entry [of x ?e 0 ?bs m h] same_set_entry [of x b 0 ?bs ?m ?e]] that dl s by auto
    ultimately show ?thesis using p2(2) dl by (intro exI [of _ "(b, set_entry ?bs b 0 ?e ?m)"] exI [of _ "b # ?e # ys"]) auto
  next
    case 2
    then have l: "?bs < l" using r(2) ceil_div_zero [of ?bs "l - ?bs"] s by (cases "l \<le> ?bs") auto
    obtain ds' where ds: "ds = ?e # ds'" "scat ?bs m b (i + 1) (r - 1) = (ds', ls)"
      using Suc.prems(6) 2 by (cases "scat ?bs m b (i + 1) (r - 1)") (auto simp: scat_simps)
    have d: "?e \<notin> set ys" "?e \<noteq> -1" "unat ?e * ?bs < total_size B" "b \<noteq> ?e" "?e \<notin> set ls"
      using Suc.prems(8,9) ds by auto
    let ?m = "set_entry ?bs ?e 0 h m"
    note p = free_list_push [OF Suc.prems(7) B d(1-3)]
    have sm: "same ?bs x m ?m" if "x \<noteq> ?e" for x using same_set_entry [OF that, of 0] s by simp
    have sc: "scat ?bs ?m b (i + 1) (r - 1) = (ds', ls)"
      by (subst scat_same [of ?bs "i + 1" "r - 1" b m ?m]) (use 2 ds d s in \<open>auto intro!: sm\<close>)
    have "\<exists>st zs. drop_loop B b ?e (i + 1) (l - ?bs) (?e, ?m) = Some st \<and> free_list B st zs
      \<and> mset zs = mset (b # ds' @ ls @ ?e # ys) \<and> (\<forall>x. x \<notin> set (b # ds' @ ls) \<longrightarrow> same ?bs x ?m (snd st))"
      by (rule Suc.IH [OF _ r(2) 2(2) _ _ sc p(2)])
        (use Suc.prems ds 2 l in \<open>auto simp: need_simps(3)\<close>)
    then obtain st zs where ih: "drop_loop B b ?e (i + 1) (l - ?bs) (?e, ?m) = Some st" "free_list B st zs"
      "mset zs = mset (b # ds' @ ls @ ?e # ys)" "\<And>x. x \<notin> set (b # ds' @ ls) \<Longrightarrow> same ?bs x ?m (snd st)" by blast
    have "drop_loop B b oo i l (h, m) = Some st" using drop_loop_next [OF 2(2) l] p(1) ih(1) by simp
    moreover have "same ?bs x m (snd st)" if "x \<notin> set (b # ds @ ls)" for x
      using same_trans [OF sm ih(4)] that ds(1) by simp
    ultimately show ?thesis using ih(2,3) ds(1) by (intro exI [of _ st] exI [of _ zs]) auto
  next
    case 3
    then have l: "?bs < l" using r(2) ceil_div_zero [of ?bs "l - ?bs"] s by (cases "l \<le> ?bs") auto
    have i: "0 < i" using 3(2) s by linarith
    obtain ls' where ls: "ls = ?e # ls'" "scat ?bs m ?e 0 r = (ds, ls')"
      using Suc.prems(6) 3 i by (cases "scat ?bs m ?e 0 r") (auto simp: scat_simps)
    have d: "b \<notin> set ys" "b \<noteq> -1" "unat b * ?bs < total_size B" "b \<noteq> ?e" "b \<notin> set ls'"
      using Suc.prems(8,9) ls by auto
    let ?m = "set_entry ?bs b 0 h m"
    note p = free_list_push [OF Suc.prems(7) B d(1-3)]
    have sm: "same ?bs x m ?m" if "x \<noteq> b" for x using same_set_entry [OF that, of 0] s by simp
    have n: "n = need (?bs div 4) 0 r" using Suc.prems(1) need_simps(2) [OF 3(2) i 3(1)] by simp
    have sc: "scat ?bs ?m ?e 0 r = (ds, ls')"
      by (subst scat_same [of ?bs 0 r ?e m ?m]) (use 3 ls d s in \<open>auto intro!: sm\<close>)
    have "\<exists>st zs. drop_loop B ?e ?e 0 l (b, ?m) = Some st \<and> free_list B st zs
      \<and> mset zs = mset (?e # ds @ ls' @ b # ys) \<and> (\<forall>x. x \<notin> set (?e # ds @ ls') \<longrightarrow> same ?bs x ?m (snd st))"
      by (rule Suc.IH [OF n Suc.prems(2) _ Suc.prems(4) _ sc p(2)]) (use Suc.prems(8,9) ls(1) 3(1) s in auto)
    then obtain st zs where ih: "drop_loop B ?e ?e 0 l (b, ?m) = Some st" "free_list B st zs"
      "mset zs = mset (?e # ds @ ls' @ b # ys)" "\<And>x. x \<notin> set (?e # ds @ ls') \<Longrightarrow> same ?bs x ?m (snd st)" by blast
    have "drop_loop B b oo i l (h, m) = Some st" using drop_loop_chain [OF 3(2) l] p(1) ih(1) by simp
    moreover have "same ?bs x m (snd st)" if "x \<notin> set (b # ds @ ls)" for x
      using same_trans [OF sm ih(4)] that ls(1) by simp
    ultimately show ?thesis using ih(2,3) ls(1) by (intro exI [of _ st] exI [of _ zs]) auto
  qed
qed

lemma manual_drop_ok:
  assumes B: "buffers_ok B" and lay: "layout B m d = (ds, ls)" and fl: "free_list B (h, m) ys"
    and dist: "distinct (ds @ ls @ ys)" and rng: "\<forall>x \<in> set (ds @ ls). x \<noteq> -1 \<and> unat x * block_size B < total_size B"
  shows "\<exists>st zs. manual_drop B d (h, m) = Some st \<and> free_list B st zs \<and> mset zs = mset (ds @ ls @ ys)
    \<and> (\<forall>x. x \<notin> set (ds @ ls) \<longrightarrow> same (block_size B) x m (snd st))"
proof -
  note s = buffers_ok_size [OF B]
  let ?bs = "block_size B" and ?o = "d_offset d"
  consider "d_len d = 0" | "0 < d_len d" "d_len d \<le> ?bs" | "?bs < d_len d" by linarith
  then show ?thesis
  proof cases
    case 1
    then show ?thesis using lay fl by (auto simp: layout_def manual_drop_def)
  next
    case 2
    then have dl: "ds = [?o]" "ls = []" using lay by (auto simp: layout_def)
    then have p: "dealloc B ?o (h, m) = Some (?o, set_entry ?bs ?o 0 h m)"
      "free_list B (?o, set_entry ?bs ?o 0 h m) (?o # ys)"
      using free_list_push [OF fl B, of ?o] dist rng by auto
    have "manual_drop B d (h, m) = Some (?o, set_entry ?bs ?o 0 h m)"
      unfolding manual_drop_def by (subst drop_loop.simps) (use 2 s p(1) in simp)
    moreover have "same ?bs x m (set_entry ?bs ?o 0 h m)" if "x \<notin> set (ds @ ls)" for x
      using same_set_entry [of x ?o 0] that dl s by simp
    ultimately show ?thesis
      using p(2) dl by (intro exI [of _ "(?o, set_entry ?bs ?o 0 h m)"] exI [of _ "?o # ys"]) auto
  next
    case 3
    then obtain ls' where l: "ls = ?o # ls'" "scat ?bs m ?o 0 (ceil_div (d_len d) ?bs) = (ds, ls')"
      using lay by (auto simp: layout_def Let_def split_beta)
    have r: "2 \<le> ceil_div (d_len d) ?bs"
      using 3 s ceil_div_one [of ?bs "d_len d"] ceil_div_pos [of ?bs "d_len d"] by fastforce
    have "\<exists>st zs. drop_loop B ?o ?o 0 (d_len d) (h, m) = Some st \<and> free_list B st zs
      \<and> mset zs = mset (?o # ds @ ls' @ ys) \<and> (\<forall>x. x \<notin> set (?o # ds @ ls') \<longrightarrow> same ?bs x m (snd st))"
      by (rule drop_loop_ok [OF B refl refl _ _ _ l(2) fl]) (use 3 s r dist rng l(1) in auto)
    then show ?thesis using 3 l(1) by (auto simp: manual_drop_def)
  qed
qed

section \<open>Iteration\<close>

text \<open>The iterator still yields the blocks \<open>ds\<close>; the list blocks it reads are among \<open>L\<close>.\<close>

definition iter_at :: "Buffers \<Rightarrow> buf_mem \<Rightarrow> u32 set \<Rightarrow> DataIter \<Rightarrow> u32 list \<Rightarrow> bool" where
  "iter_at B m L it ds \<longleftrightarrow> it_count it = length ds \<and> (ds \<noteq> [] \<longrightarrow> (\<exists>b. it_cur_buf it = get_buf B b
     \<and> (it_cur_i it = 0 \<and> ds = [b] \<and> it_offset it = b
      \<or> it_cur_i it < block_size B div 4 \<and> (0 < it_cur_i it \<or> 2 \<le> length ds) \<and> b \<in> L
        \<and> fst (scat (block_size B) m b (it_cur_i it) (length ds)) = ds
        \<and> set (snd (scat (block_size B) m b (it_cur_i it) (length ds))) \<subseteq> L)))"

lemma iter_at_same:
  assumes B: "buffers_ok B" and it: "iter_at B m L it ds" and sm: "\<And>x. x \<in> L \<Longrightarrow> same (block_size B) x m m'"
  shows "iter_at B m' L it ds"
proof (cases "ds = []")
  case False
  have "scat (block_size B) m' b i r = scat (block_size B) m b i r"
    if "i < block_size B div 4" "b \<in> L" "set (snd (scat (block_size B) m b i r)) \<subseteq> L" for b i r
    by (rule scat_same) (use that sm buffers_ok_size [OF B] in auto)
  then show ?thesis using it False unfolding iter_at_def by metis
qed (use it in \<open>simp add: iter_at_def\<close>)

lemma data_next_end: "iter_at B m L it [] \<Longrightarrow> data_next B m it = Some None"
  by (subst data_next.simps) (simp add: iter_at_def)

lemma data_next_plain:
  assumes i: "it_cur_i it + 1 < block_size B div 4" and b: "it_cur_buf it = get_buf B b" "b \<in> L"
    and n: "it_count it = Suc (length ds)" "ds \<noteq> []"
    and sc: "scat (block_size B) m b (it_cur_i it) (Suc (length ds)) = (d # ds, ls)" "set ls \<subseteq> L"
  shows "\<exists>it'. data_next B m it = Some (Some ((d, \<lparr>buf_base = unat d * block_size B,
      buf_size = (if ds = [] then it_last_size it else block_size B)\<rparr>), it'))
    \<and> iter_at B m L it' ds \<and> it_last_size it' = it_last_size it"
proof -
  let ?i = "it_cur_i it"
  have d: "d = entry (block_size B) m b ?i" "scat (block_size B) m b (?i + 1) (length ds) = (ds, ls)"
    using sc(1) i by (auto simp: scat_simps prod_eq_iff)
  let ?it = "it\<lparr>it_offset := d, it_cur_i := ?i + 1, it_count := length ds\<rparr>"
  have "?i < block_size B div 4" using i by simp
  then have "data_next B m it = Some (Some ((d, get_buf B d), ?it))"
    using i b n d(1) by (subst data_next.simps) (simp add: get_buf_entry Let_def)
  moreover have "iter_at B m L ?it ds" using i b d(2) sc(2) by (auto simp: iter_at_def intro!: exI [of _ b])
  ultimately show ?thesis using n(2) by (simp add: get_buf_def from_offset_def)
qed

lemma data_next_last:
  assumes i: "0 < it_cur_i it" "it_cur_i it < block_size B div 4" and b: "it_cur_buf it = get_buf B b"
    and n: "it_count it = 1" and sc: "fst (scat (block_size B) m b (it_cur_i it) 1) = [d]"
  shows "\<exists>it'. data_next B m it = Some (Some ((d, \<lparr>buf_base = unat d * block_size B, buf_size = it_last_size it\<rparr>), it'))
    \<and> iter_at B m L it' [] \<and> it_last_size it' = it_last_size it"
proof -
  have "d = entry (block_size B) m b (it_cur_i it)" using sc by (simp add: scat_simps)
  then have "\<exists>it'. data_next B m it = Some (Some ((d, (get_buf B d)\<lparr>buf_size := it_last_size it\<rparr>), it'))
    \<and> iter_at B m L it' [] \<and> it_last_size it' = it_last_size it"
    using i b n by (subst data_next.simps) (simp add: get_buf_entry Let_def iter_at_def)
  then show ?thesis by (simp add: get_buf_def from_offset_def)
qed

lemma data_next_ok:
  assumes B: "buffers_ok B" and it: "iter_at B m L it (d # ds)"
  shows "\<exists>it'. data_next B m it = Some (Some ((d, \<lparr>buf_base = unat d * block_size B,
      buf_size = (if ds = [] then it_last_size it else block_size B)\<rparr>), it'))
    \<and> iter_at B m L it' ds \<and> it_last_size it' = it_last_size it"
proof -
  note s = buffers_ok_size [OF B]
  let ?i = "it_cur_i it" and ?bs = "block_size B"
  from it obtain b where b: "it_cur_buf it = get_buf B b" "it_count it = Suc (length ds)"
    and c: "?i = 0 \<and> d # ds = [b] \<and> it_offset it = b
      \<or> ?i < ?bs div 4 \<and> (0 < ?i \<or> ds \<noteq> []) \<and> b \<in> L \<and> fst (scat ?bs m b ?i (Suc (length ds))) = d # ds
        \<and> set (snd (scat ?bs m b ?i (Suc (length ds)))) \<subseteq> L"
    unfolding iter_at_def by (auto simp: Suc_le_eq)
  from c consider "?i = 0" "d = b" "ds = []" "it_offset it = b"
    | "0 < ?i" "?i < ?bs div 4" "ds = []" "fst (scat ?bs m b ?i 1) = [d]"
    | "?i + 1 < ?bs div 4" "ds \<noteq> []" "b \<in> L" "fst (scat ?bs m b ?i (Suc (length ds))) = d # ds"
        "set (snd (scat ?bs m b ?i (Suc (length ds)))) \<subseteq> L"
    | "?i + 1 = ?bs div 4" "ds \<noteq> []" "b \<in> L" "fst (scat ?bs m b ?i (Suc (length ds))) = d # ds"
        "set (snd (scat ?bs m b ?i (Suc (length ds)))) \<subseteq> L"
    by fastforce
  then show ?thesis
  proof cases
    case 1
    then show ?thesis using b
      by (subst data_next.simps) (auto simp: iter_at_def get_buf_def from_offset_def Let_def)
  next
    case 2
    then show ?thesis using data_next_last [OF 2(1,2) b(1) _ 2(4)] b(2) by auto
  next
    case 3
    show ?thesis by (rule data_next_plain [OF 3(1) b(1) 3(3) b(2)]) (use 3 in \<open>auto simp: prod_eq_iff\<close>)
  next
    case 4
    let ?e = "entry ?bs m b ?i" and ?r = "Suc (length ds)"
    let ?it = "it\<lparr>it_offset := ?e, it_cur_buf := get_buf B ?e, it_cur_i := 0\<rparr>"
    have i: "0 < ?i" "2 \<le> ?r" "?i < ?bs div 4" using 4(1,2) s by (auto simp: Suc_le_eq)
    have sc: "scat ?bs m b ?i ?r = (fst (scat ?bs m ?e 0 ?r), ?e # snd (scat ?bs m ?e 0 ?r))"
      using scat_simps(2) [OF 4(1) i(1,2)] .
    have "data_next B m it = data_next B m ?it"
      using b 4(1,2) i by (subst data_next.simps) (simp add: get_buf_entry)
    moreover have "\<exists>it'. data_next B m ?it = Some (Some ((d, \<lparr>buf_base = unat d * ?bs,
        buf_size = (if ds = [] then it_last_size ?it else ?bs)\<rparr>), it')) \<and> iter_at B m L it' ds \<and> it_last_size it' = it_last_size ?it"
      by (rule data_next_plain [where b = ?e and ls = "snd (scat ?bs m ?e 0 ?r)"])
        (use 4 b s sc in \<open>auto simp: prod_eq_iff\<close>)
    ultimately show ?thesis using 4(2) by simp
  qed
qed

lemma data_skip_ok:
  assumes B: "buffers_ok B" and "iter_at B m L it ds" "n \<le> length ds"
  shows "\<exists>it'. data_skip B m n it = Some it' \<and> iter_at B m L it' (drop n ds) \<and> it_last_size it' = it_last_size it"
  using assms(2-)
proof (induction n arbitrary: it ds)
  case (Suc n)
  then obtain d ds' where ds: "ds = d # ds'" by (cases ds) auto
  obtain b it' where "data_next B m it = Some (Some ((d, b), it'))" "iter_at B m L it' ds'" "it_last_size it' = it_last_size it"
    using data_next_ok [OF B, of m L it d ds'] Suc.prems(1) ds by blast
  then show ?case using Suc.IH [of it' ds'] Suc.prems(2) ds by auto
qed simp

section \<open>Copying\<close>

text \<open>The address of byte \<open>k\<close> of the data in the blocks \<open>ds\<close>, and how many bytes they hold.\<close>

definition addr :: "nat \<Rightarrow> u32 list \<Rightarrow> nat \<Rightarrow> nat" where
  "addr bs ds k = unat (ds ! (k div bs)) * bs + k mod bs"

definition capacity :: "nat \<Rightarrow> nat \<Rightarrow> u32 list \<Rightarrow> nat" where
  "capacity bs last_sz ds = (if ds = [] then 0 else (length ds - 1) * bs + last_sz)"

lemma addr_Cons:
  "k < bs \<Longrightarrow> addr bs (d # ds) k = unat d * bs + k"
  "0 < bs \<Longrightarrow> addr bs (d # ds) (bs + k) = addr bs ds k"
  by (simp_all add: addr_def div_add_self1)

lemma addr_drop: "0 < bs \<Longrightarrow> n \<le> length ds \<Longrightarrow> addr bs (drop n ds) k = addr bs ds (n * bs + k)"
  by (simp add: addr_def)

lemma addr_block: "0 < bs \<Longrightarrow> k < length ds * bs \<Longrightarrow> \<exists>x \<in> set ds. \<exists>j < bs. addr bs ds k = unat x * bs + j"
  unfolding addr_def by (metis less_mult_imp_div_less mod_less_divisor nth_mem)

lemma addr_inj:
  assumes "0 < bs" "distinct ds" "j < length ds * bs" "k < length ds * bs" "addr bs ds j = addr bs ds k"
  shows "j = k"
proof -
  have d: "j div bs < length ds" "k div bs < length ds" using assms by (simp_all add: less_mult_imp_div_less)
  have "ds ! (j div bs) = ds ! (k div bs)"
    using block_disjoint [of "ds ! (j div bs)" "ds ! (k div bs)" "j mod bs" bs "k mod bs"] assms(1,5)
    by (auto simp: addr_def)
  then have "j div bs = k div bs" using nth_eq_iff_index_eq [OF assms(2) d] by simp
  moreover have "j mod bs = k mod bs" using assms(5) \<open>ds ! (j div bs) = ds ! (k div bs)\<close> by (simp add: addr_def)
  ultimately show ?thesis by (metis div_mult_mod_eq)
qed

lemma capacity_le: "last_sz \<le> bs \<Longrightarrow> capacity bs last_sz ds \<le> length ds * bs"
  by (cases ds) (simp_all add: capacity_def)

lemma capacity_Cons:
  assumes "off + n \<le> capacity bs last_sz (d # ds)" "last_sz \<le> bs"
  shows "off + min n (bs - off) \<le> (if ds = [] then last_sz else bs) \<or> bs < off"
    and "bs - off < n \<Longrightarrow> off \<le> bs \<Longrightarrow> n - (bs - off) \<le> capacity bs last_sz ds"
  using assms by (auto simp: capacity_def min_def neq_Nil_conv split: if_splits)

lemma map_addr_split:
  assumes "0 < bs" "off < bs" "bs - off < n"
  shows "map (\<lambda>k. f (addr bs (d # ds) (off + k))) [0..<n]
    = map (\<lambda>k. f (unat d * bs + off + k)) [0..<bs - off] @ map (\<lambda>k. f (addr bs ds k)) [0..<n - (bs - off)]"
proof -
  have "[0..<n] = [0..<bs - off] @ map (\<lambda>k. k + (bs - off)) [0..<n - (bs - off)]"
    using assms(3) upt_add_eq_append [of 0 "bs - off" "n - (bs - off)"] by (simp add: map_add_upt)
  moreover have "addr bs (d # ds) (off + k) = unat d * bs + off + k" if "k < bs - off" for k
    using that by (simp add: addr_Cons)
  moreover have "addr bs (d # ds) (off + (k + (bs - off))) = addr bs ds k" for k
    using addr_Cons(2) [OF assms(1), of d ds k] assms(2) by (simp add: add.commute add.left_commute)
  ultimately show ?thesis by simp
qed

lemma copy_to_loop_ok:
  assumes B: "buffers_ok B" and "iter_at B m L it ds" "off < block_size B"
    "ds = [] \<and> n = 0 \<or> off + n \<le> capacity (block_size B) (it_last_size it) ds" "it_last_size it \<le> block_size B"
  shows "copy_to_loop B m it off n = Some (map (\<lambda>k. m (addr (block_size B) ds (off + k))) [0..<n])"
  using assms(2-)
proof (induction ds arbitrary: it off n)
  case Nil
  then have "n = 0" by (auto simp: capacity_def)
  then show ?case using data_next_end [OF Nil(1)] by (subst copy_to_loop.simps) simp
next
  case (Cons d ds)
  let ?bs = "block_size B" and ?c = "min n (block_size B - off)"
  have s: "0 < ?bs" using buffers_ok_size [OF B] by simp
  obtain it' where nx: "data_next B m it = Some (Some ((d, \<lparr>buf_base = unat d * ?bs,
      buf_size = (if ds = [] then it_last_size it else ?bs)\<rparr>), it'))"
    "iter_at B m L it' ds" "it_last_size it' = it_last_size it"
    using data_next_ok [OF B Cons.prems(1)] by blast
  have cap: "off + n \<le> capacity ?bs (it_last_size it) (d # ds)" using Cons.prems(3) by simp
  have fits: "off + ?c \<le> (if ds = [] then it_last_size it else ?bs)"
    using capacity_Cons(1) [OF cap Cons.prems(4)] Cons.prems(2) by auto
  have cp: "buf_copy_to \<lparr>buf_base = unat d * ?bs, buf_size = (if ds = [] then it_last_size it else ?bs)\<rparr> off ?c m
      = Some (map (\<lambda>k. m (unat d * ?bs + off + k)) [0..<?c])"
    using fits by (auto simp: buf_copy_to_def slice_def map_add_upt [symmetric] comp_def add.commute simp del: map_add_upt)
  show ?case
  proof (cases "?bs - off < n")
    case True
    have "copy_to_loop B m it' 0 (n - (?bs - off)) = Some (map (\<lambda>k. m (addr ?bs ds (0 + k))) [0..<n - (?bs - off)])"
      by (rule Cons.IH [OF nx(2) s]) (use capacity_Cons(2) [OF cap Cons.prems(4) True] Cons.prems nx(3) in auto)
    then show ?thesis
      using nx(1) cp True map_addr_split [OF s Cons.prems(2) True, of m d ds]
      by (subst copy_to_loop.simps) (simp add: Let_def)
  next
    case False
    then have "map (\<lambda>k. m (unat d * ?bs + off + k)) [0..<n] = map (\<lambda>k. m (addr ?bs (d # ds) (off + k))) [0..<n]"
      using Cons.prems(2) by (auto simp: addr_Cons add.assoc)
    then show ?thesis using nx(1) cp False by (subst copy_to_loop.simps) (simp add: Let_def)
  qed
qed

text \<open>What a copy into the blocks \<open>ds\<close> does to the memory.\<close>

definition written :: "nat \<Rightarrow> u32 list \<Rightarrow> nat \<Rightarrow> u8 list \<Rightarrow> buf_mem \<Rightarrow> buf_mem \<Rightarrow> bool" where
  "written bs ds off src m m' \<longleftrightarrow> (\<forall>k < length src. m' (addr bs ds (off + k)) = src ! k)
     \<and> (\<forall>a. (\<forall>k < length src. a \<noteq> addr bs ds (off + k)) \<longrightarrow> m' a = m a)"

lemma written_Cons:
  assumes bs: "0 < bs" "off < bs" and c: "c = min (length src) (bs - off)" and d: "d \<notin> set ds"
    and fits: "length src - c \<le> length ds * bs"
    and w: "written bs ds 0 (drop c src) (put (unat d * bs + off) (take c src) m) m'"
  shows "written bs (d # ds) off src m m'"
proof -
  let ?m = "put (unat d * bs + off) (take c src) m"
  have lo: "addr bs (d # ds) (off + k) = unat d * bs + off + k" if "k < c" for k
  proof -
    have "off + k < bs" using that c by linarith
    then show ?thesis by (simp add: addr_Cons add.assoc)
  qed
  have hi: "addr bs (d # ds) (off + k) = addr bs ds (k - c)" if "c \<le> k" "k < length src" for k
  proof -
    have "c = bs - off" using that c by auto
    then show ?thesis using addr_Cons(2) [OF bs(1), of d ds "k - c"] that bs by (simp add: add.commute)
  qed
  have other: "unat d * bs + off + k \<noteq> addr bs ds j" if k: "k < c" and j: "j < length src - c" for j k
  proof -
    have "off + k < bs" using k c by linarith
    moreover obtain x i where "x \<in> set ds" "i < bs" "addr bs ds j = unat x * bs + i"
      using addr_block [OF bs(1), of j ds] j fits by auto
    ultimately show ?thesis using block_disjoint [of d x "off + k" bs i] d by (auto simp: add.assoc)
  qed
  have "m' (addr bs (d # ds) (off + k)) = src ! k" if k: "k < length src" for k
  proof (cases "k < c")
    case True
    then have "m' (unat d * bs + off + k) = ?m (unat d * bs + off + k)" using w other [OF True] by (simp add: written_def)
    then show ?thesis using lo [OF True] True c by (simp add: put_def)
  next
    case False
    then have "m' (addr bs ds (k - c)) = drop c src ! (k - c)" using w k by (simp add: written_def)
    then show ?thesis using hi [of k] False k by simp
  qed
  moreover have "m' a = m a" if a: "\<forall>k < length src. a \<noteq> addr bs (d # ds) (off + k)" for a
  proof -
    have "a \<noteq> addr bs ds k" if "k < length src - c" for k
    proof -
      have "c + k < length src" using that by simp
      then show ?thesis using a hi [of "c + k"] by (metis add_diff_cancel_left' le_add1)
    qed
    then have "m' a = ?m a" using w by (simp add: written_def)
    moreover have "\<not> (unat d * bs + off \<le> a \<and> a < unat d * bs + off + length (take c src))"
    proof
      assume "unat d * bs + off \<le> a \<and> a < unat d * bs + off + length (take c src)"
      then obtain k where "a = unat d * bs + off + k" "k < c" by (auto simp: le_iff_add)
      then show False using a lo [of k] c by auto
    qed
    ultimately show ?thesis by (auto simp: put_def)
  qed
  ultimately show ?thesis by (simp add: written_def)
qed

lemma copy_from_loop_ok:
  assumes B: "buffers_ok B" and "iter_at B m L it ds" "off < block_size B"
    "src = [] \<or> off + length src \<le> capacity (block_size B) (it_last_size it) ds" "it_last_size it \<le> block_size B"
    "distinct ds" "set ds \<inter> L = {}"
  shows "\<exists>m'. copy_from_loop B it off src m = Some m' \<and> written (block_size B) ds off src m m'"
  using assms(2-)
proof (induction ds arbitrary: it off src m)
  case Nil
  then have "src = []" by (auto simp: capacity_def)
  then show ?case using data_next_end [OF Nil(1)] by (subst copy_from_loop.simps) (simp add: written_def)
next
  case (Cons d ds)
  let ?bs = "block_size B" and ?c = "min (length src) (block_size B - off)"
  have s: "0 < ?bs" using buffers_ok_size [OF B] by simp
  obtain it' where nx: "data_next B m it = Some (Some ((d, \<lparr>buf_base = unat d * ?bs,
      buf_size = (if ds = [] then it_last_size it else ?bs)\<rparr>), it'))"
    "iter_at B m L it' ds" "it_last_size it' = it_last_size it"
    using data_next_ok [OF B Cons.prems(1)] by blast
  show ?case
  proof (cases "src = []")
    case True
    then show ?thesis using nx(1) by (subst copy_from_loop.simps) (simp add: written_def)
  next
    case False
    then have cap: "off + length src \<le> capacity ?bs (it_last_size it) (d # ds)" using Cons.prems(3) by simp
    have fits: "off + ?c \<le> (if ds = [] then it_last_size it else ?bs)"
      using capacity_Cons(1) [OF cap Cons.prems(4)] Cons.prems(2) by auto
    let ?m = "put (unat d * ?bs + off) (take ?c src) m"
    have cp: "buf_copy_from \<lparr>buf_base = unat d * ?bs, buf_size = (if ds = [] then it_last_size it else ?bs)\<rparr> off (take ?c src) m
        = Some ?m"
      using fits by (auto simp: buf_copy_from_def min_def)
    have rest: "drop ?c src = [] \<or> 0 + length (drop ?c src) \<le> capacity ?bs (it_last_size it') ds"
      using capacity_Cons(2) [OF cap Cons.prems(4)] Cons.prems(2) nx(3) by (auto simp: min_def)
    have it: "iter_at B ?m L it' ds"
    proof (rule iter_at_same [OF B nx(2)])
      fix x assume "x \<in> L"
      then have "x \<noteq> d" using Cons.prems(6) by auto
      then show "same ?bs x m ?m" by (rule same_put) (use Cons.prems(2) in auto)
    qed
    have "\<exists>m'. copy_from_loop B it' 0 (drop ?c src) ?m = Some m' \<and> written ?bs ds 0 (drop ?c src) ?m m'"
      by (rule Cons.IH [OF it s rest]) (use Cons.prems nx(3) in auto)
    then obtain m' where m': "copy_from_loop B it' 0 (drop ?c src) ?m = Some m'" "written ?bs ds 0 (drop ?c src) ?m m'" by blast
    have "length src - ?c \<le> length ds * ?bs"
      using rest capacity_le [of "it_last_size it'" ?bs ds] Cons.prems(4) nx(3) by auto
    then have "written ?bs (d # ds) off src m m'"
      using written_Cons [OF s Cons.prems(2) refl _ _ m'(2)] Cons.prems(5) by simp
    moreover have "copy_from_loop B it off src m = Some m'"
      using nx(1) cp m'(1) False by (subst copy_from_loop.simps) (simp add: Let_def)
    ultimately show ?thesis by blast
  qed
qed

lemma last_size_eq:
  assumes "buffers_ok B" "0 < l" "l < 2 ^ 32"
  shows "unat ((of_nat l - 1 :: u32) AND (of_nat (block_size B) - 1)) = (l - 1) mod block_size B"
proof -
  obtain k where k: "k < 32" "block_size B = 2 ^ k" using assms(1) by (auto simp: buffers_ok_def)
  have "(of_nat l - 1 :: u32) = of_nat (l - 1)" using assms(2) by (simp add: of_nat_diff)
  moreover have "unat (of_nat (l - 1) :: u32) = l - 1" using assms(3) by (intro unat_of_nat_small) simp
  moreover have "(of_nat (block_size B) - 1 :: u32) = mask k" using k by (simp add: mask_eq_exp_minus_1)
  ultimately show ?thesis using unat_and_mask [of k "of_nat (l - 1)"] k by simp
qed

lemma blocks_iter:
  assumes B: "buffers_ok B" and len: "d_len d < 2 ^ 32" and lay: "layout B m d = (ds, ls)"
  shows "iter_at B m (set ls) (blocks B d) ds" and "length ds = ceil_div (d_len d) (block_size B)"
    and "0 < d_len d \<Longrightarrow> it_last_size (blocks B d) = (d_len d - 1) mod block_size B + 1"
proof -
  note s = buffers_ok_size [OF B]
  show ls: "0 < d_len d \<Longrightarrow> it_last_size (blocks B d) = (d_len d - 1) mod block_size B + 1"
    using last_size_eq [OF B _ len] by (simp add: blocks_def)
  have c: "it_count (blocks B d) = ceil_div (d_len d) (block_size B)" by (simp add: blocks_def ceil_div_def)
  consider "d_len d = 0" | "0 < d_len d" "d_len d \<le> block_size B" | "block_size B < d_len d" by linarith
  then have "length ds = ceil_div (d_len d) (block_size B) \<and> iter_at B m (set ls) (blocks B d) ds"
  proof cases
    case 1
    then show ?thesis using lay c by (simp add: layout_def iter_at_def)
  next
    case 2
    then have "ceil_div (d_len d) (block_size B) = 1" using ceil_div_one [of "block_size B" "d_len d"] s by simp
    then show ?thesis using 2 lay c by (auto simp: layout_def iter_at_def) (auto simp: blocks_def)
  next
    case 3
    let ?r = "ceil_div (d_len d) (block_size B)"
    have r: "2 \<le> ?r" using 3 s ceil_div_one [of "block_size B" "d_len d"] ceil_div_pos [of "block_size B" "d_len d"] by fastforce
    obtain ls' where l: "ls = d_offset d # ls'" "scat (block_size B) m (d_offset d) 0 ?r = (ds, ls')"
      using lay 3 by (auto simp: layout_def Let_def split_beta)
    have n: "length ds = ?r" using length_scat [of "block_size B" m "d_offset d" 0 ?r] l(2) s by simp
    then show ?thesis using c l r s by (auto simp: iter_at_def) (auto simp: blocks_def)
  qed
  then show "iter_at B m (set ls) (blocks B d) ds" "length ds = ceil_div (d_len d) (block_size B)" by simp_all
qed

lemma capacity_drop:
  assumes "q < length ds" shows "capacity bs l (drop q ds) + q * bs = capacity bs l ds"
proof -
  obtain j where "length ds = q + Suc j" using assms less_imp_Suc_add by fastforce
  then show ?thesis by (auto simp: capacity_def algebra_simps)
qed

lemma capacity_len:
  assumes "0 < bs" "0 < l" "length ds = ceil_div l bs"
  shows "capacity bs ((l - 1) mod bs + 1) ds = l"
proof -
  have "ceil_div l bs = (l - 1) div bs + 1"
    using assms(1,2) div_add_self2 [of bs "l - 1"] by (simp add: ceil_div_def)
  moreover have "ds \<noteq> []" using assms ceil_div_pos [of bs l] by auto
  ultimately show ?thesis using assms(2,3) div_mult_mod_eq [of "l - 1" bs] by (simp add: capacity_def)
qed

text \<open>Skipping to the block of an offset.\<close>

lemma skip_to_offset:
  assumes B: "buffers_ok B" and len: "d_len d < 2 ^ 32" and lay: "layout B m d = (ds, ls)" and n: "off + n \<le> d_len d"
  obtains it where "data_skip B m (off div block_size B) (blocks B d) = Some it"
    "iter_at B m (set ls) it (drop (off div block_size B) ds)"
    "drop (off div block_size B) ds = [] \<and> n = 0 \<or>
      off mod block_size B + n \<le> capacity (block_size B) (it_last_size it) (drop (off div block_size B) ds)"
    "d_len d = 0 \<or> it_last_size it \<le> block_size B"
    "off div block_size B \<le> length ds"
proof -
  let ?bs = "block_size B" and ?q = "off div block_size B"
  have s: "0 < ?bs" using buffers_ok_size [OF B] by simp
  note it = blocks_iter [OF B len lay]
  have q: "?q \<le> length ds"
  proof -
    have "off div ?bs \<le> d_len d div ?bs" using n by (intro div_le_mono) simp
    also have "\<dots> \<le> ceil_div (d_len d) ?bs" unfolding ceil_div_def using s by (intro div_le_mono) simp
    finally show ?thesis using it(2) by simp
  qed
  obtain it' where i: "data_skip B m ?q (blocks B d) = Some it'" "iter_at B m (set ls) it' (drop ?q ds)"
    "it_last_size it' = it_last_size (blocks B d)"
    using data_skip_ok [OF B it(1) q] by blast
  show thesis
  proof (cases "d_len d = 0")
    case True
    then show thesis using that [OF i(1,2)] q n it(2) by simp
  next
    case False
    then have ls: "it_last_size it' = (d_len d - 1) mod ?bs + 1" using it(3) i(3) by simp
    have "off mod ?bs + n \<le> capacity ?bs (it_last_size it') (drop ?q ds)" if "drop ?q ds \<noteq> []"
    proof -
      have "capacity ?bs (it_last_size it') (drop ?q ds) + ?q * ?bs = capacity ?bs (it_last_size it') ds"
        using that by (intro capacity_drop) simp
      moreover have "capacity ?bs (it_last_size it') ds = d_len d" using capacity_len [of ?bs "d_len d" ds] False s it(2) ls by simp
      ultimately show ?thesis using n div_mult_mod_eq [of off ?bs] by linarith
    qed
    moreover have "n = 0" if "drop ?q ds = []"
    proof -
      have "d_len d \<le> length ds * ?bs"
        using capacity_len [of ?bs "d_len d" ds] capacity_le [of "(d_len d - 1) mod ?bs + 1" ?bs ds] False s it(2)
        by (simp add: Suc_le_eq)
      also have "\<dots> \<le> ?q * ?bs" using that by simp
      also have "\<dots> \<le> off" by simp
      finally show ?thesis using n by simp
    qed
    moreover have "it_last_size it' \<le> ?bs" using ls s by (simp add: Suc_le_eq)
    ultimately show thesis using that [OF i(1,2)] q by blast
  qed
qed

lemma data_copy_to_ok:
  assumes B: "buffers_ok B" and len: "d_len d < 2 ^ 32" and lay: "layout B m d = (ds, ls)" and n: "off + n \<le> d_len d"
  shows "data_copy_to B d off n m = Some (map (\<lambda>k. m (addr (block_size B) ds (off + k))) [0..<n])"
proof -
  let ?bs = "block_size B" and ?q = "off div block_size B"
  have s: "0 < ?bs" using buffers_ok_size [OF B] by simp
  obtain it where i: "data_skip B m ?q (blocks B d) = Some it" "iter_at B m (set ls) it (drop ?q ds)"
    "drop ?q ds = [] \<and> n = 0 \<or> off mod ?bs + n \<le> capacity ?bs (it_last_size it) (drop ?q ds)"
    "d_len d = 0 \<or> it_last_size it \<le> ?bs" "?q \<le> length ds"
    by (rule skip_to_offset [OF B len lay n])
  have "copy_to_loop B m it (off mod ?bs) n = Some (map (\<lambda>k. m (addr ?bs ds (off + k))) [0..<n])"
  proof (cases "d_len d = 0")
    case True
    then have "ds = []" "n = 0" using blocks_iter(2) [OF B len lay] n by auto
    then show ?thesis using data_next_end i(2) by (subst copy_to_loop.simps) simp
  next
    case False
    then have "copy_to_loop B m it (off mod ?bs) n
        = Some (map (\<lambda>k. m (addr ?bs (drop ?q ds) (off mod ?bs + k))) [0..<n])"
      using i(3,4) s by (intro copy_to_loop_ok [OF B i(2)]) auto
    moreover have "addr ?bs (drop ?q ds) (off mod ?bs + k) = addr ?bs ds (off + k)" for k
      using addr_drop [OF s i(5), of "off mod ?bs + k"] div_mult_mod_eq [of off ?bs] by (simp add: add.assoc [symmetric])
    ultimately show ?thesis by simp
  qed
  then show ?thesis using i(1) n by (simp add: data_copy_to_def)
qed

lemma data_copy_from_ok:
  assumes B: "buffers_ok B" and len: "d_len d < 2 ^ 32" and lay: "layout B m d = (ds, ls)"
    and n: "off + length src \<le> d_len d" and dist: "distinct ds" "set ds \<inter> set ls = {}"
  shows "\<exists>m'. data_copy_from B d off src m = Some m' \<and> written (block_size B) ds off src m m'"
proof -
  let ?bs = "block_size B" and ?q = "off div block_size B"
  have s: "0 < ?bs" using buffers_ok_size [OF B] by simp
  obtain it where i: "data_skip B m ?q (blocks B d) = Some it" "iter_at B m (set ls) it (drop ?q ds)"
    "drop ?q ds = [] \<and> length src = 0 \<or> off mod ?bs + length src \<le> capacity ?bs (it_last_size it) (drop ?q ds)"
    "d_len d = 0 \<or> it_last_size it \<le> ?bs" "?q \<le> length ds"
    by (rule skip_to_offset [OF B len lay n])
  have "\<exists>m'. copy_from_loop B it (off mod ?bs) src m = Some m' \<and> written ?bs ds off src m m'"
  proof (cases "d_len d = 0")
    case True
    then have "ds = []" "src = []" using blocks_iter(2) [OF B len lay] n by auto
    then show ?thesis using data_next_end i(2) by (subst copy_from_loop.simps) (simp add: written_def)
  next
    case False
    have "\<exists>m'. copy_from_loop B it (off mod ?bs) src m = Some m' \<and> written ?bs (drop ?q ds) (off mod ?bs) src m m'"
      by (rule copy_from_loop_ok [OF B i(2)]) (use i(3,4) False s dist set_drop_subset [of ?q ds] in auto)
    moreover have "addr ?bs (drop ?q ds) (off mod ?bs + k) = addr ?bs ds (off + k)" for k
      using addr_drop [OF s i(5), of "off mod ?bs + k"] div_mult_mod_eq [of off ?bs] by (simp add: add.assoc [symmetric])
    ultimately show ?thesis by (simp add: written_def)
  qed
  then show ?thesis using i(1) n by (simp add: data_copy_from_def)
qed

lemma written_same:
  assumes "0 < bs" "written bs ds off src m m'" "off + length src \<le> length ds * bs" "x \<notin> set ds"
  shows "same bs x m m'"
  unfolding same_def
proof (intro allI impI)
  fix j assume j: "j < bs"
  have "unat x * bs + j \<noteq> addr bs ds (off + k)" if k: "k < length src" for k
  proof -
    obtain y i where "y \<in> set ds" "i < bs" "addr bs ds (off + k) = unat y * bs + i"
      using addr_block [OF assms(1), of "off + k" ds] k assms(3) by auto
    then show ?thesis using block_disjoint [of x y j bs i] j assms(4) by auto
  qed
  then show "m' (unat x * bs + j) = m (unat x * bs + j)" using assms(2) by (simp add: written_def)
qed

section \<open>Storing and releasing data\<close>

lemma layout_same:
  assumes B: "buffers_ok B" and "\<And>x. x \<in> set (snd (layout B m d)) \<Longrightarrow> same (block_size B) x m m'"
  shows "layout B m' d = layout B m d"
proof (cases "block_size B < d_len d")
  case True
  have "scat (block_size B) m' (d_offset d) 0 (ceil_div (d_len d) (block_size B))
      = scat (block_size B) m (d_offset d) 0 (ceil_div (d_len d) (block_size B))"
    by (rule scat_same) (use assms True buffers_ok_size [OF B] in \<open>auto simp: layout_def Let_def split_beta\<close>)
  then show ?thesis by (simp add: layout_def)
qed (simp add: layout_def)

lemma addr_bound:
  assumes "buffers_ok B" "d_len d < 2 ^ 32" "layout B m d = (ds, ls)" shows "d_len d \<le> length ds * block_size B"
proof (cases "d_len d = 0")
  case False
  have s: "0 < block_size B" using buffers_ok_size [OF assms(1)] by simp
  show ?thesis
    using capacity_len [OF s, of "d_len d" ds] capacity_le [of "(d_len d - 1) mod block_size B + 1" "block_size B" ds]
      False s blocks_iter(2) [OF assms] by (simp add: Suc_le_eq)
qed simp

lemma store_ok:
  assumes B: "buffers_ok B" and fl: "free_list B (h, m) xs" and len: "length bytes < 2 ^ 32"
    and k: "k = blocks_needed B (length bytes)" "k \<le> length xs"
  obtains d h' m1 m2 ds ls where "alloc B (length bytes) (h, m) = Some (Some d, (h', m1))" "d_len d = length bytes"
    "data_copy_from B d 0 bytes m1 = Some m2" "layout B m2 d = (ds, ls)" "distinct (ds @ ls)"
    "mset (ds @ ls) = mset (take k xs)" "free_list B (h', m2) (drop k xs)" "written (block_size B) ds 0 bytes m1 m2"
    "\<forall>x. x \<notin> set (take k xs) \<longrightarrow> same (block_size B) x m m2"
proof -
  have s: "0 < block_size B" using buffers_ok_size [OF B] by simp
  obtain d h' m1 where a: "alloc B (length bytes) (h, m) = Some (Some d, (h', m1))" "d_len d = length bytes"
    "free_list B (h', m1) (drop k xs)"
    "mset (fst (layout B m1 d)) + mset (snd (layout B m1 d)) = mset (take k xs)"
    "\<And>x. x \<notin> set (take k xs) \<Longrightarrow> same (block_size B) x m m1"
    using alloc_ok(1) [OF B fl len] k by auto
  obtain ds ls where lay: "layout B m1 d = (ds, ls)" by (cases "layout B m1 d")
  have ms: "mset (ds @ ls) = mset (take k xs)" using a(4) lay by simp
  have "distinct xs" using fl by (simp add: free_list_def)
  then have dist: "distinct (ds @ ls)" using mset_eq_imp_distinct_iff [OF ms] by simp
  have set: "set (ds @ ls) = set (take k xs)" using mset_eq_setD [OF ms] .
  have l: "d_len d < 2 ^ 32" "0 + length bytes \<le> d_len d" using a(2) len by simp_all
  obtain m2 where m2: "data_copy_from B d 0 bytes m1 = Some m2" "written (block_size B) ds 0 bytes m1 m2"
    using data_copy_from_ok [OF B l(1) lay l(2)] dist by auto
  have sm: "same (block_size B) x m1 m2" if "x \<notin> set ds" for x
    using written_same [OF s m2(2) _ that] addr_bound [OF B l(1) lay] a(2) by simp
  have "layout B m2 d = (ds, ls)" using layout_same [OF B, of m1 d m2] sm dist lay by auto
  moreover have "free_list B (h', m2) (drop k xs)"
  proof (rule free_list_same [OF B a(3)], rule sm)
    fix x assume "x \<in> set (drop k xs)"
    then show "x \<notin> set ds" using set \<open>distinct xs\<close> set_take_disj_set_drop_if_distinct [of xs k k] by auto
  qed
  moreover have "same (block_size B) x m m2" if "x \<notin> set (take k xs)" for x
    using same_trans [OF a(5) sm] that set by auto
  ultimately show thesis using that a(1,2) m2 dist ms by blast
qed

lemma read_back:
  assumes B: "buffers_ok B" and "d_len d < 2 ^ 32" "layout B m2 d = (ds, ls)" "written (block_size B) ds 0 bytes m1 m2"
    "d_len d = length bytes" "off + n \<le> length bytes"
  shows "data_copy_to B d off n m2 = Some (take n (drop off bytes))"
proof -
  have "map (\<lambda>k. m2 (addr (block_size B) ds (off + k))) [0..<n] = take n (drop off bytes)"
    using assms(4,6) by (intro nth_equalityI) (auto simp: written_def)
  then show ?thesis using data_copy_to_ok [OF B assms(2,3), of off n] assms(5,6) by simp
qed

lemma release_ok:
  assumes B: "buffers_ok B" and fl: "free_list B (h', m2) (drop k xs)" and xs: "free_list B st xs"
    and lay: "layout B m2 d = (ds, ls)" and ms: "mset (ds @ ls) = mset (take k xs)"
  shows "\<exists>st' zs. manual_drop B d (h', m2) = Some st' \<and> free_list B st' zs \<and> mset zs = mset xs
    \<and> (\<forall>x. x \<notin> set (take k xs) \<longrightarrow> same (block_size B) x m2 (snd st'))"
proof -
  have d: "distinct xs" "\<forall>x \<in> set xs. x \<noteq> -1 \<and> unat x * block_size B < total_size B"
    using xs by (auto simp: free_list_def)
  have m: "mset ((ds @ ls) @ drop k xs) = mset xs" using ms by (metis append_take_drop_id mset_append)
  then have dist: "distinct (ds @ ls @ drop k xs)" using mset_eq_imp_distinct_iff [OF m] d(1) by simp
  have set: "set (ds @ ls) = set (take k xs)" using mset_eq_setD [OF ms] .
  have rng: "\<forall>x \<in> set (ds @ ls). x \<noteq> -1 \<and> unat x * block_size B < total_size B"
    using d(2) set by (auto dest: in_set_takeD)
  have m': "mset (ds @ ls @ drop k xs) = mset xs" using m by simp
  show ?thesis using manual_drop_ok [OF B lay fl dist rng] unfolding set m' .
qed

text \<open>
  C36. Data that fits the free blocks is always stored and read back: the allocation takes exactly the
  blocks it needs, all bytes written come back at any offset, no other block is touched, and releasing
  the data gives back exactly the blocks, so that the same blocks are free as before.
\<close>

theorem stream_buffer_roundtrip:
  assumes B: "buffers_ok B" and fl: "free_list B (h, m) xs" and len: "length bytes < 2 ^ 32"
    and fits: "blocks_needed B (length bytes) \<le> length xs" and off: "off + n \<le> length bytes"
  shows "\<exists>d h1 m1 m2 st zs. alloc B (length bytes) (h, m) = Some (Some d, (h1, m1))
     \<and> data_copy_from B d 0 bytes m1 = Some m2
     \<and> data_copy_to B d off n m2 = Some (take n (drop off bytes))
     \<and> free_list B (h1, m2) (drop (blocks_needed B (length bytes)) xs)
     \<and> manual_drop B d (h1, m2) = Some st \<and> free_list B st zs \<and> mset zs = mset xs
     \<and> (\<forall>x. x \<notin> set (take (blocks_needed B (length bytes)) xs) \<longrightarrow> same (block_size B) x m (snd st))"
proof -
  let ?k = "blocks_needed B (length bytes)"
  obtain d h1 m1 m2 ds ls where s: "alloc B (length bytes) (h, m) = Some (Some d, (h1, m1))" "d_len d = length bytes"
    "data_copy_from B d 0 bytes m1 = Some m2" "layout B m2 d = (ds, ls)" "distinct (ds @ ls)"
    "mset (ds @ ls) = mset (take ?k xs)" "free_list B (h1, m2) (drop ?k xs)" "written (block_size B) ds 0 bytes m1 m2"
    "\<forall>x. x \<notin> set (take ?k xs) \<longrightarrow> same (block_size B) x m m2"
    by (rule store_ok [OF B fl len refl fits])
  have "data_copy_to B d off n m2 = Some (take n (drop off bytes))"
    by (rule read_back [OF B _ s(4,8,2) off]) (use s(2) len in simp)
  moreover obtain st zs where "manual_drop B d (h1, m2) = Some st" "free_list B st zs" "mset zs = mset xs"
    "\<forall>x. x \<notin> set (take ?k xs) \<longrightarrow> same (block_size B) x m2 (snd st)"
    using release_ok [OF B s(7) fl s(4,6)] by blast
  ultimately show ?thesis using s same_trans by blast
qed

text \<open>An allocation that fails has taken all free blocks with it.\<close>

theorem failed_alloc_leaks:
  assumes "buffers_ok B" and "free_list B (h, m) xs" and "sz < 2 ^ 32" and "length xs < blocks_needed B sz"
  shows "\<exists>st. alloc B sz (h, m) = Some (None, st) \<and> free_list B st []"
  using alloc_ok(2) [OF assms(1-3)] assms(4) by blast

text \<open>Four blocks of eight bytes.\<close>

definition four_blocks :: Buffers where
  "four_blocks = \<lparr>total_size = 32, block_size = 8\<rparr>"

definition four_mem :: buf_mem where
  "four_mem = set_entry 8 0 0 1 (set_entry 8 1 0 2 (set_entry 8 2 0 3 (set_entry 8 3 0 (-1) (\<lambda>_. 0))))"

lemma four_free: "buffers_ok four_blocks" "free_list four_blocks (0, four_mem) [0, 1, 2, 3]"
proof -
  show "buffers_ok four_blocks" by (auto simp: buffers_ok_def four_blocks_def intro: exI [of _ 3])
  have e: "entry 8 (set_entry 8 b 0 v m) x 0 = (if x = b then v else entry 8 m x 0)" for b v m x
    using entry_same [OF same_set_entry [of x b 0 8 m v]] by simp
  show "free_list four_blocks (0, four_mem) [0, 1, 2, 3]"
    by (simp add: free_list_def four_blocks_def four_mem_def e)
qed

theorem stream_buffer_roundtrip_witness:
  "\<exists>d h1 m1 m2 st zs. alloc four_blocks 12 (0, four_mem) = Some (Some d, (h1, m1))
     \<and> data_copy_from four_blocks d 0 (map of_nat [0..<12]) m1 = Some m2
     \<and> data_copy_to four_blocks d 5 4 m2 = Some [5, 6, 7, 8]
     \<and> manual_drop four_blocks d (h1, m2) = Some st \<and> free_list four_blocks st zs \<and> mset zs = mset [0, 1, 2, 3]"
proof -
  have "ceil_div 12 8 = 2" by (simp add: ceil_div_def)
  then have n: "blocks_needed four_blocks 12 = 3"
    by (simp add: blocks_needed_def four_blocks_def need.simps)
  have "take 4 (drop 5 (map of_nat [0..<12])) = ([5, 6, 7, 8] :: u8 list)" by (simp add: upt_rec)
  then show ?thesis
    using stream_buffer_roundtrip [OF four_free, of "map of_nat [0..<12]" 5 4] n by (auto simp del: upt_rec_numeral)
qed

end
