(* ===== verification/Stream_Queue.thy ===== *)
theory Stream_Queue
  imports Io_Ring Stream_Buffers
begin

text \<open>
  The queue that the kernel and the server of a streaming table share,
  \<open>lib/rust/ipc/stream_table/src/lib.rs\<close>. The layout of requests and responses in memory is generated
  by an external crate from an interface description. Its accessors are parameters: a record of
  constructors and selectors of the two unions, with the law that a member that was set is read back
  unchanged, that all members of the response overlay the low bits of its 64-bit view, and that a
  fresh response is zero. Each side keeps the index it writes privately and publishes it; the queues
  are shown to be bounded first-in first-out queues.
\<close>

section \<open>Requests and responses\<close>

datatype StSeekFrom = StStart u64 | StCurrent i64 | StEnd i64

datatype StRequest =
    StRead u32 | StWrite Slice | StGetMeta Slice | StSetMeta Slice | StOpen Slice | StClose
  | StCreate Slice | StDestroy Slice | StSeek StSeekFrom | StShare u32

datatype StResponse =
    StError i64 | StPosition u64 | StHandle u32 | StAmount u32 | StRaw u64 | StSlice Slice
  | StShared u32

datatype RequestType =
    TyRead | TyWrite | TyGetMeta | TySetMeta | TyOpen | TyClose | TyCreate | TyDestroy
  | TySeekStart | TySeekCurrent | TySeekEnd | TyShare

text \<open>
  The generated accessors of \<open>RequestArgs\<close>, \<open>ResponseValue\<close> and the raw slice: \<open>set_x\<close> stands for
  setting a member of a default value.
\<close>

record ('a, 'v) raw_codec =
  args_default :: 'a
  set_amount :: "u32 \<Rightarrow> 'a"
  get_amount :: "'a \<Rightarrow> u32"
  set_slice :: "Slice \<Rightarrow> 'a"
  get_slice :: "'a \<Rightarrow> Slice"
  set_offset_u :: "u64 \<Rightarrow> 'a"
  get_offset_u :: "'a \<Rightarrow> u64"
  set_offset_s :: "i64 \<Rightarrow> 'a"
  get_offset_s :: "'a \<Rightarrow> i64"
  set_share :: "u32 \<Rightarrow> 'a"
  get_share :: "'a \<Rightarrow> u32"
  val_error :: "i64 \<Rightarrow> 'v"
  val_position :: "u64 \<Rightarrow> 'v"
  val_handle :: "u32 \<Rightarrow> 'v"
  val_amount :: "u32 \<Rightarrow> 'v"
  val_slice :: "Slice \<Rightarrow> 'v"
  val_raw :: "u64 \<Rightarrow> 'v"
  get_raw :: "'v \<Rightarrow> u64"
  slice_from_raw :: "u64 \<Rightarrow> Slice"

definition codec_ok :: "('a, 'v) raw_codec \<Rightarrow> bool" where
  "codec_ok cd \<longleftrightarrow>
     (\<forall>x. get_amount cd (set_amount cd x) = x) \<and> (\<forall>s. get_slice cd (set_slice cd s) = s)
   \<and> (\<forall>x. get_offset_u cd (set_offset_u cd x) = x) \<and> (\<forall>x. get_offset_s cd (set_offset_s cd x) = x)
   \<and> (\<forall>x. get_share cd (set_share cd x) = x)
   \<and> (\<forall>x. get_raw cd (val_error cd x) = x) \<and> (\<forall>x. get_raw cd (val_position cd x) = x)
   \<and> (\<forall>x. get_raw cd (val_handle cd x) = ucast x) \<and> (\<forall>x. get_raw cd (val_amount cd x) = ucast x)
   \<and> (\<forall>x. get_raw cd (val_raw cd x) = x)
   \<and> (\<forall>s. get_raw cd (val_slice cd s) = ucast (sl_offset s) OR push_bit 32 (ucast (sl_length s)))
   \<and> (\<forall>s. slice_from_raw cd (ucast (sl_offset s) OR push_bit 32 (ucast (sl_length s))) = s)"

text \<open>A raw request; the type is \<open>None\<close> if its bits are no request type.\<close>

record ('a, 'j) RawRequest =
  rr_ty :: "RequestType option"
  rr_id :: 'j
  rr_handle :: u32
  rr_args :: 'a

record ('v, 'j) RawResponse =
  rp_id :: 'j
  rp_value :: 'v

section \<open>The shared memory and the two sides\<close>

definition REQUESTS_MASK :: u32 where "REQUESTS_MASK = 127"
definition RESPONSES_MASK :: u32 where "RESPONSES_MASK = 127"

record ('a, 'v, 'j) queue_mem =
  m_request_tail :: u32
  m_request_head :: u32
  m_response_tail :: u32
  m_response_head :: u32
  m_responses :: "('v, 'j) RawResponse list"
  m_requests :: "('a, 'j) RawRequest list"

record ClientQueue =
  cq_request_tail :: u32
  cq_response_head :: u32

record ServerQueue =
  sv_response_tail :: u32
  sv_request_head :: u32

definition client_new :: ClientQueue where
  "client_new = \<lparr>cq_request_tail = 0, cq_response_head = 0\<rparr>"

definition server_new :: ServerQueue where
  "server_new = \<lparr>sv_response_tail = 0, sv_request_head = 0\<rparr>"

definition response_slot :: "u32 \<Rightarrow> nat" where
  "response_slot i = unat (i AND RESPONSES_MASK)"

definition request_slot :: "u32 \<Rightarrow> nat" where
  "request_slot i = unat (i AND REQUESTS_MASK)"

fun encode_request :: "('a, 'v) raw_codec \<Rightarrow> StRequest \<Rightarrow> RequestType \<times> 'a" where
  "encode_request cd (StRead n) = (TyRead, set_amount cd n)"
| "encode_request cd (StWrite s) = (TyWrite, set_slice cd s)"
| "encode_request cd (StGetMeta s) = (TyGetMeta, set_slice cd s)"
| "encode_request cd (StSetMeta s) = (TySetMeta, set_slice cd s)"
| "encode_request cd (StOpen s) = (TyOpen, set_slice cd s)"
| "encode_request cd StClose = (TyClose, args_default cd)"
| "encode_request cd (StCreate s) = (TyCreate, set_slice cd s)"
| "encode_request cd (StDestroy s) = (TyDestroy, set_slice cd s)"
| "encode_request cd (StSeek (StStart n)) = (TySeekStart, set_offset_u cd n)"
| "encode_request cd (StSeek (StCurrent n)) = (TySeekCurrent, set_offset_s cd n)"
| "encode_request cd (StSeek (StEnd n)) = (TySeekEnd, set_offset_s cd n)"
| "encode_request cd (StShare h) = (TyShare, set_share cd h)"

fun decode_request :: "('a, 'v) raw_codec \<Rightarrow> RequestType \<Rightarrow> 'a \<Rightarrow> StRequest" where
  "decode_request cd TyRead a = StRead (get_amount cd a)"
| "decode_request cd TyWrite a = StWrite (get_slice cd a)"
| "decode_request cd TyOpen a = StOpen (get_slice cd a)"
| "decode_request cd TyGetMeta a = StGetMeta (get_slice cd a)"
| "decode_request cd TySetMeta a = StSetMeta (get_slice cd a)"
| "decode_request cd TyClose a = StClose"
| "decode_request cd TyCreate a = StCreate (get_slice cd a)"
| "decode_request cd TyDestroy a = StDestroy (get_slice cd a)"
| "decode_request cd TySeekStart a = StSeek (StStart (get_offset_u cd a))"
| "decode_request cd TySeekCurrent a = StSeek (StCurrent (get_offset_s cd a))"
| "decode_request cd TySeekEnd a = StSeek (StEnd (get_offset_s cd a))"
| "decode_request cd TyShare a = StShare (get_share cd a)"

fun encode_response :: "('a, 'v) raw_codec \<Rightarrow> StResponse \<Rightarrow> 'v" where
  "encode_response cd (StError e) = val_error cd e"
| "encode_response cd (StPosition p) = val_position cd p"
| "encode_response cd (StHandle h) = val_handle cd h"
| "encode_response cd (StAmount a) = val_amount cd a"
| "encode_response cd (StRaw a) = val_raw cd a"
| "encode_response cd (StSlice s) = val_slice cd s"
| "encode_response cd (StShared h) = val_raw cd (push_bit 32 1 OR ucast h)"

section \<open>Operations of the server\<close>

definition server_enqueue ::
  "('a, 'v) raw_codec \<Rightarrow> 'j \<Rightarrow> StResponse \<Rightarrow> ServerQueue \<times> ('a, 'v, 'j) queue_mem
    \<Rightarrow> ServerQueue \<times> ('a, 'v, 'j) queue_mem" where
  "server_enqueue cd job_id response = (\<lambda>(s, m).
     let r = \<lparr>rp_id = job_id, rp_value = encode_response cd response\<rparr>;
         m = m\<lparr>m_responses := (m_responses m)[response_slot (sv_response_tail s) := r]\<rparr>;
         s = s\<lparr>sv_response_tail := sv_response_tail s + 1\<rparr>
     in (s, m\<lparr>m_response_tail := sv_response_tail s\<rparr>))"

definition server_try_enqueue ::
  "('a, 'v) raw_codec \<Rightarrow> 'j \<Rightarrow> StResponse \<Rightarrow> ServerQueue \<times> ('a, 'v, 'j) queue_mem
    \<Rightarrow> Full + (ServerQueue \<times> ('a, 'v, 'j) queue_mem)" where
  "server_try_enqueue cd job_id response = (\<lambda>(s, m).
     if m_response_head m \<noteq> sv_response_tail s - (RESPONSES_MASK + 1)
     then Inr (server_enqueue cd job_id response (s, m)) else Inl Full)"

definition server_dequeue ::
  "('a, 'v) raw_codec \<Rightarrow> ServerQueue \<times> ('a, 'v, 'j) queue_mem
    \<Rightarrow> ((u32 \<times> 'j \<times> StRequest) option \<times> ServerQueue \<times> ('a, 'v, 'j) queue_mem) panics" where
  "server_dequeue cd = (\<lambda>(s, m).
     if m_request_tail m \<noteq> sv_request_head s then
       (let r = m_requests m ! request_slot (sv_request_head s);
            s = s\<lparr>sv_request_head := sv_request_head s + 1\<rparr>;
            m = m\<lparr>m_request_head := sv_request_head s\<rparr>
        in case rr_ty r of
             None \<Rightarrow> None
           | Some ty \<Rightarrow> Some (Some (rr_handle r, rr_id r, decode_request cd ty (rr_args r)), s, m))
     else Some (None, s, m))"

section \<open>Operations of the client\<close>

definition client_enqueue ::
  "('a, 'v) raw_codec \<Rightarrow> u32 \<Rightarrow> 'j \<Rightarrow> StRequest \<Rightarrow> ClientQueue \<times> ('a, 'v, 'j) queue_mem
    \<Rightarrow> ClientQueue \<times> ('a, 'v, 'j) queue_mem" where
  "client_enqueue cd hnd job_id request = (\<lambda>(c, m).
     let (ty, v) = encode_request cd request;
         r = \<lparr>rr_ty = Some ty, rr_id = job_id, rr_handle = hnd, rr_args = v\<rparr>;
         m = m\<lparr>m_requests := (m_requests m)[request_slot (cq_request_tail c) := r]\<rparr>;
         c = c\<lparr>cq_request_tail := cq_request_tail c + 1\<rparr>
     in (c, m\<lparr>m_request_tail := cq_request_tail c\<rparr>))"

definition client_try_enqueue ::
  "('a, 'v) raw_codec \<Rightarrow> u32 \<Rightarrow> 'j \<Rightarrow> StRequest \<Rightarrow> ClientQueue \<times> ('a, 'v, 'j) queue_mem
    \<Rightarrow> Full + (ClientQueue \<times> ('a, 'v, 'j) queue_mem)" where
  "client_try_enqueue cd hnd job_id request = (\<lambda>(c, m).
     if m_request_head m \<noteq> cq_request_tail c - (REQUESTS_MASK + 1)
     then Inr (client_enqueue cd hnd job_id request (c, m)) else Inl Full)"

definition requests_enqueued :: "ClientQueue \<times> ('a, 'v, 'j) queue_mem \<Rightarrow> u32" where
  "requests_enqueued = (\<lambda>(c, m). cq_request_tail c - m_request_head m)"

definition client_dequeue ::
  "('a, 'v) raw_codec \<Rightarrow> ClientQueue \<times> ('a, 'v, 'j) queue_mem
    \<Rightarrow> ('j \<times> u64) option \<times> ClientQueue \<times> ('a, 'v, 'j) queue_mem" where
  "client_dequeue cd = (\<lambda>(c, m).
     if m_response_tail m \<noteq> cq_response_head c then
       (let r = m_responses m ! response_slot (cq_response_head c);
            c = c\<lparr>cq_response_head := cq_response_head c + 1\<rparr>
        in (Some (rp_id r, get_raw cd (rp_value r)), c, m\<lparr>m_response_head := cq_response_head c\<rparr>))
     else (None, c, m))"

text \<open>\<open>AnyResponse\<close>: the error is the low 16 bits of the value.\<close>

definition any_response_get :: "u64 \<Rightarrow> 16 word + u64" where
  "any_response_get v = (if v < (- 1) AND NOT 4095 then Inr v else Inl (ucast v))"

definition any_response_as_slice :: "('a, 'v) raw_codec \<Rightarrow> u64 \<Rightarrow> 16 word + Slice" where
  "any_response_as_slice cd v = map_sum id (slice_from_raw cd) (any_response_get v)"

section \<open>The queues as lists\<close>

lemma masks [simp]: "REQUESTS_MASK = mask 7" "RESPONSES_MASK = mask 7"
  by (simp_all add: REQUESTS_MASK_def RESPONSES_MASK_def mask_eq_exp_minus_1)

lemma decode_encode [simp]:
  "codec_ok cd \<Longrightarrow> decode_request cd (fst (encode_request cd r)) (snd (encode_request cd r)) = r"
  by (cases "(cd, r)" rule: encode_request.cases) (simp_all add: codec_ok_def)

text \<open>The 64-bit view of a response.\<close>

fun response_raw :: "StResponse \<Rightarrow> u64" where
  "response_raw (StError e) = e"
| "response_raw (StPosition p) = p"
| "response_raw (StHandle h) = ucast h"
| "response_raw (StAmount a) = ucast a"
| "response_raw (StRaw a) = a"
| "response_raw (StSlice s) = ucast (sl_offset s) OR push_bit 32 (ucast (sl_length s))"
| "response_raw (StShared h) = push_bit 32 1 OR ucast h"

lemma raw_encode [simp]: "codec_ok cd \<Longrightarrow> get_raw cd (encode_response cd r) = response_raw r"
  by (cases r) (simp_all add: codec_ok_def)

definition request_of :: "('a, 'v) raw_codec \<Rightarrow> ('a, 'j) RawRequest \<Rightarrow> u32 \<times> 'j \<times> StRequest" where
  "request_of cd r = (rr_handle r, rr_id r, decode_request cd (the (rr_ty r)) (rr_args r))"

definition response_of :: "('a, 'v) raw_codec \<Rightarrow> ('v, 'j) RawResponse \<Rightarrow> 'j \<times> u64" where
  "response_of cd r = (rp_id r, get_raw cd (rp_value r))"

type_synonym ('a, 'v, 'j) stream = "ClientQueue \<times> ServerQueue \<times> ('a, 'v, 'j) queue_mem"

definition raw_requests :: "('a, 'v, 'j) stream \<Rightarrow> ('a, 'j) RawRequest list" where
  "raw_requests = (\<lambda>(c, s, m). contents (sv_request_head s) (cq_request_tail c) (m_requests m))"

definition stream_requests :: "('a, 'v) raw_codec \<Rightarrow> ('a, 'v, 'j) stream \<Rightarrow> (u32 \<times> 'j \<times> StRequest) list" where
  "stream_requests cd st = map (request_of cd) (raw_requests st)"

definition stream_responses :: "('a, 'v) raw_codec \<Rightarrow> ('a, 'v, 'j) stream \<Rightarrow> ('j \<times> u64) list" where
  "stream_responses cd = (\<lambda>(c, s, m).
     map (response_of cd) (contents (cq_response_head c) (sv_response_tail s) (m_responses m)))"

text \<open>Both sides have published their indices, and what is in the request ring has a type.\<close>

definition stream_ok :: "('a, 'v, 'j) stream \<Rightarrow> bool" where
  "stream_ok = (\<lambda>(c, s, m).
     m_request_tail m = cq_request_tail c \<and> m_request_head m = sv_request_head s
   \<and> m_response_tail m = sv_response_tail s \<and> m_response_head m = cq_response_head c
   \<and> ring_ok 7 (sv_request_head s) (cq_request_tail c) (m_requests m)
   \<and> ring_ok 7 (cq_response_head c) (sv_response_tail s) (m_responses m)
   \<and> (\<forall>r \<in> set (raw_requests (c, s, m)). rr_ty r \<noteq> None))"

lemmas stream_defs = stream_ok_def raw_requests_def stream_requests_def stream_responses_def
  request_slot_def response_slot_def

lemma slot_free: "(h :: u32) \<noteq> t - (mask 7 + 1) \<longleftrightarrow> unat (t - h) \<noteq> 2 ^ 7"
  using ring_full_iff [of 7 h t] by (auto simp: algebra_simps)

lemma client_enqueue_room:
  assumes "codec_ok cd" and "stream_ok (c, s, m)" and "length (raw_requests (c, s, m)) \<noteq> 128"
  obtains c' m' where "client_try_enqueue cd h j r (c, m) = Inr (c', m')" and "stream_ok (c', s, m')"
    and "stream_requests cd (c', s, m') = stream_requests cd (c, s, m) @ [(h, j, r)]"
    and "stream_responses cd (c', s, m') = stream_responses cd (c, s, m)"
proof -
  obtain ty v where e: "encode_request cd r = (ty, v)" by (cases "encode_request cd r")
  let ?q = "\<lparr>rr_ty = Some ty, rr_id = j, rr_handle = h, rr_args = v\<rparr>"
  let ?t = "cq_request_tail c" let ?h = "sv_request_head s"
  let ?es = "(m_requests m)[unat (?t AND mask 7) := ?q]"
  let ?c = "c\<lparr>cq_request_tail := ?t + 1\<rparr>" let ?m = "m\<lparr>m_requests := ?es, m_request_tail := ?t + 1\<rparr>"
  have ring: "ring_ok 7 ?h ?t (m_requests m)" using assms(2) by (simp add: stream_ok_def)
  have less: "unat (?t - ?h) < 2 ^ 7" using assms(3) ring by (simp add: raw_requests_def ring_ok_def)
  note w = enqueue_ok [OF ring less, of ?q]
  have dec: "request_of cd ?q = (h, j, r)"
    using decode_encode [OF assms(1), of r] by (simp add: request_of_def e)
  have "client_try_enqueue cd h j r (c, m) = Inr (?c, ?m)"
    using less slot_free [of ?h ?t] assms(2)
    by (simp add: client_try_enqueue_def client_enqueue_def e request_slot_def stream_ok_def)
  moreover have "raw_requests (?c, s, ?m) = raw_requests (c, s, m) @ [?q]"
    using w(3) by (simp add: raw_requests_def)
  moreover from this have "stream_ok (?c, s, ?m)"
    using assms(2) w(2) unfolding stream_ok_def by simp
  ultimately show thesis
    using dec by (intro that [of ?c ?m]) (simp_all add: stream_requests_def stream_responses_def)
qed

lemma client_enqueue_full:
  assumes "stream_ok (c, s, m)" and "length (raw_requests (c, s, m)) = 128"
  shows "client_try_enqueue cd h j r (c, m) = Inl Full"
  using assms slot_free [of "sv_request_head s" "cq_request_tail c"]
  by (simp add: client_try_enqueue_def stream_ok_def raw_requests_def)

lemma server_dequeue_cons:
  assumes "stream_ok (c, s, m)" and "stream_requests cd (c, s, m) = x # xs"
  obtains s' m' where "server_dequeue cd (s, m) = Some (Some x, s', m')" and "stream_ok (c, s', m')"
    and "stream_requests cd (c, s', m') = xs"
    and "stream_responses cd (c, s', m') = stream_responses cd (c, s, m)"
    and "sv_response_tail s' = sv_response_tail s"
proof -
  let ?t = "cq_request_tail c" let ?h = "sv_request_head s"
  let ?s = "s\<lparr>sv_request_head := ?h + 1\<rparr>" let ?m = "m\<lparr>m_request_head := ?h + 1\<rparr>"
  have ring: "ring_ok 7 ?h ?t (m_requests m)" using assms(1) by (simp add: stream_ok_def)
  have ne: "?h \<noteq> ?t" using assms(2) by (auto simp: stream_requests_def raw_requests_def contents_def)
  note d = contents_nonempty [OF ring ne]
  let ?r = "m_requests m ! unat (?h AND mask 7)"
  have raw: "raw_requests (c, s, m) = ?r # raw_requests (c, ?s, ?m)"
    using d(1) by (simp add: raw_requests_def)
  then obtain ty where ty: "rr_ty ?r = Some ty" using assms(1) by (auto simp: stream_ok_def)
  have x: "x = request_of cd ?r" "stream_requests cd (c, ?s, ?m) = xs"
    using assms(2) raw by (simp_all add: stream_requests_def)
  have "server_dequeue cd (s, m) = Some (Some x, ?s, ?m)"
    using ne assms(1) ty x(1) by (simp add: server_dequeue_def stream_ok_def request_slot_def request_of_def Let_def)
  moreover have "stream_ok (c, ?s, ?m)" using assms(1) d(2) raw unfolding stream_ok_def by simp
  ultimately show thesis
    using x by (intro that [of ?s ?m]) (simp_all add: stream_responses_def)
qed

lemma server_dequeue_nil:
  assumes "stream_ok (c, s, m)" and "stream_requests cd (c, s, m) = []"
  shows "server_dequeue cd (s, m) = Some (None, s, m)"
  using assms ring_empty_iff [of "sv_request_head s" "cq_request_tail c"]
  by (simp add: server_dequeue_def stream_ok_def stream_requests_def raw_requests_def contents_def)

lemma server_enqueue_room:
  assumes "codec_ok cd" and "stream_ok (c, s, m)" and "length (stream_responses cd (c, s, m)) \<noteq> 128"
  obtains s' m' where "server_try_enqueue cd j r (s, m) = Inr (s', m')" and "stream_ok (c, s', m')"
    and "stream_responses cd (c, s', m') = stream_responses cd (c, s, m) @ [(j, response_raw r)]"
    and "stream_requests cd (c, s', m') = stream_requests cd (c, s, m)"
    and "sv_request_head s' = sv_request_head s"
proof -
  let ?q = "\<lparr>rp_id = j, rp_value = encode_response cd r\<rparr>"
  let ?t = "sv_response_tail s" let ?h = "cq_response_head c"
  let ?es = "(m_responses m)[unat (?t AND mask 7) := ?q]"
  let ?s = "s\<lparr>sv_response_tail := ?t + 1\<rparr>" let ?m = "m\<lparr>m_responses := ?es, m_response_tail := ?t + 1\<rparr>"
  have ring: "ring_ok 7 ?h ?t (m_responses m)" using assms(2) by (simp add: stream_ok_def)
  have less: "unat (?t - ?h) < 2 ^ 7" using assms(3) ring by (simp add: stream_responses_def ring_ok_def)
  note w = enqueue_ok [OF ring less, of ?q]
  have "server_try_enqueue cd j r (s, m) = Inr (?s, ?m)"
    using less slot_free [of ?h ?t] assms(2)
    by (simp add: server_try_enqueue_def server_enqueue_def response_slot_def stream_ok_def)
  moreover have "stream_responses cd (c, ?s, ?m) = stream_responses cd (c, s, m) @ [(j, response_raw r)]"
    using w(3) assms(1) by (simp add: stream_responses_def response_of_def)
  moreover have "raw_requests (c, ?s, ?m) = raw_requests (c, s, m)" by (simp add: raw_requests_def)
  moreover from this have "stream_ok (c, ?s, ?m)"
    using assms(2) w(2) unfolding stream_ok_def by simp
  ultimately show thesis by (intro that [of ?s ?m]) (simp_all add: stream_requests_def)
qed

lemma server_enqueue_full:
  assumes "stream_ok (c, s, m)" and "length (stream_responses cd (c, s, m)) = 128"
  shows "server_try_enqueue cd j r (s, m) = Inl Full"
  using assms slot_free [of "cq_response_head c" "sv_response_tail s"]
  by (simp add: server_try_enqueue_def stream_ok_def stream_responses_def)

lemma client_dequeue_cons:
  assumes "stream_ok (c, s, m)" and "stream_responses cd (c, s, m) = x # xs"
  obtains c' m' where "client_dequeue cd (c, m) = (Some x, c', m')" and "stream_ok (c', s, m')"
    and "stream_responses cd (c', s, m') = xs"
    and "stream_requests cd (c', s, m') = stream_requests cd (c, s, m)"
    and "cq_request_tail c' = cq_request_tail c"
proof -
  let ?t = "sv_response_tail s" let ?h = "cq_response_head c"
  let ?c = "c\<lparr>cq_response_head := ?h + 1\<rparr>" let ?m = "m\<lparr>m_response_head := ?h + 1\<rparr>"
  have ring: "ring_ok 7 ?h ?t (m_responses m)" using assms(1) by (simp add: stream_ok_def)
  have ne: "?h \<noteq> ?t" using assms(2) by (auto simp: stream_responses_def contents_def)
  note d = contents_nonempty [OF ring ne]
  have "client_dequeue cd (c, m) = (Some x, ?c, ?m)" and "stream_responses cd (c, s, m) = x # stream_responses cd (?c, s, ?m)"
    using ne assms d(1)
    by (simp_all add: client_dequeue_def Let_def stream_ok_def response_slot_def response_of_def stream_responses_def)
  moreover have "raw_requests (?c, s, ?m) = raw_requests (c, s, m)" by (simp add: raw_requests_def)
  moreover from this have "stream_ok (?c, s, ?m)" using assms(1) d(2) unfolding stream_ok_def by simp
  ultimately show thesis using assms(2) by (intro that [of ?c ?m]) (simp_all add: stream_requests_def)
qed

lemma client_dequeue_nil:
  assumes "stream_ok (c, s, m)" and "stream_responses cd (c, s, m) = []"
  shows "client_dequeue cd (c, m) = (None, c, m)"
  using assms ring_empty_iff [of "cq_response_head c" "sv_response_tail s"]
  by (simp add: client_dequeue_def stream_ok_def stream_responses_def contents_def)

lemma requests_enqueued_length:
  "stream_ok (c, s, m) \<Longrightarrow> unat (requests_enqueued (c, m)) = length (stream_requests cd (c, s, m))"
  by (simp add: requests_enqueued_def stream_requests_def raw_requests_def stream_ok_def)

section \<open>The request queue\<close>

text \<open>The request ring as a provider of the interface of bounded queues.\<close>

definition send_request :: "('a, 'v) raw_codec \<Rightarrow> ('a, 'v, 'j) stream \<Rightarrow> u32 \<times> 'j \<times> StRequest
    \<Rightarrow> Full + ('a, 'v, 'j) stream" where
  "send_request cd = (\<lambda>(c, s, m) (h, j, r).
     map_sum id (\<lambda>(c, m). (c, s, m)) (client_try_enqueue cd h j r (c, m)))"

definition receive_request :: "('a, 'v) raw_codec \<Rightarrow> ('a, 'v, 'j) stream
    \<Rightarrow> Empty + ((u32 \<times> 'j \<times> StRequest) \<times> ('a, 'v, 'j) stream)" where
  "receive_request cd = (\<lambda>(c, s, m).
     case server_dequeue cd (s, m) of
       Some (Some x, s, m) \<Rightarrow> Inr (x, c, s, m)
     | _ \<Rightarrow> Inl Empty)"

interpretation sreq: bounded_fifo "\<lambda>st. codec_ok cd \<and> stream_ok st" "\<lambda>_. 128"
    "stream_requests cd :: ('a, 'v, 'j) stream \<Rightarrow> _" "send_request cd" "receive_request cd"
    for cd :: "('a, 'v) raw_codec"
proof
  fix st :: "('a, 'v, 'j) stream" and e :: "u32 \<times> 'j \<times> StRequest" and es
  assume a: "codec_ok cd \<and> stream_ok st"
  obtain c s m where st: "st = (c, s, m)" by (cases st)
  obtain h j r where e: "e = (h, j, r)" by (cases e)
  have len: "length (stream_requests cd st) = length (raw_requests st)" by (simp add: stream_requests_def)
  show "length (stream_requests cd st) \<le> 128"
    using a by (simp add: st stream_requests_def raw_requests_def stream_ok_def ring_ok_def)
  show "send_request cd st e = Inl Full" if "length (stream_requests cd st) = 128"
    using client_enqueue_full [of c s m cd h j r] a that len by (simp add: st e send_request_def)
  show "\<exists>st'. send_request cd st e = Inr st' \<and> (codec_ok cd \<and> stream_ok st') \<and> (128 :: nat) = 128
      \<and> stream_requests cd st' = stream_requests cd st @ [e]" if "length (stream_requests cd st) \<noteq> 128"
    using client_enqueue_room [of cd c s m h j r] a that len
    by (fastforce simp add: st e send_request_def)
  show "receive_request cd st = Inl Empty" if "stream_requests cd st = []"
    using server_dequeue_nil [of c s m cd] a that by (simp add: st receive_request_def)
  show "\<exists>st'. receive_request cd st = Inr (e, st') \<and> (codec_ok cd \<and> stream_ok st') \<and> (128 :: nat) = 128
      \<and> stream_requests cd st' = es" if "stream_requests cd st = e # es"
    using server_dequeue_cons [of c s m cd e es] a that
    by (fastforce simp add: st receive_request_def)
qed

section \<open>Answers\<close>

text \<open>What the client sees of a response: errors are the last 4096 values.\<close>

lemma any_response_get_cases:
  "any_response_get v = (if uint v < 2 ^ 64 - 4096 then Inr v else Inl (ucast v))"
proof -
  have "(- 1 :: u64) AND NOT 4095 = 0xFFFFFFFFFFFFF000" by simp
  then show ?thesis by (simp add: any_response_get_def word_less_def)
qed

lemma any_response_ucast [simp]: "any_response_get (ucast (h :: u32)) = Inr (ucast h)"
proof -
  have "uint (ucast h :: u64) < 2 ^ 32"
    using uint_lt2p [of h] by (simp add: unsigned_ucast_eq take_bit_eq_mod)
  then show ?thesis by (simp add: any_response_get_cases)
qed

end
