(* ===== verification/Streaming.thy ===== *)
theory Streaming
  imports Stream_Queue Ticket Arena
begin

text \<open>
  Streaming tables, \<open>kernel/src/object_table/streaming.rs\<close>: the kernel's side of objects that another
  program provides. The state holds the fields of the table, the memory shared with the server (the
  queue and the buffers with the head of their free stack), and the ticket stores of the three kinds
  of jobs. \<open>ks_alive\<close> tells whether the weak references to the table can still be upgraded. The job
  identifiers of the generated interface are a parameter: \<open>jnew\<close> makes one from an arena index and
  \<open>jget\<close> reads it; they hold 24 bits.
\<close>

section \<open>State\<close>

datatype 'o Obj = NotifyObj | StreamObj u32 | OtherObj 'o

datatype AnyTicketWaker = WObject ticket | WU64 ticket | WData ticket

record ('a, 'v, 'j, 'o) kstate =
  ks_alive :: bool
  ks_jobs :: "(AnyTicketWaker, unit) arena"
  ks_shared :: "('o Obj, unit) arena option"
  ks_queue :: ClientQueue
  ks_buffers :: Buffers
  ks_wait_read :: "ticket list"
  ks_max_request_mem :: u32
  ks_share_out :: "('o Obj, unit) arena"
  ks_mem :: "('a, 'v, 'j) queue_mem"
  ks_buf :: buf_state
  ks_obj :: "'o Obj tickets"
  ks_data :: "u8 list tickets"
  ks_u64 :: "u64 tickets"

record ('a, 'v, 'j) id_codec =
  jnew :: "nat \<Rightarrow> 'j option"
  jget :: "'j \<Rightarrow> nat"
  jdefault :: 'j
  jraw :: "('a, 'v) raw_codec"

definition ids_ok :: "('a, 'v, 'j) id_codec \<Rightarrow> bool" where
  "ids_ok ic \<longleftrightarrow> codec_ok (jraw ic) \<and> (\<forall>n < 2 ^ 24. \<exists>j. jnew ic n = Some j \<and> jget ic j = n)"

datatype NewStreamingTableError = NstAlloc | NstMap | BlockSizeTooLarge

section \<open>Creation\<close>

text \<open>
  \<open>new_table\<close> takes the size of the buffer memory in pages and what the allocation and the two mappings
  answer: the fresh queue page, and the number of bytes of the mapped buffers with their contents.
\<close>

definition new_table ::
  "bool \<Rightarrow> nat \<Rightarrow> Pow2Size \<Rightarrow> u32 \<Rightarrow> NewStreamingTableError + ('a, 'v, 'j) queue_mem
    \<Rightarrow> NewStreamingTableError + (nat \<times> buf_mem) \<Rightarrow> 'o Obj tickets \<Rightarrow> u8 list tickets \<Rightarrow> u64 tickets
    \<Rightarrow> (NewStreamingTableError + ('a, 'v, 'j, 'o) kstate) panics" where
  "new_table allow_sharing pages block max_request_mem qmem bmem ot dt ut =
     (case p2s_try_into block :: unit + u32 of
        Inl _ \<Rightarrow> Some (Inl BlockSizeTooLarge)
      | Inr bs \<Rightarrow>
          if unat bs \<le> pages * 4096 then
            case qmem of
              Inl e \<Rightarrow> Some (Inl e)
            | Inr mem \<Rightarrow>
                (case bmem of
                   Inl e \<Rightarrow> Some (Inl e)
                 | Inr (sz, bytes) \<Rightarrow>
                     do { assert (sz \<noteq> 0);
                          Some (Inr \<lparr>ks_alive = True, ks_jobs = arena_default (),
                            ks_shared = (if allow_sharing then Some (arena_default ()) else None),
                            ks_queue = client_new,
                            ks_buffers = \<lparr>total_size = sz, block_size = unat bs\<rparr>,
                            ks_wait_read = [], ks_max_request_mem = max_request_mem,
                            ks_share_out = arena_default (), ks_mem = mem, ks_buf = (- 1, bytes),
                            ks_obj = ot, ks_data = dt, ks_u64 = ut\<rparr>) })
          else Some (Inl BlockSizeTooLarge))"

section \<open>Jobs\<close>

definition wake_readers :: "('a, 'v, 'j, 'o) kstate \<Rightarrow> ('a, 'v, 'j, 'o) kstate" where
  "wake_readers s =
     (if ks_wait_read s = [] then s
      else s\<lparr>ks_wait_read := butlast (ks_wait_read s),
             ks_data := complete (last (ks_wait_read s)) (Inr []) (ks_data s)\<rparr>)"

text \<open>
  \<open>submit_job\<close> after the ticket is made: \<open>w\<close> is its waker and \<open>f\<close> the closure that makes the request.
  The closure runs inside the insertion, which has chosen the handle by then.
\<close>

definition submit_job ::
  "('a, 'v, 'j) id_codec \<Rightarrow> u32 \<Rightarrow> AnyTicketWaker
    \<Rightarrow> (('a, 'v, 'j, 'o) kstate \<Rightarrow> (StRequest \<times> ('a, 'v, 'j, 'o) kstate) panics)
    \<Rightarrow> ('a, 'v, 'j, 'o) kstate \<Rightarrow> ('a, 'v, 'j, 'o) kstate panics" where
  "submit_job ic hnd w f s =
     do { (h, jobs) \<leftarrow> insert increment_unit w (ks_jobs s);
          (r, s) \<leftarrow> f s;
          j \<leftarrow> jnew ic (fst (into_raw h));
          case client_try_enqueue (jraw ic) hnd j r (ks_queue s, ks_mem s) of
            Inl _ \<Rightarrow> None
          | Inr (q, mem) \<Rightarrow> Some (wake_readers (s\<lparr>ks_jobs := jobs, ks_queue := q, ks_mem := mem\<rparr>)) }"

fun scatter_loop :: "Buffers \<Rightarrow> Data \<Rightarrow> nat \<Rightarrow> nat \<Rightarrow> u8 list list \<Rightarrow> buf_mem \<Rightarrow> buf_mem panics" where
  "scatter_loop B d offt n [] m = Some m"
| "scatter_loop B d offt n (x # xs) m =
     (let x = take (min n (length x)) x in
      do { m \<leftarrow> data_copy_from B d offt x m;
           if n - length x = 0 then Some m
           else scatter_loop B d (offt + length x) (n - length x) xs m })"

definition copy_data_from_scatter ::
  "u8 list list \<Rightarrow> ('a, 'v, 'j, 'o) kstate \<Rightarrow> (Slice \<times> ('a, 'v, 'j, 'o) kstate) panics" where
  "copy_data_from_scatter dat s =
     (let n = min (sum_list (map length dat)) (unat (ks_max_request_mem s) + 1) in
      do { (d, head, m) \<leftarrow> alloc (ks_buffers s) n (ks_buf s);
           d \<leftarrow> d;
           m \<leftarrow> scatter_loop (ks_buffers s) d 0 n dat m;
           assert (d_len d < 2 ^ 32);
           Some (\<lparr>sl_offset = d_offset d, sl_length = of_nat (d_len d)\<rparr>, s\<lparr>ks_buf := (head, m)\<rparr>) })"

definition copy_data_from ::
  "u8 list \<Rightarrow> ('a, 'v, 'j, 'o) kstate \<Rightarrow> (Slice \<times> ('a, 'v, 'j, 'o) kstate) panics" where
  "copy_data_from dat s = copy_data_from_scatter [dat] s"

section \<open>Responses\<close>

fun waker_complete_err :: "AnyTicketWaker \<Rightarrow> Error \<Rightarrow> ('a, 'v, 'j, 'o) kstate \<Rightarrow> ('a, 'v, 'j, 'o) kstate" where
  "waker_complete_err (WObject t) e s = s\<lparr>ks_obj := complete t (Inl e) (ks_obj s)\<rparr>"
| "waker_complete_err (WU64 t) e s = s\<lparr>ks_u64 := complete t (Inl e) (ks_u64 s)\<rparr>"
| "waker_complete_err (WData t) e s = s\<lparr>ks_data := complete t (Inl e) (ks_data s)\<rparr>"

text \<open>The body of the loop of \<open>process_responses\<close> once the job is found.\<close>

definition answer_job ::
  "('a, 'v) raw_codec \<Rightarrow> AnyTicketWaker \<Rightarrow> u64 \<Rightarrow> ('a, 'v, 'j, 'o) kstate \<Rightarrow> ('a, 'v, 'j, 'o) kstate panics" where
  "answer_job cd job resp s =
     (case any_response_get resp of
        Inl e \<Rightarrow> Some (waker_complete_err job (error_from e) s)
      | Inr v \<Rightarrow>
          (case job of
             WObject t \<Rightarrow>
               if v AND push_bit 32 1 \<noteq> 0 then
                 do { (obj, so) \<leftarrow> remove (from_raw (unat (ucast v :: u32)) ()) (ks_share_out s);
                      obj \<leftarrow> obj;
                      Some (s\<lparr>ks_share_out := so, ks_obj := complete t (Inr obj) (ks_obj s)\<rparr>) }
               else Some (s\<lparr>ks_obj := complete t (Inr (StreamObj (ucast v))) (ks_obj s)\<rparr>)
           | WData t \<Rightarrow>
               (case any_response_as_slice cd resp of
                  Inl _ \<Rightarrow> None
                | Inr sl \<Rightarrow>
                    do { buf \<leftarrow> get_data (ks_buffers s) sl;
                         b \<leftarrow> data_copy_to (ks_buffers s) buf 0 (d_len buf) (snd (ks_buf s));
                         st \<leftarrow> manual_drop (ks_buffers s) buf (ks_buf s);
                         Some (s\<lparr>ks_buf := st, ks_data := complete t (Inr b) (ks_data s)\<rparr>) })
           | WU64 t \<Rightarrow> Some (s\<lparr>ks_u64 := complete t (Inr v) (ks_u64 s)\<rparr>)))"

partial_function (option) process_responses ::
  "('a, 'v, 'j) id_codec \<Rightarrow> ('a, 'v, 'j, 'o) kstate \<Rightarrow> ('a, 'v, 'j, 'o) kstate panics" where
  "process_responses ic s =
     (case client_dequeue (jraw ic) (ks_queue s, ks_mem s) of
        (None, q, mem) \<Rightarrow> Some (s\<lparr>ks_queue := q, ks_mem := mem\<rparr>)
      | (Some (job_id, resp), q, mem) \<Rightarrow>
          do { (job, jobs) \<leftarrow> remove (from_raw (jget ic job_id) ()) (ks_jobs s);
               job \<leftarrow> job;
               s \<leftarrow> answer_job (jraw ic) job resp (s\<lparr>ks_queue := q, ks_mem := mem, ks_jobs := jobs\<rparr>);
               process_responses ic s })"

section \<open>The table as an object\<close>

definition answer_obj ::
  "Error + 'o Obj \<Rightarrow> ('a, 'v, 'j, 'o) kstate \<Rightarrow> ticket \<times> ('a, 'v, 'j, 'o) kstate" where
  "answer_obj r s = (let (t, T) = ticket_new_complete r (ks_obj s) in (t, s\<lparr>ks_obj := T\<rparr>))"

definition answer_u64 ::
  "Error + u64 \<Rightarrow> ('a, 'v, 'j, 'o) kstate \<Rightarrow> ticket \<times> ('a, 'v, 'j, 'o) kstate" where
  "answer_u64 r s = (let (t, T) = ticket_new_complete r (ks_u64 s) in (t, s\<lparr>ks_u64 := T\<rparr>))"

definition answer_data ::
  "Error + u8 list \<Rightarrow> ('a, 'v, 'j, 'o) kstate \<Rightarrow> ticket \<times> ('a, 'v, 'j, 'o) kstate" where
  "answer_data r s = (let (t, T) = ticket_new_complete r (ks_data s) in (t, s\<lparr>ks_data := T\<rparr>))"

definition bytes_of :: "string \<Rightarrow> u8 list" where
  "bytes_of = map (\<lambda>c. of_nat (of_char c))"

definition table_open ::
  "u8 list \<Rightarrow> ('a, 'v, 'j, 'o) kstate \<Rightarrow> (ticket \<times> ('a, 'v, 'j, 'o) kstate) panics" where
  "table_open path s =
     (if path = bytes_of ''notify'' then Some (answer_obj (Inr NotifyObj) s)
      else if path = bytes_of ''public'' then Some (answer_obj (Inr (StreamObj (- 1))) s)
      else if length path = 4 then
        (case ks_shared s of
           None \<Rightarrow> Some (answer_obj (Inl DoesNotExist) s)
         | Some sh \<Rightarrow>
             do { (obj, sh) \<leftarrow> remove (from_raw (unat (from_le_bytes path)) ()) sh;
                  Some (answer_obj (case obj of None \<Rightarrow> Inl DoesNotExist | Some obj \<Rightarrow> Inr obj)
                    (s\<lparr>ks_shared := Some sh\<rparr>)) })
      else Some (answer_obj (Inl InvalidData) s))"

definition table_share ::
  "'o Obj \<Rightarrow> ('a, 'v, 'j, 'o) kstate \<Rightarrow> (ticket \<times> ('a, 'v, 'j, 'o) kstate) panics" where
  "table_share obj s =
     do { (h, so) \<leftarrow> insert increment_unit obj (ks_share_out s);
          Some (answer_u64 (Inr (of_nat (fst (into_raw h)))) (s\<lparr>ks_share_out := so\<rparr>)) }"

text \<open>Dropping the table cancels all jobs.\<close>

definition drop_table :: "('a, 'v, 'j, 'o) kstate \<Rightarrow> ('a, 'v, 'j, 'o) kstate" where
  "drop_table s =
     (let (tasks, jobs) = drain (ks_jobs s) in
      fold (\<lambda>(_, task). waker_complete_err task Cancelled) tasks (s\<lparr>ks_jobs := jobs, ks_alive := False\<rparr>))"

section \<open>Stream objects\<close>

text \<open>\<open>with_table\<close> with \<open>submit_job\<close>, for the three kinds of tickets.\<close>

definition submit_obj where
  "submit_obj ic hnd f s =
     (if ks_alive s then
        (let (t, T) = ticket_new (ks_obj s) in
         do { s \<leftarrow> submit_job ic hnd (WObject t) f (s\<lparr>ks_obj := T\<rparr>); Some (t, s) })
      else Some (answer_obj (Inl Cancelled) s))"

definition submit_u64 where
  "submit_u64 ic hnd f s =
     (if ks_alive s then
        (let (t, T) = ticket_new (ks_u64 s) in
         do { s \<leftarrow> submit_job ic hnd (WU64 t) f (s\<lparr>ks_u64 := T\<rparr>); Some (t, s) })
      else Some (answer_u64 (Inl Cancelled) s))"

definition submit_data where
  "submit_data ic hnd f s =
     (if ks_alive s then
        (let (t, T) = ticket_new (ks_data s) in
         do { s \<leftarrow> submit_job ic hnd (WData t) f (s\<lparr>ks_data := T\<rparr>); Some (t, s) })
      else Some (answer_data (Inl Cancelled) s))"

text \<open>The closures of the operations.\<close>

definition with_slice ::
  "(Slice \<Rightarrow> StRequest) \<Rightarrow> u8 list list \<Rightarrow> ('a, 'v, 'j, 'o) kstate
    \<Rightarrow> (StRequest \<times> ('a, 'v, 'j, 'o) kstate) panics" where
  "with_slice mk dat s = do { (sl, s) \<leftarrow> copy_data_from_scatter dat s; Some (mk sl, s) }"

definition plain ::
  "StRequest \<Rightarrow> ('a, 'v, 'j, 'o) kstate \<Rightarrow> (StRequest \<times> ('a, 'v, 'j, 'o) kstate) panics" where
  "plain r s = Some (r, s)"

definition stream_open where
  "stream_open ic hnd path s = submit_obj ic hnd (with_slice StOpen [path]) s"

definition stream_create where
  "stream_create ic hnd path s = submit_obj ic hnd (with_slice StCreate [path]) s"

definition stream_destroy where
  "stream_destroy ic hnd path s = submit_u64 ic hnd (with_slice StDestroy [path]) s"

definition stream_read where
  "stream_read ic hnd n s =
     submit_data ic hnd (plain (StRead (if n < 2 ^ 32 then of_nat n else - 1))) s"

definition stream_write where
  "stream_write ic hnd dat s = submit_u64 ic hnd (with_slice StWrite [dat]) s"

definition stream_get_meta where
  "stream_get_meta ic hnd property s = submit_data ic hnd (with_slice StGetMeta [property]) s"

text \<open>A \<open>TinySlice\<close> is at most 255 bytes long, so that its length fits a byte.\<close>

definition stream_set_meta where
  "stream_set_meta ic hnd property val s =
     submit_u64 ic hnd (with_slice StSetMeta [[of_nat (length property)], property, val]) s"

fun seek_into_stream :: "SeekFrom \<Rightarrow> StSeekFrom" where
  "seek_into_stream (Start n) = StStart n"
| "seek_into_stream (Current n) = StCurrent n"
| "seek_into_stream (End n) = StEnd n"

definition stream_seek where
  "stream_seek ic hnd frm s = submit_u64 ic hnd (plain (StSeek (seek_into_stream frm))) s"

definition share_closure ::
  "'o Obj \<Rightarrow> ('o Obj, unit) arena \<Rightarrow> ('a, 'v, 'j, 'o) kstate
    \<Rightarrow> (StRequest \<times> ('a, 'v, 'j, 'o) kstate) panics" where
  "share_closure obj sh s =
     do { (h, sh) \<leftarrow> insert increment_unit obj sh;
          assert (fst (into_raw h) < 2 ^ 32);
          Some (StShare (of_nat (fst (into_raw h))), s\<lparr>ks_shared := Some sh\<rparr>) }"

definition stream_share where
  "stream_share ic hnd obj s =
     (if ks_alive s then
        (case ks_shared s of
           Some sh \<Rightarrow> submit_u64 ic hnd (share_closure obj sh) s
         | None \<Rightarrow> Some (answer_u64 (Inl InvalidOperation) s))
      else Some (answer_u64 (Inl Cancelled) s))"

definition stream_drop where
  "stream_drop ic hnd s =
     (if ks_alive s then
        (case client_try_enqueue (jraw ic) hnd (jdefault ic) StClose (ks_queue s, ks_mem s) of
           Inl _ \<Rightarrow> None
         | Inr (q, mem) \<Rightarrow> Some (wake_readers (s\<lparr>ks_queue := q, ks_mem := mem\<rparr>)))
      else Some s)"

section \<open>The notifier\<close>

definition notify_read :: "('a, 'v, 'j, 'o) kstate \<Rightarrow> ticket \<times> ('a, 'v, 'j, 'o) kstate" where
  "notify_read s =
     (if ks_alive s then
        if requests_enqueued (ks_queue s, ks_mem s) \<noteq> 0 then answer_data (Inr []) s
        else (let (t, T) = ticket_new (ks_data s) in
              (t, s\<lparr>ks_data := T, ks_wait_read := ks_wait_read s @ [t]\<rparr>))
      else answer_data (Inl DoesNotExist) s)"

definition notify_write where
  "notify_write ic s =
     (if ks_alive s then do { s \<leftarrow> process_responses ic s; Some (answer_u64 (Inr 0) s) }
      else Some (answer_u64 (Inl DoesNotExist) s))"

end
