(* ===== verification/Stream_Data.thy ===== *)
theory Stream_Data
  imports Stream_Buffers
begin

text \<open>
  Data in the shared buffers as its users see it: \<open>holds B m d bytes bl\<close> says that \<open>d\<close> denotes the
  bytes, kept in the blocks \<open>bl\<close>. The lemmas describe allocation, writing, reading and release in
  these terms, so that what refers to the layout of scatter lists stays in the theory below.
\<close>

definition in_range :: "Buffers \<Rightarrow> u32 \<Rightarrow> bool" where
  "in_range B x \<longleftrightarrow> x \<noteq> -1 \<and> unat x * block_size B < total_size B"

definition stored :: "Buffers \<Rightarrow> buf_mem \<Rightarrow> u32 list \<Rightarrow> nat \<Rightarrow> u8 list" where
  "stored B m ds n = map (\<lambda>k. m (addr (block_size B) ds k)) [0..<n]"

definition holds :: "Buffers \<Rightarrow> buf_mem \<Rightarrow> Data \<Rightarrow> u8 list \<Rightarrow> u32 list \<Rightarrow> bool" where
  "holds B m d bytes bl \<longleftrightarrow>
     length bytes < 2 ^ 32 \<and> d_len d = length bytes \<and> unat (d_offset d) * block_size B < total_size B
   \<and> (\<exists>ds ls. layout B m d = (ds, ls) \<and> bl = ds @ ls \<and> stored B m ds (length bytes) = bytes)
   \<and> distinct bl \<and> (\<forall>x \<in> set bl. in_range B x)"

lemma holds_len: "holds B m d bytes bl \<Longrightarrow> d_len d = length bytes \<and> length bytes < 2 ^ 32"
  by (simp add: holds_def)

lemma holds_distinct: "holds B m d bytes bl \<Longrightarrow> distinct bl \<and> (\<forall>x \<in> set bl. in_range B x)"
  by (simp add: holds_def)

lemma free_list_distinct: "free_list B st xs \<Longrightarrow> distinct xs \<and> (\<forall>x \<in> set xs. in_range B x)"
  by (auto simp: free_list_def in_range_def)

lemma holds_same:
  assumes B: "buffers_ok B" and h: "holds B m d bytes bl" and s: "\<forall>x \<in> set bl. same (block_size B) x m m'"
  shows "holds B m' d bytes bl"
proof -
  obtain ds ls where l: "layout B m d = (ds, ls)" "bl = ds @ ls" "stored B m ds (length bytes) = bytes"
    and len: "d_len d = length bytes" "d_len d < 2 ^ 32" using h by (auto simp: holds_def)
  have lay: "layout B m' d = (ds, ls)" using layout_same [OF B, of m d m'] s l by auto
  have bs: "0 < block_size B" using buffers_ok_size [OF B] by simp
  have "m' (addr (block_size B) ds k) = m (addr (block_size B) ds k)" if k: "k < length bytes" for k
  proof -
    have "k < length ds * block_size B" using addr_bound [OF B len(2) l(1)] len(1) k by simp
    from addr_block [OF bs this] obtain x j where "x \<in> set ds" "j < block_size B"
      "addr (block_size B) ds k = unat x * block_size B + j" by blast
    then show ?thesis using s l(2) by (simp add: same_def)
  qed
  then have "stored B m' ds (length bytes) = stored B m ds (length bytes)" by (simp add: stored_def)
  then have "stored B m' ds (length bytes) = bytes" using l(3) by simp
  then show ?thesis using h lay l by (auto simp: holds_def)
qed

lemma holds_alloc:
  assumes B: "buffers_ok B" and fl: "free_list B (h, m) xs" and n: "n < 2 ^ 32" and t: "0 < total_size B"
    and fits: "blocks_needed B n \<le> length xs"
  shows "\<exists>d h' m' bytes bl ys. alloc B n (h, m) = Some (Some d, (h', m')) \<and> length bytes = n
    \<and> holds B m' d bytes bl \<and> free_list B (h', m') ys \<and> mset (bl @ ys) = mset xs \<and> length bl = blocks_needed B n
    \<and> (\<forall>x. x \<notin> set bl \<longrightarrow> same (block_size B) x m m')"
proof -
  let ?k = "blocks_needed B n"
  obtain d h' m' where a: "alloc B n (h, m) = Some (Some d, (h', m'))" "d_len d = n" "free_list B (h', m') (drop ?k xs)"
    "mset (fst (layout B m' d)) + mset (snd (layout B m' d)) = mset (take ?k xs)"
    "\<forall>x. x \<notin> set (take ?k xs) \<longrightarrow> same (block_size B) x m m'"
    using alloc_ok(1) [OF B fl n fits] by auto
  obtain ds ls where lay: "layout B m' d = (ds, ls)" by (cases "layout B m' d")
  have ms: "mset (ds @ ls) = mset (take ?k xs)" using a(4) lay by simp
  have set: "set (ds @ ls) = set (take ?k xs)" using mset_eq_setD [OF ms] .
  have d: "distinct (ds @ ls)"
    using mset_eq_imp_distinct_iff [OF ms] free_list_distinct [OF fl] by simp
  have r: "\<forall>x \<in> set (ds @ ls). in_range B x"
    using free_list_distinct [OF fl] unfolding set by (auto dest: in_set_takeD)
  have off: "unat (d_offset d) * block_size B < total_size B"
  proof (cases "n = 0")
    case True
    then show ?thesis using a(1) t by (auto simp: alloc_def alloc_empty_def)
  next
    case False
    then have "d_offset d \<in> set (ds @ ls)" using lay a(2) by (auto simp: layout_def Let_def split: if_splits prod.splits)
    then show ?thesis using r by (simp add: in_range_def)
  qed
  have "holds B m' d (stored B m' ds n) (ds @ ls)"
    unfolding holds_def using a(2) n lay d r off by (auto simp: stored_def)
  moreover have "mset ((ds @ ls) @ drop ?k xs) = mset xs" using ms by (metis append_take_drop_id mset_append)
  moreover have "length (ds @ ls) = ?k" using mset_eq_length [OF ms] fits by simp
  moreover have "\<forall>x. x \<notin> set (ds @ ls) \<longrightarrow> same (block_size B) x m m'" using a(5) set by simp
  moreover have "length (stored B m' ds n) = n" by (simp add: stored_def)
  ultimately show ?thesis using a(1,3) by blast
qed

lemma holds_write:
  assumes B: "buffers_ok B" and h: "holds B m d bytes bl" and n: "off + length src \<le> length bytes"
  shows "\<exists>m'. data_copy_from B d off src m = Some m'
    \<and> holds B m' d (take off bytes @ src @ drop (off + length src) bytes) bl
    \<and> (\<forall>x. x \<notin> set bl \<longrightarrow> same (block_size B) x m m')"
proof -
  have bs: "0 < block_size B" using buffers_ok_size [OF B] by simp
  obtain ds ls where l: "layout B m d = (ds, ls)" "bl = ds @ ls" "stored B m ds (length bytes) = bytes"
    and len: "d_len d = length bytes" "d_len d < 2 ^ 32" and dist: "distinct ds" "set ds \<inter> set ls = {}"
    using h by (auto simp: holds_def)
  obtain m' where m': "data_copy_from B d off src m = Some m'" "written (block_size B) ds off src m m'"
    using data_copy_from_ok [OF B len(2) l(1) _ dist] n len by auto
  have bound: "length bytes \<le> length ds * block_size B" using addr_bound [OF B len(2) l(1)] len by simp
  have sm: "same (block_size B) x m m'" if "x \<notin> set ds" for x
    using written_same [OF bs m'(2) _ that] n bound by simp
  have lay: "layout B m' d = (ds, ls)" using layout_same [OF B, of m d m'] sm dist l by auto
  have "stored B m' ds (length bytes) = take off bytes @ src @ drop (off + length src) bytes" (is "?l = ?r")
  proof (rule nth_equalityI)
    show "length ?l = length ?r" using n by (simp add: stored_def)
    fix k assume "k < length ?l"
    then have k: "k < length bytes" by (simp add: stored_def)
    have b: "bytes ! k = m (addr (block_size B) ds k)" using arg_cong [OF l(3), of "\<lambda>xs. xs ! k"] k by (simp add: stored_def)
    have inj: "addr (block_size B) ds k \<noteq> addr (block_size B) ds (off + i)" if "i < length src" "k \<noteq> off + i" for i
      using addr_inj [OF bs dist(1), of k "off + i"] that k n bound by auto
    show "?l ! k = ?r ! k"
    proof (cases "off \<le> k \<and> k < off + length src")
      case True
      then have "m' (addr (block_size B) ds k) = src ! (k - off)"
        using m'(2) by (auto simp: written_def dest: spec [of _ "k - off"])
      moreover have "k - off < length src" using True by linarith
      ultimately show ?thesis using True k n by (simp add: stored_def nth_append min_def)
    next
      case False
      then have "m' (addr (block_size B) ds k) = m (addr (block_size B) ds k)"
        using m'(2) inj unfolding written_def by (metis le_add1 nat_add_left_cancel_less)
      then show ?thesis using False k n b by (auto simp: stored_def nth_append min_def)
    qed
  qed
  then have "holds B m' d (take off bytes @ src @ drop (off + length src) bytes) bl"
    using h lay l n by (auto simp: holds_def)
  then show ?thesis using m'(1) sm l(2) by auto
qed

lemma holds_read:
  assumes B: "buffers_ok B" and h: "holds B m d bytes bl" and n: "off + n \<le> length bytes"
  shows "data_copy_to B d off n m = Some (take n (drop off bytes))"
proof -
  obtain ds ls where l: "layout B m d = (ds, ls)" "stored B m ds (length bytes) = bytes"
    and len: "d_len d = length bytes" "d_len d < 2 ^ 32" using h by (auto simp: holds_def)
  have "map (\<lambda>k. m (addr (block_size B) ds (off + k))) [0..<n] = take n (drop off (stored B m ds (length bytes)))"
    using n by (intro nth_equalityI) (auto simp: stored_def)
  then show ?thesis using data_copy_to_ok [OF B len(2) l(1), of off n] n len l(2) by simp
qed

lemma holds_drop:
  assumes B: "buffers_ok B" and h: "holds B m d bytes bl" and fl: "free_list B (hd0, m) ys"
    and dis: "set bl \<inter> set ys = {}"
  shows "\<exists>st zs. manual_drop B d (hd0, m) = Some st \<and> free_list B st zs \<and> mset zs = mset (bl @ ys)
    \<and> (\<forall>x. x \<notin> set bl \<longrightarrow> same (block_size B) x m (snd st))"
proof -
  obtain ds ls where l: "layout B m d = (ds, ls)" "bl = ds @ ls" using h by (auto simp: holds_def)
  have "distinct (ds @ ls @ ys)" and "\<forall>x \<in> set (ds @ ls). x \<noteq> -1 \<and> unat x * block_size B < total_size B"
    using h l(2) dis free_list_distinct [OF fl] by (auto simp: holds_def in_range_def)
  from manual_drop_ok [OF B l(1) fl this] show ?thesis using l(2) by simp
qed

text \<open>A slice names the data it was made from.\<close>

definition slice_of :: "Data \<Rightarrow> Slice" where
  "slice_of d = \<lparr>sl_offset = d_offset d, sl_length = of_nat (d_len d)\<rparr>"

lemma get_data_slice: "holds B m d bytes bl \<Longrightarrow> get_data B (slice_of d) = Some d"
  by (simp add: holds_def get_data_def slice_of_def unat_of_nat_small)

end
