(* ===== verification/Stream_Server.thy ===== *)
theory Stream_Server
  imports Streaming Stream_Data
begin

text \<open>
  The server's side of a streaming table, \<open>lib/rust/driver_utils/src/os/stream_table.rs\<close>. The state of
  an operation is the server's queue together with the kernel's state: the shared memory is part of
  the latter, and the table object answers \<open>open\<close> and \<open>share\<close> there. An object handle of the server is
  represented by the object it stands for.
\<close>

section \<open>Requests and responses\<close>

datatype 'o SrvRequest =
    SrRead u32 | SrWrite Data | SrGetMeta Data | SrSetMeta Data | SrOpen Data | SrClose
  | SrCreate Data | SrDestroy Data | SrSeek SeekFrom | SrShare "'o Obj"

datatype 'o SrvResponse =
    RsError Error | RsAmount u32 | RsPosition u64 | RsData Data | RsHandle u32 | RsObject "'o Obj"

type_synonym ('a, 'v, 'j, 'o) srv = "ServerQueue \<times> ('a, 'v, 'j, 'o) kstate"

section \<open>Operations\<close>

text \<open>\<open>new\<close> puts every block of the mapped buffers on the free stack.\<close>

fun dealloc_all :: "Buffers \<Rightarrow> nat \<Rightarrow> nat \<Rightarrow> buf_state \<Rightarrow> buf_state panics" where
  "dealloc_all B i 0 st = Some st"
| "dealloc_all B i (Suc n) st = do { st \<leftarrow> dealloc B (of_nat i) st; dealloc_all B (Suc i) n st }"

definition srv_new :: "('a, 'v, 'j, 'o) kstate \<Rightarrow> ('a, 'v, 'j, 'o) srv panics" where
  "srv_new k =
     (let B = ks_buffers k; n = min (total_size B div block_size B) (2 ^ 32 - 1) in
      do { st \<leftarrow> dealloc_all B 0 n (ks_buf k);
           (_, k) \<leftarrow> table_open (bytes_of ''notify'') (k\<lparr>ks_buf := st\<rparr>);
           (_, k) \<leftarrow> table_open (bytes_of ''public'') k;
           Some (server_new, k) })"

definition get_owned_buf :: "Slice \<Rightarrow> ('a, 'v, 'j, 'o) kstate \<Rightarrow> Data panics" where
  "get_owned_buf sl k = get_data (ks_buffers k) sl"

text \<open>\<open>self.table.open(..).unwrap()\<close> and \<open>self.table.share(..).unwrap()\<close>.\<close>

definition open_unwrap :: "u8 list \<Rightarrow> ('a, 'v, 'j, 'o) kstate \<Rightarrow> ('o Obj \<times> ('a, 'v, 'j, 'o) kstate) panics" where
  "open_unwrap path k =
     do { (t, k) \<leftarrow> table_open path k;
          case status_of (ks_obj k) t of Some (Inr obj) \<Rightarrow> Some (obj, k) | _ \<Rightarrow> None }"

definition share_unwrap :: "'o Obj \<Rightarrow> ('a, 'v, 'j, 'o) kstate \<Rightarrow> (u64 \<times> ('a, 'v, 'j, 'o) kstate) panics" where
  "share_unwrap obj k =
     do { (t, k) \<leftarrow> table_share obj k;
          case status_of (ks_u64 k) t of Some (Inr n) \<Rightarrow> Some (n, k) | _ \<Rightarrow> None }"

fun seek_from_stream :: "StSeekFrom \<Rightarrow> SeekFrom" where
  "seek_from_stream (StStart n) = Start n"
| "seek_from_stream (StCurrent n) = Current n"
| "seek_from_stream (StEnd n) = End n"

fun srv_request :: "StRequest \<Rightarrow> ('a, 'v, 'j, 'o) kstate \<Rightarrow> ('o SrvRequest \<times> ('a, 'v, 'j, 'o) kstate) panics" where
  "srv_request (StRead n) k = Some (SrRead n, k)"
| "srv_request (StWrite sl) k = do { d \<leftarrow> get_owned_buf sl k; Some (SrWrite d, k) }"
| "srv_request (StGetMeta sl) k = do { d \<leftarrow> get_owned_buf sl k; Some (SrGetMeta d, k) }"
| "srv_request (StSetMeta sl) k = do { d \<leftarrow> get_owned_buf sl k; Some (SrSetMeta d, k) }"
| "srv_request (StOpen sl) k = do { d \<leftarrow> get_owned_buf sl k; Some (SrOpen d, k) }"
| "srv_request (StCreate sl) k = do { d \<leftarrow> get_owned_buf sl k; Some (SrCreate d, k) }"
| "srv_request (StDestroy sl) k = do { d \<leftarrow> get_owned_buf sl k; Some (SrDestroy d, k) }"
| "srv_request StClose k = Some (SrClose, k)"
| "srv_request (StSeek frm) k = Some (SrSeek (seek_from_stream frm), k)"
| "srv_request (StShare h) k = do { (obj, k) \<leftarrow> open_unwrap (to_le_bytes h) k; Some (SrShare obj, k) }"

definition srv_dequeue ::
  "('a, 'v, 'j) id_codec \<Rightarrow> ('a, 'v, 'j, 'o) srv
    \<Rightarrow> ((u32 \<times> 'j \<times> 'o SrvRequest) option \<times> ('a, 'v, 'j, 'o) srv) panics" where
  "srv_dequeue ic = (\<lambda>(q, k).
     do { (x, q, mem) \<leftarrow> server_dequeue (jraw ic) (q, ks_mem k);
          let k = k\<lparr>ks_mem := mem\<rparr>;
          case x of
            None \<Rightarrow> Some (None, q, k)
          | Some (h, j, r) \<Rightarrow> do { (r, k) \<leftarrow> srv_request r k; Some (Some (h, j, r), q, k) } })"

fun srv_response :: "'o SrvResponse \<Rightarrow> ('a, 'v, 'j, 'o) kstate \<Rightarrow> (StResponse \<times> ('a, 'v, 'j, 'o) kstate) panics" where
  "srv_response (RsError e) k = Some (StError (word_of_int (error_code e)), k)"
| "srv_response (RsAmount n) k = Some (StAmount n, k)"
| "srv_response (RsPosition n) k = Some (StPosition n, k)"
| "srv_response (RsData d) k =
     do { assert (d_len d < 2 ^ 32);
          Some (StSlice \<lparr>sl_offset = d_offset d, sl_length = of_nat (d_len d)\<rparr>, k) }"
| "srv_response (RsHandle h) k = Some (StHandle h, k)"
| "srv_response (RsObject obj) k = do { (n, k) \<leftarrow> share_unwrap obj k; Some (StShared (ucast n), k) }"

definition srv_enqueue ::
  "('a, 'v, 'j) id_codec \<Rightarrow> 'j \<Rightarrow> 'o SrvResponse \<Rightarrow> ('a, 'v, 'j, 'o) srv \<Rightarrow> ('a, 'v, 'j, 'o) srv panics" where
  "srv_enqueue ic job_id response = (\<lambda>(q, k).
     do { (r, k) \<leftarrow> srv_response response k;
          case server_try_enqueue (jraw ic) job_id r (q, ks_mem k) of
            Inl _ \<Rightarrow> None
          | Inr (q, mem) \<Rightarrow> Some (q, k\<lparr>ks_mem := mem\<rparr>) })"

definition srv_alloc :: "nat \<Rightarrow> ('a, 'v, 'j, 'o) kstate \<Rightarrow> (Data option \<times> ('a, 'v, 'j, 'o) kstate) panics" where
  "srv_alloc n k = do { (d, st) \<leftarrow> alloc (ks_buffers k) n (ks_buf k); Some (d, k\<lparr>ks_buf := st\<rparr>) }"

definition data_drop :: "Data \<Rightarrow> ('a, 'v, 'j, 'o) kstate \<Rightarrow> ('a, 'v, 'j, 'o) kstate panics" where
  "data_drop d k = do { st \<leftarrow> manual_drop (ks_buffers k) d (ks_buf k); Some (k\<lparr>ks_buf := st\<rparr>) }"

section \<open>Reading requests\<close>

fun into_data :: "'o SrvRequest \<Rightarrow> Data panics" where
  "into_data (SrWrite d) = Some d"
| "into_data (SrOpen d) = Some d"
| "into_data (SrCreate d) = Some d"
| "into_data (SrDestroy d) = Some d"
| "into_data _ = None"

fun into_property :: "'o SrvRequest \<Rightarrow> Data panics" where
  "into_property (SrGetMeta d) = Some d"
| "into_property _ = None"

fun into_property_value :: "'o SrvRequest \<Rightarrow> Data panics" where
  "into_property_value (SrSetMeta d) = Some d"
| "into_property_value _ = None"

fun into_amount :: "'o SrvRequest \<Rightarrow> u32 panics" where
  "into_amount (SrRead n) = Some n"
| "into_amount _ = None"

text \<open>
  \<open>bl\<close> is the length of the caller's buffer; the answer is the part of it that is filled and the size
  of all data. \<open>copy_into\<close> consumes the data, which releases its blocks.
\<close>

definition copy_into ::
  "nat \<Rightarrow> Data \<Rightarrow> ('a, 'v, 'j, 'o) kstate \<Rightarrow> ((u8 list \<times> nat) \<times> ('a, 'v, 'j, 'o) kstate) panics" where
  "copy_into bl d k =
     do { b \<leftarrow> data_copy_to (ks_buffers k) d 0 (min (d_len d) bl) (snd (ks_buf k));
          k \<leftarrow> data_drop d k;
          Some ((b, d_len d), k) }"

definition property_get :: "nat \<Rightarrow> Data \<Rightarrow> ('a, 'v, 'j, 'o) kstate \<Rightarrow> u8 list panics" where
  "property_get bl d k = data_copy_to (ks_buffers k) d 0 (min (d_len d) bl) (snd (ks_buf k))"

datatype InvalidPropertyValue = InvalidPropertyValue

definition property_value_try_get ::
  "nat \<Rightarrow> Data \<Rightarrow> ('a, 'v, 'j, 'o) kstate \<Rightarrow> (InvalidPropertyValue + (u8 list \<times> u8 list)) panics" where
  "property_value_try_get bl d k =
     do { buf \<leftarrow> data_copy_to (ks_buffers k) d 0 (min (d_len d) bl) (snd (ks_buf k));
          Some (case buf of
              [] \<Rightarrow> Inl InvalidPropertyValue
            | l # b \<Rightarrow>
                if unat l \<le> length b then Inr (take (unat l) b, drop (unat l) b)
                else Inl InvalidPropertyValue) }"

end
