(* ===== verification/Stream_Service.thy ===== *)
theory Stream_Service
  imports Stream_Server
begin

text \<open>
  The kernel and the server of a streaming table together. The specification is a service with queues
  of requests and answers that carry their bytes directly, a map from jobs to the tickets of their
  callers, and a number of free blocks. This theory
  has the combined system of both sides and the specification as a step relation.
\<close>

section \<open>The combined system\<close>

datatype StreamOp =
    CallOpen "u8 list" | CallCreate "u8 list" | CallDestroy "u8 list" | CallRead nat
  | CallWrite "u8 list" | CallGetMeta "u8 list" | CallSetMeta "u8 list" "u8 list" | CallSeek SeekFrom

datatype reply =
    ReplyError Error | ReplyAmount u32 | ReplyPosition u64 | ReplyHandle u32 | ReplyBytes "u8 list"

datatype action = Call u32 StreamOp | Close u32 | Wait | Take | Answer nat reply | Flush

fun exec_op where
  "exec_op ic h (CallOpen p) k = stream_open ic h p k"
| "exec_op ic h (CallCreate p) k = stream_create ic h p k"
| "exec_op ic h (CallDestroy p) k = stream_destroy ic h p k"
| "exec_op ic h (CallRead n) k = stream_read ic h n k"
| "exec_op ic h (CallWrite b) k = stream_write ic h b k"
| "exec_op ic h (CallGetMeta p) k = stream_get_meta ic h p k"
| "exec_op ic h (CallSetMeta p v) k = stream_set_meta ic h p v k"
| "exec_op ic h (CallSeek f) k = stream_seek ic h f k"

text \<open>The request with its data taken out; the data of a request that the server holds.\<close>

definition no_slice :: Slice where
  "no_slice = \<lparr>sl_offset = 0, sl_length = 0\<rparr>"

fun strip :: "StRequest \<Rightarrow> StRequest \<times> Slice option" where
  "strip (StWrite sl) = (StWrite no_slice, Some sl)"
| "strip (StGetMeta sl) = (StGetMeta no_slice, Some sl)"
| "strip (StSetMeta sl) = (StSetMeta no_slice, Some sl)"
| "strip (StOpen sl) = (StOpen no_slice, Some sl)"
| "strip (StCreate sl) = (StCreate no_slice, Some sl)"
| "strip (StDestroy sl) = (StDestroy no_slice, Some sl)"
| "strip r = (r, None)"

fun srv_strip :: "'o SrvRequest \<Rightarrow> StRequest \<times> Data option" where
  "srv_strip (SrRead n) = (StRead n, None)"
| "srv_strip (SrWrite d) = (StWrite no_slice, Some d)"
| "srv_strip (SrGetMeta d) = (StGetMeta no_slice, Some d)"
| "srv_strip (SrSetMeta d) = (StSetMeta no_slice, Some d)"
| "srv_strip (SrOpen d) = (StOpen no_slice, Some d)"
| "srv_strip SrClose = (StClose, None)"
| "srv_strip (SrCreate d) = (StCreate no_slice, Some d)"
| "srv_strip (SrDestroy d) = (StDestroy no_slice, Some d)"
| "srv_strip (SrSeek f) = (StSeek (seek_into_stream f), None)"
| "srv_strip (SrShare obj) = (StShare 0, None)"

definition drop_request :: "'o SrvRequest \<Rightarrow> ('a, 'v, 'j, 'o) kstate \<Rightarrow> ('a, 'v, 'j, 'o) kstate panics" where
  "drop_request r k = (case snd (srv_strip r) of None \<Rightarrow> Some k | Some d \<Rightarrow> data_drop d k)"

fun make_reply :: "reply \<Rightarrow> ('a, 'v, 'j, 'o) kstate \<Rightarrow> ('o SrvResponse \<times> ('a, 'v, 'j, 'o) kstate) panics" where
  "make_reply (ReplyError e) k = Some (RsError e, k)"
| "make_reply (ReplyAmount n) k = Some (RsAmount n, k)"
| "make_reply (ReplyPosition n) k = Some (RsPosition n, k)"
| "make_reply (ReplyHandle h) k = Some (RsHandle h, k)"
| "make_reply (ReplyBytes bytes) k =
     do { (d, k) \<leftarrow> srv_alloc (length bytes) k;
          d \<leftarrow> d;
          m \<leftarrow> data_copy_from (ks_buffers k) d 0 bytes (snd (ks_buf k));
          Some (RsData d, k\<lparr>ks_buf := (fst (ks_buf k), m)\<rparr>) }"

text \<open>
  The state is the kernel's, the server's queue and the requests that the server holds. A request to
  close an object has no job and is done with when it is taken.
\<close>

type_synonym ('a, 'v, 'j, 'o) system =
  "('a, 'v, 'j, 'o) kstate \<times> ServerQueue \<times> ('j \<times> 'o SrvRequest) list"

fun exec :: "('a, 'v, 'j) id_codec \<Rightarrow> action \<Rightarrow> ('a, 'v, 'j, 'o) system \<Rightarrow> ('a, 'v, 'j, 'o) system panics" where
  "exec ic (Call h op) (k, q, held) = do { (t, k) \<leftarrow> exec_op ic h op k; Some (k, q, held) }"
| "exec ic (Close h) (k, q, held) = do { k \<leftarrow> stream_drop ic h k; Some (k, q, held) }"
| "exec ic Wait (k, q, held) = (let (t, k) = notify_read k in Some (k, q, held))"
| "exec ic Take (k, q, held) =
     do { (x, q, k) \<leftarrow> srv_dequeue ic (q, k);
          Some (k, q, case x of
              None \<Rightarrow> held
            | Some (h, j, r) \<Rightarrow> if fst (srv_strip r) = StClose then held else held @ [(j, r)]) }"
| "exec ic (Answer i rep) (k, q, held) =
     do { (j, r) \<leftarrow> nth_opt held i;
          k \<leftarrow> drop_request r k;
          (rs, k) \<leftarrow> make_reply rep k;
          (q, k) \<leftarrow> srv_enqueue ic j rs (q, k);
          Some (k, q, take i held @ drop (Suc i) held) }"
| "exec ic Flush (k, q, held) = do { (t, k) \<leftarrow> notify_write ic k; Some (k, q, held) }"

section \<open>The specification\<close>

datatype 'o val = VObj "'o Obj" | VU64 u64 | VBytes "u8 list"

datatype ans = AErr Error | AVal u64 | ABytes "u8 list"

record 'o rpc =
  a_free :: nat
  a_sent :: "(u32 \<times> nat \<times> StRequest \<times> u8 list) list"
  a_held :: "(nat \<times> StRequest \<times> u8 list) list"
  a_answers :: "(nat \<times> ans) list"
  a_jobs :: "nat \<rightharpoonup> AnyTicketWaker"
  a_done :: "AnyTicketWaker \<Rightarrow> (Error + 'o val) option"
  a_waiting :: "ticket list"

datatype kind = KObj | KU64 | KData

fun op_kind :: "StreamOp \<Rightarrow> kind" where
  "op_kind (CallOpen p) = KObj"
| "op_kind (CallCreate p) = KObj"
| "op_kind (CallRead n) = KData"
| "op_kind (CallGetMeta p) = KData"
| "op_kind _ = KU64"

fun waker :: "kind \<Rightarrow> ticket \<Rightarrow> AnyTicketWaker" where
  "waker KObj t = WObject t"
| "waker KU64 t = WU64 t"
| "waker KData t = WData t"

text \<open>What the server is to see of a call; \<open>mx\<close> bounds the data of a request.\<close>

fun op_request :: "StreamOp \<Rightarrow> StRequest" where
  "op_request (CallOpen p) = StOpen no_slice"
| "op_request (CallCreate p) = StCreate no_slice"
| "op_request (CallDestroy p) = StDestroy no_slice"
| "op_request (CallRead n) = StRead (if n < 2 ^ 32 then of_nat n else - 1)"
| "op_request (CallWrite b) = StWrite no_slice"
| "op_request (CallGetMeta p) = StGetMeta no_slice"
| "op_request (CallSetMeta p v) = StSetMeta no_slice"
| "op_request (CallSeek f) = StSeek (seek_into_stream f)"

fun op_bytes :: "StreamOp \<Rightarrow> u8 list" where
  "op_bytes (CallOpen p) = p"
| "op_bytes (CallCreate p) = p"
| "op_bytes (CallDestroy p) = p"
| "op_bytes (CallWrite b) = b"
| "op_bytes (CallGetMeta p) = p"
| "op_bytes (CallSetMeta p v) = of_nat (length p) # p @ v"
| "op_bytes _ = []"

definition op_sent :: "nat \<Rightarrow> StreamOp \<Rightarrow> u8 list" where
  "op_sent mx op = take (mx + 1) (op_bytes op)"

fun reply_ans :: "reply \<Rightarrow> ans" where
  "reply_ans (ReplyError e) = AErr e"
| "reply_ans (ReplyAmount n) = AVal (ucast n)"
| "reply_ans (ReplyPosition n) = AVal n"
| "reply_ans (ReplyHandle h) = AVal (ucast h)"
| "reply_ans (ReplyBytes bytes) = ABytes bytes"

fun ans_bytes :: "ans \<Rightarrow> u8 list" where
  "ans_bytes (ABytes bytes) = bytes"
| "ans_bytes _ = []"

text \<open>The answers that suit the caller of a job, and what the caller gets.\<close>

fun suits :: "AnyTicketWaker \<Rightarrow> ans \<Rightarrow> bool" where
  "suits w (AErr e) \<longleftrightarrow> True"
| "suits (WU64 t) (AVal v) \<longleftrightarrow> uint v < 2 ^ 64 - 4096"
| "suits (WObject t) (AVal v) \<longleftrightarrow> uint v < 2 ^ 32"
| "suits (WData t) (ABytes bytes) \<longleftrightarrow> length bytes < 2 ^ 32 - 1"
| "suits _ _ \<longleftrightarrow> False"

fun outcome :: "AnyTicketWaker \<Rightarrow> ans \<Rightarrow> Error + 'o val" where
  "outcome w (AErr e) = Inl e"
| "outcome (WObject t) (AVal v) = Inr (VObj (StreamObj (ucast v)))"
| "outcome w (AVal v) = Inr (VU64 v)"
| "outcome w (ABytes bytes) = Inr (VBytes bytes)"

definition wake :: "'o rpc \<Rightarrow> 'o rpc" where
  "wake a =
     (if a_waiting a = [] then a
      else a\<lparr>a_waiting := butlast (a_waiting a),
             a_done := (a_done a)(WData (last (a_waiting a)) \<mapsto> Inr (VBytes []))\<rparr>)"

text \<open>One answer reaches the caller.\<close>

definition finish :: "Buffers \<Rightarrow> nat \<times> ans \<Rightarrow> 'o rpc \<Rightarrow> 'o rpc" where
  "finish B = (\<lambda>(n, r) a.
     let w = the (a_jobs a n) in
     a\<lparr>a_free := a_free a + blocks_needed B (length (ans_bytes r)), a_jobs := (a_jobs a)(n := None),
       a_done := (a_done a)(w \<mapsto> outcome w r), a_answers := tl (a_answers a)\<rparr>)"

text \<open>A ticket that is not in use.\<close>

definition fresh :: "AnyTicketWaker \<Rightarrow> 'o rpc \<Rightarrow> bool" where
  "fresh w a \<longleftrightarrow> w \<notin> ran (a_jobs a) \<and> w \<notin> WData ` set (a_waiting a) \<and> a_done a w = None"

inductive rpc_step :: "Buffers \<Rightarrow> nat \<Rightarrow> action \<Rightarrow> 'o rpc \<Rightarrow> 'o rpc \<Rightarrow> bool" for B mx where
  call: "n \<notin> dom (a_jobs a) \<Longrightarrow> fresh (waker (op_kind op) t) a \<Longrightarrow>
    rpc_step B mx (Call h op) a
      (wake (a\<lparr>a_free := a_free a - blocks_needed B (length (op_sent mx op)),
        a_sent := a_sent a @ [(h, n, op_request op, op_sent mx op)],
        a_jobs := (a_jobs a)(n \<mapsto> waker (op_kind op) t)\<rparr>))"
| close: "rpc_step B mx (Close h) a (wake (a\<lparr>a_sent := a_sent a @ [(h, n, StClose, [])]\<rparr>))"
| wait_now: "a_sent a \<noteq> [] \<Longrightarrow> fresh (WData t) a \<Longrightarrow>
    rpc_step B mx Wait a (a\<lparr>a_done := (a_done a)(WData t \<mapsto> Inr (VBytes []))\<rparr>)"
| wait_later: "a_sent a = [] \<Longrightarrow> fresh (WData t) a \<Longrightarrow>
    rpc_step B mx Wait a (a\<lparr>a_waiting := a_waiting a @ [t]\<rparr>)"
| take_none: "a_sent a = [] \<Longrightarrow> rpc_step B mx Take a a"
| take_close: "a_sent a = (h, n, StClose, bytes) # xs \<Longrightarrow> rpc_step B mx Take a (a\<lparr>a_sent := xs\<rparr>)"
| take: "a_sent a = (h, n, r, bytes) # xs \<Longrightarrow> r \<noteq> StClose \<Longrightarrow>
    rpc_step B mx Take a (a\<lparr>a_sent := xs, a_held := a_held a @ [(n, r, bytes)]\<rparr>)"
| answer: "i < length (a_held a) \<Longrightarrow> a_held a ! i = (n, r, bytes) \<Longrightarrow>
    rpc_step B mx (Answer i rep) a
      (a\<lparr>a_free := a_free a + blocks_needed B (length bytes) - blocks_needed B (length (ans_bytes (reply_ans rep))),
         a_held := take i (a_held a) @ drop (Suc i) (a_held a),
         a_answers := a_answers a @ [(n, reply_ans rep)]\<rparr>)"
| flush: "a' = fold (finish B) (a_answers a) a \<Longrightarrow> fresh (WU64 t) a' \<Longrightarrow>
    rpc_step B mx Flush a (a'\<lparr>a_done := (a_done a')(WU64 t \<mapsto> Inr (VU64 0))\<rparr>)"

text \<open>
  When an action is allowed: there is room in the ring and there are enough blocks for the data, fewer
  than \<open>2^24\<close> jobs are open, and the server answers a request it holds with what its caller expects.
\<close>

fun allowed :: "Buffers \<Rightarrow> nat \<Rightarrow> action \<Rightarrow> 'o rpc \<Rightarrow> bool" where
  "allowed B mx (Call h op) a \<longleftrightarrow> length (a_sent a) < 128 \<and> card (dom (a_jobs a)) < 2 ^ 24
     \<and> length (op_sent mx op) < 2 ^ 32 \<and> blocks_needed B (length (op_sent mx op)) \<le> a_free a"
| "allowed B mx (Close h) a \<longleftrightarrow> length (a_sent a) < 128"
| "allowed B mx (Answer i rep) a \<longleftrightarrow> i < length (a_held a) \<and> length (a_answers a) < 128
     \<and> suits (the (a_jobs a (fst (a_held a ! i)))) (reply_ans rep)
     \<and> blocks_needed B (length (ans_bytes (reply_ans rep)))
         \<le> a_free a + blocks_needed B (length (snd (snd (a_held a ! i))))"
| "allowed B mx _ a \<longleftrightarrow> True"

end
