(* ===== verification/Stream_Simulation.thy ===== *)
theory Stream_Simulation
  imports Stream_Service
begin

text \<open>
  The relation between the combined system of a streaming table and its specification: what is in the
  rings, in the arena of jobs, in the scatter lists and on the stack of free blocks, in terms of the
  specification's queues and bytes. The lemmas about calls show that a submission keeps it.
\<close>

section \<open>Data in flight\<close>

text \<open>Data that a request, the server or an answer has, with the blocks that keep it.\<close>

definition kept :: "Buffers \<Rightarrow> buf_mem \<Rightarrow> Data option \<Rightarrow> u8 list \<Rightarrow> u32 list \<Rightarrow> bool" where
  "kept B m x bytes bl \<longleftrightarrow> length bl = blocks_needed B (length bytes)
     \<and> (case x of None \<Rightarrow> bytes = [] | Some d \<Rightarrow> holds B m d bytes bl)"

lemma kept_same:
  "buffers_ok B \<Longrightarrow> kept B m x bytes bl \<Longrightarrow> \<forall>y \<in> set bl. same (block_size B) y m m' \<Longrightarrow> kept B m' x bytes bl"
  by (auto simp: kept_def split: option.splits intro: holds_same)

lemma kept_None: "kept B m None bytes bl \<longleftrightarrow> bytes = [] \<and> bl = []"
  by (auto simp: kept_def blocks_needed_def)

lemma kept_Some: "kept B m (Some d) bytes bl \<longleftrightarrow> holds B m d bytes bl \<and> length bl = blocks_needed B (length bytes)"
  by (auto simp: kept_def)

lemma scatter_loop_ok:
  assumes B: "buffers_ok B" and "holds B m d bytes bl" and "off + n = length bytes" and "n \<le> length (concat dat)"
  shows "\<exists>m'. scatter_loop B d off n dat m = Some m' \<and> holds B m' d (take off bytes @ take n (concat dat)) bl
    \<and> (\<forall>x. x \<notin> set bl \<longrightarrow> same (block_size B) x m m')"
  using assms(2-)
proof (induction dat arbitrary: off n bytes m)
  case (Cons x dat)
  let ?x = "take (min n (length x)) x"
  let ?b = "take off bytes @ ?x @ drop (off + length ?x) bytes"
  have le: "off + length ?x \<le> length bytes" using Cons.prems(2) by simp
  obtain m1 where m1: "data_copy_from B d off ?x m = Some m1" "holds B m1 d ?b bl"
    "\<forall>x. x \<notin> set bl \<longrightarrow> same (block_size B) x m m1" using holds_write [OF B Cons.prems(1) le] by blast
  show ?case
  proof (cases "n \<le> length x")
    case True
    then have "drop (off + length ?x) bytes = []" and "take n (concat (x # dat)) = ?x"
      using Cons.prems(2) by (simp_all add: min_def)
    then show ?thesis using m1 True by (simp add: Let_def min_def)
  next
    case False
    then have x: "?x = x" "length ?x = length x" by simp_all
    have l: "off + length x + (n - length x) = length ?b" using False Cons.prems(2) x by simp
    have n: "n - length x \<le> length (concat dat)" using Cons.prems(3) by simp
    obtain m2 where m2: "scatter_loop B d (off + length x) (n - length x) dat m1 = Some m2"
      "holds B m2 d (take (off + length x) ?b @ take (n - length x) (concat dat)) bl"
      "\<forall>y. y \<notin> set bl \<longrightarrow> same (block_size B) y m1 m2" using Cons.IH [OF m1(2) l n] by blast
    have "take (off + length x) ?b @ take (n - length x) (concat dat) = take off bytes @ take n (concat (x # dat))"
      using x False Cons.prems(2) by (simp add: min_def)
    then have "holds B m2 d (take off bytes @ take n (concat (x # dat))) bl" using m2(2) by (simp only:)
    moreover have "scatter_loop B d off n (x # dat) m = Some m2" using m1(1) m2(1) False x by (simp add: Let_def)
    moreover have "\<forall>y. y \<notin> set bl \<longrightarrow> same (block_size B) y m m2" using m1(3) m2(3) same_trans by blast
    ultimately show ?thesis by blast
  qed
qed simp

lemma copy_data_ok:
  assumes B: "buffers_ok (ks_buffers k)" "0 < total_size (ks_buffers k)" and fl: "free_list (ks_buffers k) (ks_buf k) F"
    and b: "b = take (unat (ks_max_request_mem k) + 1) (concat dat)" "length b < 2 ^ 32"
    "blocks_needed (ks_buffers k) (length b) \<le> length F"
  shows "\<exists>d st bl F'. copy_data_from_scatter dat k = Some (slice_of d, k\<lparr>ks_buf := st\<rparr>)
    \<and> kept (ks_buffers k) (snd st) (Some d) b bl \<and> free_list (ks_buffers k) st F' \<and> mset (bl @ F') = mset F
    \<and> (\<forall>x. x \<notin> set bl \<longrightarrow> same (block_size (ks_buffers k)) x (snd (ks_buf k)) (snd st))"
proof -
  let ?B = "ks_buffers k"
  let ?n = "min (sum_list (map length dat)) (unat (ks_max_request_mem k) + 1)"
  obtain h m where st: "ks_buf k = (h, m)" by (cases "ks_buf k")
  have n: "length b = ?n" "b = take ?n (concat dat)" using b(1) by (simp_all add: length_concat min_def)
  obtain d h' m1 bytes bl F' where a: "alloc ?B ?n (h, m) = Some (Some d, (h', m1))" "length bytes = ?n"
    "holds ?B m1 d bytes bl" "free_list ?B (h', m1) F'" "mset (bl @ F') = mset F" "length bl = blocks_needed ?B ?n"
    "\<forall>x. x \<notin> set bl \<longrightarrow> same (block_size ?B) x m m1"
    using holds_alloc [OF B(1) fl [unfolded st] _ B(2), of ?n] b n by auto
  have "\<exists>m2. scatter_loop ?B d 0 ?n dat m1 = Some m2 \<and> holds ?B m2 d (take 0 bytes @ take ?n (concat dat)) bl
      \<and> (\<forall>x. x \<notin> set bl \<longrightarrow> same (block_size ?B) x m1 m2)"
    by (rule scatter_loop_ok [OF B(1) a(3)]) (use a(2) in \<open>simp_all add: length_concat\<close>)
  then obtain m2 where m2: "scatter_loop ?B d 0 ?n dat m1 = Some m2" "holds ?B m2 d b bl"
    "\<forall>x. x \<notin> set bl \<longrightarrow> same (block_size ?B) x m1 m2" using n by auto
  have d: "d_len d < 2 ^ 32" using holds_len [OF m2(2)] by simp
  have dist: "distinct (bl @ F')" using mset_eq_imp_distinct_iff [OF a(5)] free_list_distinct [OF fl] by simp
  have "free_list ?B (h', m2) F'"
    by (rule free_list_same [OF B(1) a(4)]) (use m2(3) dist in auto)
  moreover have "copy_data_from_scatter dat k = Some (slice_of d, k\<lparr>ks_buf := (h', m2)\<rparr>)"
    using a(1) m2(1) d st by (simp add: copy_data_from_scatter_def Let_def slice_of_def)
  moreover have "kept ?B m2 (Some d) b bl" using m2(2) a(6) n by (simp add: kept_Some)
  moreover have "\<forall>x. x \<notin> set bl \<longrightarrow> same (block_size ?B) x (snd (ks_buf k)) m2"
    using a(7) m2(3) same_trans st by (metis snd_conv)
  ultimately show ?thesis using a(5) by (metis snd_conv)
qed

section \<open>Submission\<close>

text \<open>The three kinds of submission in one.\<close>

fun op_closure :: "StreamOp \<Rightarrow> ('a, 'v, 'j, 'o) kstate \<Rightarrow> (StRequest \<times> ('a, 'v, 'j, 'o) kstate) panics" where
  "op_closure (CallOpen p) = with_slice StOpen [p]"
| "op_closure (CallCreate p) = with_slice StCreate [p]"
| "op_closure (CallDestroy p) = with_slice StDestroy [p]"
| "op_closure (CallRead n) = plain (StRead (if n < 2 ^ 32 then of_nat n else - 1))"
| "op_closure (CallWrite b) = with_slice StWrite [b]"
| "op_closure (CallGetMeta p) = with_slice StGetMeta [p]"
| "op_closure (CallSetMeta p v) = with_slice StSetMeta [[of_nat (length p)], p, v]"
| "op_closure (CallSeek f) = plain (StSeek (seek_into_stream f))"

fun new_ticket :: "kind \<Rightarrow> ('a, 'v, 'j, 'o) kstate \<Rightarrow> ticket \<times> ('a, 'v, 'j, 'o) kstate" where
  "new_ticket KObj k = (length (cells (ks_obj k)), k\<lparr>ks_obj := snd (ticket_new (ks_obj k))\<rparr>)"
| "new_ticket KU64 k = (length (cells (ks_u64 k)), k\<lparr>ks_u64 := snd (ticket_new (ks_u64 k))\<rparr>)"
| "new_ticket KData k = (length (cells (ks_data k)), k\<lparr>ks_data := snd (ticket_new (ks_data k))\<rparr>)"

lemma exec_op_submit:
  assumes "ks_alive k"
  shows "exec_op ic h op k =
    do { k' \<leftarrow> submit_job ic h (waker (op_kind op) (fst (new_ticket (op_kind op) k))) (op_closure op)
           (snd (new_ticket (op_kind op) k));
         Some (fst (new_ticket (op_kind op) k), k') }"
  using assms
  by (cases op) (simp_all add: stream_open_def stream_create_def stream_destroy_def stream_read_def
    stream_write_def stream_get_meta_def stream_set_meta_def stream_seek_def submit_obj_def submit_u64_def
    submit_data_def ticket_new_def Let_def)

definition req_rel :: "Buffers \<Rightarrow> buf_mem \<Rightarrow> StRequest \<Rightarrow> StRequest \<Rightarrow> u8 list \<Rightarrow> u32 list \<Rightarrow> bool" where
  "req_rel B m r q bytes bl \<longleftrightarrow> (\<forall>h. r \<noteq> StShare h) \<and> fst (strip r) = q
     \<and> (\<exists>x. snd (strip r) = map_option slice_of x \<and> kept B m x bytes bl)"

definition sends :: "('a, 'v, 'j, 'o) kstate \<Rightarrow> u32 list \<Rightarrow> StRequest \<Rightarrow> u8 list
    \<Rightarrow> (StRequest \<times> ('a, 'v, 'j, 'o) kstate) panics \<Rightarrow> bool" where
  "sends k F q b res \<longleftrightarrow> (\<exists>r st bl F'. res = Some (r, k\<lparr>ks_buf := st\<rparr>)
     \<and> req_rel (ks_buffers k) (snd st) r q b bl \<and> free_list (ks_buffers k) st F' \<and> mset (bl @ F') = mset F
     \<and> (\<forall>x. x \<notin> set bl \<longrightarrow> same (block_size (ks_buffers k)) x (snd (ks_buf k)) (snd st)))"

lemma with_slice_sends:
  assumes B: "buffers_ok (ks_buffers k)" "0 < total_size (ks_buffers k)" and fl: "free_list (ks_buffers k) (ks_buf k) F"
    and b: "b = take (unat (ks_max_request_mem k) + 1) (concat dat)" "length b < 2 ^ 32"
    "blocks_needed (ks_buffers k) (length b) \<le> length F"
    and mk: "\<And>sl. strip (mk sl) = (q, Some sl)" "\<And>sl h. mk sl \<noteq> StShare h"
  shows "sends k F q b (with_slice mk dat k)"
proof -
  obtain d st bl F' where c: "copy_data_from_scatter dat k = Some (slice_of d, k\<lparr>ks_buf := st\<rparr>)"
    "kept (ks_buffers k) (snd st) (Some d) b bl" "free_list (ks_buffers k) st F'" "mset (bl @ F') = mset F"
    "\<forall>x. x \<notin> set bl \<longrightarrow> same (block_size (ks_buffers k)) x (snd (ks_buf k)) (snd st)"
    using copy_data_ok [OF B fl b] by blast
  have "with_slice mk dat k = Some (mk (slice_of d), k\<lparr>ks_buf := st\<rparr>)" by (simp add: with_slice_def c(1))
  moreover have "req_rel (ks_buffers k) (snd st) (mk (slice_of d)) q b bl"
    unfolding req_rel_def mk using mk(2) c(2) by (auto intro!: exI [of _ "Some d"])
  ultimately show ?thesis using c(3-) unfolding sends_def by blast
qed

lemma plain_sends:
  assumes "free_list (ks_buffers k) (ks_buf k) F" and "strip r = (r, None)" "\<And>h. r \<noteq> StShare h"
  shows "sends k F r [] (plain r k)"
  unfolding sends_def plain_def req_rel_def
  by (rule exI [of _ r], rule exI [of _ "ks_buf k"], rule exI [of _ "[]"], rule exI [of _ F])
    (use assms in \<open>auto simp: kept_None\<close>)

lemma op_closure_sends:
  assumes "buffers_ok (ks_buffers k)" "0 < total_size (ks_buffers k)" "free_list (ks_buffers k) (ks_buf k) F"
    and "length (op_sent (unat (ks_max_request_mem k)) op) < 2 ^ 32"
    "blocks_needed (ks_buffers k) (length (op_sent (unat (ks_max_request_mem k)) op)) \<le> length F"
  shows "sends k F (op_request op) (op_sent (unat (ks_max_request_mem k)) op) (op_closure op k)"
proof (cases op)
  case (CallRead n)
  then show ?thesis using plain_sends [OF assms(3), of "op_request op"] by (simp add: op_sent_def)
next
  case (CallSeek f)
  then show ?thesis using plain_sends [OF assms(3), of "op_request op"] by (simp add: op_sent_def)
qed (use assms in \<open>auto intro!: with_slice_sends simp: op_sent_def\<close>)

section \<open>The simulation relation\<close>

lemma all_occupied:
  assumes "arena_inv a" "free a = usize_MAX" "i < length (storage a)" shows "is_occupied (storage a ! i)"
proof -
  obtain "is" where "free_chain (storage a) (free a) is" "set is = free_slots (storage a)" "length (storage a) \<le> isize_MAX"
    using assms(1) by (auto simp: arena_inv_def)
  moreover from this have "is = []"
    using assms(2) isize_less_usize by (cases "is") (auto simp: nth_opt_def split: if_splits)
  ultimately show ?thesis using assms(3) by (auto simp: free_slots_def)
qed

definition job_map :: "('v, unit) arena \<Rightarrow> nat \<rightharpoonup> 'v" where
  "job_map a = (\<lambda>n. get a (from_raw n ()))"

lemma job_map_handle: "job_map a (h_index h) = get a h"
  by (cases h) (simp add: job_map_def from_raw_def)

lemma dom_job_map: "dom (job_map a) = {i. i < length (storage a) \<and> is_occupied (storage a ! i)}"
proof -
  have "job_map a i \<noteq> None \<longleftrightarrow> i < length (storage a) \<and> is_occupied (storage a ! i)" for i
    by (cases "storage a ! i") (auto simp: job_map_def get_def from_raw_def nth_opt_def)
  then show ?thesis by (auto simp: dom_def)
qed

lemma job_map_upd:
  assumes "get a' = (get a)(h := v)" shows "job_map a' = (job_map a)(h_index h := v)"
proof
  fix n
  have "from_raw n () = h \<longleftrightarrow> n = h_index h" by (cases h) (auto simp: from_raw_def)
  then show "job_map a' n = ((job_map a)(h_index h := v)) n" using assms by (simp add: job_map_def)
qed

lemma insert_job:
  assumes inv: "arena_inv a" and len: "length (storage a) \<le> 2 ^ 24" and card: "card (dom (job_map a)) < 2 ^ 24"
  obtains h a' where "insert increment_unit w a = Some (h, a')" "h_index h < 2 ^ 24" "length (storage a') \<le> 2 ^ 24"
    "arena_inv a'" "job_map a (h_index h) = None" "job_map a' = (job_map a)(h_index h \<mapsto> w)"
proof -
  have full: "length (storage a) < 2 ^ 24" if "free a = usize_MAX"
  proof -
    have "dom (job_map a) = {..<length (storage a)}" using all_occupied [OF inv that] by (auto simp: dom_job_map)
    then show ?thesis using card by simp
  qed
  have "has_room a" unfolding has_room_def using full by (auto simp: isize_MAX_def)
  then obtain h a' where ins: "insert increment_unit w a = Some (h, a')" using arena.ins_total [OF inv] by blast
  have get: "get a' = (get a)(h \<mapsto> w)" using arena.ins_look [OF ins] .
  have bounds: "h_index h < length (storage a')" "length (storage a') \<le> 2 ^ 24"
    using ins full len
    by (auto simp: insert_def insert_with_def vec_push_def Let_def nth_opt_def split: if_splits option.splits entry.splits)
  show thesis
    by (rule that [OF ins]) (use bounds get arena.ins_ok [OF inv ins] arena.ins_fresh [OF ins] in
      \<open>simp_all add: job_map_handle job_map_upd\<close>)
qed

fun result_of :: "('a, 'v, 'j, 'o) kstate \<Rightarrow> AnyTicketWaker \<Rightarrow> (Error + 'o val) option" where
  "result_of k (WObject t) = map_option (map_sum id VObj) (status_of (ks_obj k) t)"
| "result_of k (WU64 t) = map_option (map_sum id VU64) (status_of (ks_u64 k) t)"
| "result_of k (WData t) = map_option (map_sum id VBytes) (status_of (ks_data k) t)"

fun ticket_in :: "('a, 'v, 'j, 'o) kstate \<Rightarrow> AnyTicketWaker \<Rightarrow> bool" where
  "ticket_in k (WObject t) \<longleftrightarrow> t < length (cells (ks_obj k))"
| "ticket_in k (WU64 t) \<longleftrightarrow> t < length (cells (ks_u64 k))"
| "ticket_in k (WData t) \<longleftrightarrow> t < length (cells (ks_data k))"

definition sent_rel where
  "sent_rel ic B m x y \<longleftrightarrow> (case x of (h, j, r) \<Rightarrow> case y of ((h', n, q, bytes), bl) \<Rightarrow>
     h = h' \<and> jget ic j = n \<and> req_rel B m r q bytes bl)"

definition held_rel where
  "held_rel ic B m x y \<longleftrightarrow> (case x of (j, r) \<Rightarrow> case y of ((n, q, bytes), bl) \<Rightarrow>
     jget ic j = n \<and> fst (srv_strip r) = q \<and> kept B m (snd (srv_strip r)) bytes bl)"

fun ans_raw :: "ans \<Rightarrow> Data option \<Rightarrow> u64 option" where
  "ans_raw (AErr e) None = Some (word_of_int (error_code e))"
| "ans_raw (AVal v) None = Some v"
| "ans_raw (ABytes b) (Some d) = Some (response_raw (StSlice (slice_of d)))"
| "ans_raw _ _ = None"

definition ans_rel where
  "ans_rel ic B m x y \<longleftrightarrow> (case x of (j, v) \<Rightarrow> case y of ((n, r), bl) \<Rightarrow>
     jget ic j = n \<and> (\<exists>d. ans_raw r d = Some v \<and> kept B m d (ans_bytes r) bl))"

abbreviation blocks_of :: "('x \<times> u32 list) list \<Rightarrow> u32 list" where
  "blocks_of xs \<equiv> concat (map snd xs)"

definition sent_jobs :: "(u32 \<times> nat \<times> StRequest \<times> u8 list) list \<Rightarrow> nat list" where
  "sent_jobs xs = map (\<lambda>(h, n, q, b). n) (filter (\<lambda>(h, n, q, b). q \<noteq> StClose) xs)"

definition job_ids :: "'o rpc \<Rightarrow> nat list" where
  "job_ids a = sent_jobs (a_sent a) @ map fst (a_held a) @ map fst (a_answers a)"

text \<open>The part of the relation about jobs and tickets.\<close>

definition jobs_rel :: "('a, 'v, 'j, 'o) kstate \<Rightarrow> 'o rpc \<Rightarrow> bool" where
  "jobs_rel k a \<longleftrightarrow> arena_inv (ks_jobs k) \<and> length (storage (ks_jobs k)) \<le> 2 ^ 24 \<and> a_jobs a = job_map (ks_jobs k)
     \<and> distinct (job_ids a) \<and> set (job_ids a) = dom (a_jobs a)
     \<and> (\<forall>(n, r) \<in> set (a_answers a). suits (the (a_jobs a n)) r)
     \<and> (\<forall>w \<in> ran (a_jobs a). ticket_in k w) \<and> (\<forall>t \<in> set (a_waiting a). ticket_in k (WData t))
     \<and> a_waiting a = ks_wait_read k \<and> a_done a = result_of k"

text \<open>The part about the queues and the data in flight.\<close>

definition flight_rel where
  "flight_rel ic k q held a F Q H A \<longleftrightarrow>
     free_list (ks_buffers k) (ks_buf k) F \<and> length F = a_free a
   \<and> distinct (F @ blocks_of Q @ blocks_of H @ blocks_of A)
   \<and> a_sent a = map fst Q \<and> a_held a = map fst H \<and> a_answers a = map fst A
   \<and> list_all2 (sent_rel ic (ks_buffers k) (snd (ks_buf k))) (stream_requests (jraw ic) (ks_queue k, q, ks_mem k)) Q
   \<and> list_all2 (held_rel ic (ks_buffers k) (snd (ks_buf k))) held H
   \<and> list_all2 (ans_rel ic (ks_buffers k) (snd (ks_buf k))) (stream_responses (jraw ic) (ks_queue k, q, ks_mem k)) A"

definition good :: "('a, 'v, 'j) id_codec \<Rightarrow> Buffers \<Rightarrow> nat \<Rightarrow> ('a, 'v, 'j, 'o) kstate \<Rightarrow> ServerQueue \<Rightarrow> bool" where
  "good ic B mx k q \<longleftrightarrow> ids_ok ic \<and> ks_alive k \<and> ks_buffers k = B \<and> unat (ks_max_request_mem k) = mx
     \<and> buffers_ok B \<and> 0 < total_size B \<and> stream_ok (ks_queue k, q, ks_mem k)"

definition implements :: "('a, 'v, 'j) id_codec \<Rightarrow> Buffers \<Rightarrow> nat \<Rightarrow> ('a, 'v, 'j, 'o) system \<Rightarrow> 'o rpc \<Rightarrow> bool" where
  "implements ic B mx = (\<lambda>(k, q, held) a.
     good ic B mx k q \<and> jobs_rel k a \<and> (\<exists>F Q H A. flight_rel ic k q held a F Q H A))"

lemma sent_same:
  assumes "buffers_ok B" "\<forall>x \<in> set (blocks_of ys). same (block_size B) x m m'"
  shows "list_all2 (sent_rel ic B m) xs ys \<Longrightarrow> list_all2 (sent_rel ic B m') xs ys"
proof (rule list.rel_mono_strong, assumption)
  fix x y assume "y \<in> set ys" "sent_rel ic B m x y"
  then show "sent_rel ic B m' x y"
    using assms kept_same [OF assms(1)] by (fastforce simp: sent_rel_def req_rel_def)
qed

lemma held_same:
  assumes "buffers_ok B" "\<forall>x \<in> set (blocks_of ys). same (block_size B) x m m'"
  shows "list_all2 (held_rel ic B m) xs ys \<Longrightarrow> list_all2 (held_rel ic B m') xs ys"
proof (rule list.rel_mono_strong, assumption)
  fix x y assume "y \<in> set ys" "held_rel ic B m x y"
  then show "held_rel ic B m' x y"
    using assms kept_same [OF assms(1)] by (fastforce simp: held_rel_def)
qed

lemma ans_same:
  assumes "buffers_ok B" "\<forall>x \<in> set (blocks_of ys). same (block_size B) x m m'"
  shows "list_all2 (ans_rel ic B m) xs ys \<Longrightarrow> list_all2 (ans_rel ic B m') xs ys"
proof (rule list.rel_mono_strong, assumption)
  fix x y assume "y \<in> set ys" "ans_rel ic B m x y"
  then show "ans_rel ic B m' x y"
    using assms kept_same [OF assms(1)] by (fastforce simp: ans_rel_def)
qed

lemma result_new_ticket [simp]: "result_of (snd (new_ticket kd k)) = result_of k"
proof
  fix w
  show "result_of (snd (new_ticket kd k)) w = result_of k w"
    by (cases kd; cases w) (auto simp: status_of_def nth_append)
qed

lemma result_of_cong:
  "ks_obj k' = ks_obj k \<Longrightarrow> ks_u64 k' = ks_u64 k \<Longrightarrow> ks_data k' = ks_data k \<Longrightarrow> result_of k' = result_of k"
  by (rule ext, rename_tac w, case_tac w) simp_all

lemma ticket_in_cong:
  "ks_obj k' = ks_obj k \<Longrightarrow> ks_u64 k' = ks_u64 k \<Longrightarrow> ks_data k' = ks_data k \<Longrightarrow> ticket_in k' = ticket_in k"
  by (rule ext, rename_tac w, case_tac w) simp_all

section \<open>Calls\<close>

lemma wake_fields [simp]:
  "ks_buffers (wake_readers k) = ks_buffers k" "ks_buf (wake_readers k) = ks_buf k" "ks_queue (wake_readers k) = ks_queue k"
  "ks_mem (wake_readers k) = ks_mem k" "ks_alive (wake_readers k) = ks_alive k" "ks_jobs (wake_readers k) = ks_jobs k"
  "ks_max_request_mem (wake_readers k) = ks_max_request_mem k"
  by (simp_all add: wake_readers_def)

lemma wake_spec_fields [simp]:
  "a_free (wake a) = a_free a" "a_sent (wake a) = a_sent a" "a_held (wake a) = a_held a"
  "a_answers (wake a) = a_answers a" "a_jobs (wake a) = a_jobs a" "job_ids (wake a) = job_ids a"
  by (simp_all add: wake_def job_ids_def)

lemma ticket_in_complete [simp]: "ticket_in (k\<lparr>ks_data := complete t r (ks_data k)\<rparr>) w = ticket_in k w"
  by (cases w) simp_all

lemma result_complete_data:
  "ticket_in k (WData t) \<Longrightarrow>
    result_of (k\<lparr>ks_data := complete t (Inr b) (ks_data k)\<rparr>) = (result_of k)(WData t \<mapsto> Inr (VBytes b))"
  by (rule ext, rename_tac w, case_tac w) auto

lemma jobs_rel_wake:
  assumes "jobs_rel k a" shows "jobs_rel (wake_readers k) (wake a)"
proof (cases "ks_wait_read k = []")
  case True
  moreover have "a_waiting a = ks_wait_read k" using assms by (simp add: jobs_rel_def)
  ultimately have "wake a = a" "wake_readers k = k" by (simp_all add: wake_readers_def wake_def)
  then show ?thesis using assms by simp
next
  case False
  let ?t = "last (ks_wait_read k)"
  let ?k = "k\<lparr>ks_data := complete ?t (Inr []) (ks_data k)\<rparr>"
  have w: "a_waiting a = ks_wait_read k" and t: "ticket_in k (WData ?t)" using assms False by (auto simp: jobs_rel_def)
  have k: "wake_readers k = ?k\<lparr>ks_wait_read := butlast (ks_wait_read k)\<rparr>" using False by (simp add: wake_readers_def)
  have r: "result_of (wake_readers k) = (result_of k)(WData ?t \<mapsto> Inr (VBytes []))"
    using result_complete_data [OF t, of "[]"] unfolding k by (subst result_of_cong [of _ ?k]) simp_all
  have i: "ticket_in (wake_readers k) = ticket_in k"
    unfolding k by (subst ticket_in_cong [of _ ?k]) (simp_all add: fun_eq_iff)
  show ?thesis
    using assms False w unfolding jobs_rel_def r i
    by (auto simp: wake_def k job_ids_def dest: in_set_butlastD)
qed

lemma flight_rel_wake: "flight_rel ic (wake_readers k) q held (wake a) F Q H A \<longleftrightarrow> flight_rel ic k q held a F Q H A"
  by (simp add: flight_rel_def)

lemma new_ticket_fresh:
  assumes "jobs_rel k a" shows "fresh (waker kd (fst (new_ticket kd k))) a"
proof -
  have "\<not> ticket_in k (waker kd (fst (new_ticket kd k)))" "result_of k (waker kd (fst (new_ticket kd k))) = None"
    by (cases kd; simp add: status_of_def)+
  then show ?thesis using assms by (auto simp: fresh_def jobs_rel_def)
qed

lemma new_ticket_fields [simp]:
  "ks_buffers (snd (new_ticket kd k)) = ks_buffers k" "ks_buf (snd (new_ticket kd k)) = ks_buf k"
  "ks_queue (snd (new_ticket kd k)) = ks_queue k" "ks_mem (snd (new_ticket kd k)) = ks_mem k"
  "ks_alive (snd (new_ticket kd k)) = ks_alive k" "ks_jobs (snd (new_ticket kd k)) = ks_jobs k"
  "ks_max_request_mem (snd (new_ticket kd k)) = ks_max_request_mem k"
  "ks_wait_read (snd (new_ticket kd k)) = ks_wait_read k"
  by (cases kd; simp)+

lemma ticket_in_new: "ticket_in k w \<Longrightarrow> ticket_in (snd (new_ticket kd k)) w"
  "ticket_in (snd (new_ticket kd k)) (waker kd (fst (new_ticket kd k)))"
  by (cases kd; cases w; simp) (cases kd; simp)

lemma mset_distinct_set:
  assumes "mset (bl @ F') = mset F" "distinct (F @ R)"
  shows "distinct (F' @ R @ bl)" and "set bl \<inter> set R = {}" and "set bl \<union> set F' = set F" and "length F' = length F - length bl"
proof -
  have "set (bl @ F') = set F" using mset_eq_setD [OF assms(1)] .
  moreover have "distinct (bl @ F')" using mset_eq_imp_distinct_iff [OF assms(1)] assms(2) by simp
  moreover have "length (bl @ F') = length F" using mset_eq_length [OF assms(1)] .
  ultimately show "distinct (F' @ R @ bl)" "set bl \<inter> set R = {}" "set bl \<union> set F' = set F" "length F' = length F - length bl"
    using assms(2) by auto
qed

lemma flight_lists:
  assumes "flight_rel ic k q held a F Q H A"
  shows "list_all2 (sent_rel ic (ks_buffers k) (snd (ks_buf k))) (stream_requests (jraw ic) (ks_queue k, q, ks_mem k)) Q"
    and "list_all2 (held_rel ic (ks_buffers k) (snd (ks_buf k))) held H"
    and "list_all2 (ans_rel ic (ks_buffers k) (snd (ks_buf k))) (stream_responses (jraw ic) (ks_queue k, q, ks_mem k)) A"
    and "distinct (F @ blocks_of Q @ blocks_of H @ blocks_of A)" and "free_list (ks_buffers k) (ks_buf k) F"
    and "length F = a_free a" and "a_sent a = map fst Q" and "a_held a = map fst H" and "a_answers a = map fst A"
  using assms unfolding flight_rel_def by blast+

lemma flight_relI:
  assumes "free_list (ks_buffers k) (ks_buf k) F" "length F = a_free a" "distinct (F @ blocks_of Q @ blocks_of H @ blocks_of A)"
    "a_sent a = map fst Q" "a_held a = map fst H" "a_answers a = map fst A"
    "list_all2 (sent_rel ic (ks_buffers k) (snd (ks_buf k))) (stream_requests (jraw ic) (ks_queue k, q, ks_mem k)) Q"
    "list_all2 (held_rel ic (ks_buffers k) (snd (ks_buf k))) held H"
    "list_all2 (ans_rel ic (ks_buffers k) (snd (ks_buf k))) (stream_responses (jraw ic) (ks_queue k, q, ks_mem k)) A"
  shows "flight_rel ic k q held a F Q H A"
  using assms unfolding flight_rel_def by blast

lemma flight_call:
  assumes f: "flight_rel ic k q held a F Q H A" and B: "buffers_ok (ks_buffers k)"
    and req: "req_rel (ks_buffers k) (snd st) r qv b bl" and fl: "free_list (ks_buffers k) st F'"
    and ms: "mset (bl @ F') = mset F"
    and sm: "\<forall>x. x \<notin> set bl \<longrightarrow> same (block_size (ks_buffers k)) x (snd (ks_buf k)) (snd st)"
    and len: "length bl = blocks_needed (ks_buffers k) (length b)"
    and k': "ks_buffers k' = ks_buffers k" "ks_buf k' = st"
    and rq: "stream_requests (jraw ic) (ks_queue k', q, ks_mem k') = stream_requests (jraw ic) (ks_queue k, q, ks_mem k) @ [(h, j, r)]"
    and rs: "stream_responses (jraw ic) (ks_queue k', q, ks_mem k') = stream_responses (jraw ic) (ks_queue k, q, ks_mem k)"
    and a': "a_free a' = a_free a - blocks_needed (ks_buffers k) (length b)" "a_sent a' = a_sent a @ [(h, jget ic j, qv, b)]"
      "a_held a' = a_held a" "a_answers a' = a_answers a"
  shows "flight_rel ic k' q held a' F' (Q @ [((h, jget ic j, qv, b), bl)]) H A"
proof -
  let ?R = "blocks_of Q @ blocks_of H @ blocks_of A"
  have "distinct (F @ ?R)" using f by (simp add: flight_rel_def)
  note d = mset_distinct_set [OF ms this]
  have sm': "\<forall>x \<in> set ?R. same (block_size (ks_buffers k)) x (snd (ks_buf k)) (snd st)" using sm d(2) by auto
  note L = flight_lists [OF f]
  have "list_all2 (sent_rel ic (ks_buffers k) (snd st)) (stream_requests (jraw ic) (ks_queue k, q, ks_mem k)) Q"
    by (rule sent_same [OF B _ L(1)]) (use sm' in simp)
  moreover have "sent_rel ic (ks_buffers k) (snd st) (h, j, r) ((h, jget ic j, qv, b), bl)"
    using req by (simp add: sent_rel_def)
  ultimately have 1: "list_all2 (sent_rel ic (ks_buffers k) (snd st)) (stream_requests (jraw ic) (ks_queue k', q, ks_mem k'))
      (Q @ [((h, jget ic j, qv, b), bl)])"
    unfolding rq by (simp add: list_all2_appendI)
  have 2: "list_all2 (held_rel ic (ks_buffers k) (snd st)) held H"
    by (rule held_same [OF B _ L(2)]) (use sm' in simp)
  have 3: "list_all2 (ans_rel ic (ks_buffers k) (snd st)) (stream_responses (jraw ic) (ks_queue k', q, ks_mem k')) A"
    unfolding rs by (rule ans_same [OF B _ L(3)]) (use sm' in simp)
  have 4: "distinct (F' @ blocks_of (Q @ [((h, jget ic j, qv, b), bl)]) @ blocks_of H @ blocks_of A)"
    using d(1) by auto
  show ?thesis
    by (rule flight_relI) (use 1 2 3 4 fl k' a' L(6-) d(4) len in \<open>simp_all only: map_append list.map fst_conv\<close>)
qed

lemma requests_length:
  assumes "flight_rel ic k q held a F Q H A"
  shows "length (raw_requests (ks_queue k, q, ks_mem k)) = length (a_sent a)"
    and "length (stream_responses (jraw ic) (ks_queue k, q, ks_mem k)) = length (a_answers a)"
  using list_all2_lengthD [OF flight_lists(1) [OF assms]] list_all2_lengthD [OF flight_lists(3) [OF assms]]
    flight_lists(7,9) [OF assms] by (simp_all add: stream_requests_def)

lemma distinct_new:
  "distinct (xs @ ys) \<Longrightarrow> n \<notin> set (xs @ ys) \<Longrightarrow> distinct (xs @ n # ys)"
  by auto

lemma jobs_rel_call:
  assumes j: "jobs_rel k a" and jobs: "arena_inv jobs" "length (storage jobs) \<le> 2 ^ 24" "job_map (ks_jobs k) n = None"
      "job_map jobs = (job_map (ks_jobs k))(n \<mapsto> waker kd (fst (new_ticket kd k)))"
    and k': "ks_jobs k' = jobs" "ks_wait_read k' = ks_wait_read k" "ks_obj k' = ks_obj (snd (new_ticket kd k))"
      "ks_u64 k' = ks_u64 (snd (new_ticket kd k))" "ks_data k' = ks_data (snd (new_ticket kd k))"
    and r: "r \<noteq> StClose"
  shows "jobs_rel k' (a\<lparr>a_free := fr, a_sent := a_sent a @ [(h, n, r, b)], a_jobs := (a_jobs a)(n \<mapsto> waker kd (fst (new_ticket kd k)))\<rparr>)"
proof -
  let ?w = "waker kd (fst (new_ticket kd k))"
  have in': "ticket_in k' = ticket_in (snd (new_ticket kd k))" using k' by (intro ticket_in_cong)
  have res: "result_of k' = result_of k" using k' result_of_cong [of k' "snd (new_ticket kd k)"] by simp
  have n: "a_jobs a n = None" "n \<notin> set (job_ids a)" using j jobs(3) by (auto simp: jobs_rel_def)
  let ?r = "map fst (a_held a) @ map fst (a_answers a)"
  have ids: "job_ids a = sent_jobs (a_sent a) @ ?r" by (simp add: job_ids_def)
  have new: "job_ids (a\<lparr>a_free := fr, a_sent := a_sent a @ [(h, n, r, b)], a_jobs := (a_jobs a)(n \<mapsto> ?w)\<rparr>)
      = sent_jobs (a_sent a) @ n # ?r" using r by (simp add: job_ids_def sent_jobs_def)
  have d: "distinct (job_ids a)" "set (job_ids a) = dom (a_jobs a)" using j by (simp_all only: jobs_rel_def)
  have "distinct (sent_jobs (a_sent a) @ n # ?r)" by (rule distinct_new) (use d(1) n(2) ids in simp_all)
  moreover have "set (sent_jobs (a_sent a) @ n # ?r) = dom ((a_jobs a)(n \<mapsto> ?w))"
    using d(2) unfolding ids by auto
  moreover have "\<forall>(m, r) \<in> set (a_answers a). suits (the (((a_jobs a)(n \<mapsto> ?w)) m)) r"
  proof (clarify)
    fix m r assume mr: "(m, r) \<in> set (a_answers a)"
    then have "m \<in> set (job_ids a)" by (force simp: ids)
    then have "m \<noteq> n" using n(2) by auto
    then show "suits (the (((a_jobs a)(n \<mapsto> ?w)) m)) r" using mr j by (auto simp: jobs_rel_def)
  qed
  moreover have "\<forall>w \<in> ran ((a_jobs a)(n \<mapsto> ?w)). ticket_in k' w"
  proof
    fix w assume "w \<in> ran ((a_jobs a)(n \<mapsto> ?w))"
    then have "w = ?w \<or> w \<in> ran (a_jobs a)" using n(1) by (simp add: ran_map_upd)
    moreover have "ticket_in k w" if "w \<in> ran (a_jobs a)" using j that unfolding jobs_rel_def by blast
    ultimately show "ticket_in k' w" unfolding in' using ticket_in_new by blast
  qed
  moreover have "\<forall>t \<in> set (a_waiting a). ticket_in k' (WData t)"
    using j ticket_in_new(1) unfolding in' jobs_rel_def by blast
  ultimately show ?thesis
    using j jobs k'(1,2) res unfolding jobs_rel_def new by simp
qed

lemma op_request_not_close [simp]: "op_request op \<noteq> StClose"
  by (cases op) simp_all

lemma ids_okD: "ids_ok ic \<Longrightarrow> n < 2 ^ 24 \<Longrightarrow> \<exists>j. jnew ic n = Some j \<and> jget ic j = n"
  by (simp add: ids_ok_def)

lemma call_step:
  assumes I: "implements ic B mx (k, q, held) a" and al: "allowed B mx (Call h op) a"
  shows "\<exists>s' a'. exec ic (Call h op) (k, q, held) = Some s' \<and> rpc_step B mx (Call h op) a a' \<and> implements ic B mx s' a'"
proof -
  obtain F Q H A where g: "good ic B mx k q" and j: "jobs_rel k a" and f: "flight_rel ic k q held a F Q H A"
    using I by (auto simp: implements_def)
  let ?kd = "op_kind op" let ?k0 = "snd (new_ticket ?kd k)" let ?w = "waker ?kd (fst (new_ticket ?kd k))"
  have B: "buffers_ok (ks_buffers k)" "0 < total_size (ks_buffers k)" "ks_buffers k = B" and ic: "codec_ok (jraw ic)" "ids_ok ic"
    and mx: "unat (ks_max_request_mem k) = mx" and st: "stream_ok (ks_queue k, q, ks_mem k)" and alive: "ks_alive k"
    using g by (auto simp: good_def ids_ok_def)
  note L = flight_lists [OF f]
  obtain hh jobs where ins: "insert increment_unit ?w (ks_jobs k) = Some (hh, jobs)" "h_index hh < 2 ^ 24"
    "length (storage jobs) \<le> 2 ^ 24" "arena_inv jobs" "job_map (ks_jobs k) (h_index hh) = None"
    "job_map jobs = (job_map (ks_jobs k))(h_index hh \<mapsto> ?w)"
    using insert_job [of "ks_jobs k" ?w] j al by (auto simp: jobs_rel_def)
  obtain r st1 bl F' where c: "op_closure op ?k0 = Some (r, ?k0\<lparr>ks_buf := st1\<rparr>)"
    "req_rel (ks_buffers k) (snd st1) r (op_request op) (op_sent mx op) bl" "free_list (ks_buffers k) st1 F'"
    "mset (bl @ F') = mset F" "\<forall>x. x \<notin> set bl \<longrightarrow> same (block_size (ks_buffers k)) x (snd (ks_buf k)) (snd st1)"
    using op_closure_sends [of ?k0 F op] B L(5,6) al mx by (auto simp: sends_def)
  have len: "length bl = blocks_needed (ks_buffers k) (length (op_sent mx op))"
    using c(2) by (auto simp: req_rel_def kept_def)
  obtain jj where jj: "jnew ic (h_index hh) = Some jj" "jget ic jj = h_index hh" using ids_okD [OF ic(2) ins(2)] by blast
  have room: "length (raw_requests (ks_queue k, q, ks_mem k)) \<noteq> 128" using requests_length(1) [OF f] al by simp
  obtain c' m' where e: "client_try_enqueue (jraw ic) h jj r (ks_queue k, ks_mem k) = Inr (c', m')" "stream_ok (c', q, m')"
    "stream_requests (jraw ic) (c', q, m') = stream_requests (jraw ic) (ks_queue k, q, ks_mem k) @ [(h, jj, r)]"
    "stream_responses (jraw ic) (c', q, m') = stream_responses (jraw ic) (ks_queue k, q, ks_mem k)"
    using client_enqueue_room [OF ic(1) st room] by blast
  let ?k1 = "?k0\<lparr>ks_buf := st1, ks_jobs := jobs, ks_queue := c', ks_mem := m'\<rparr>"
  let ?a1 = "a\<lparr>a_free := a_free a - blocks_needed B (length (op_sent mx op)),
    a_sent := a_sent a @ [(h, h_index hh, op_request op, op_sent mx op)], a_jobs := (a_jobs a)(h_index hh \<mapsto> ?w)\<rparr>"
  have "submit_job ic h ?w (op_closure op) ?k0 = Some (wake_readers ?k1)"
    using ins(1) c(1) jj(1) e(1) by (simp add: submit_job_def into_raw_def)
  then have ex: "exec ic (Call h op) (k, q, held) = Some (wake_readers ?k1, q, held)"
    using exec_op_submit [OF alive, of ic h op] by simp
  have "jobs_rel ?k1 ?a1" by (rule jobs_rel_call [OF j ins(4,3,5,6)]) simp_all
  then have 1: "jobs_rel (wake_readers ?k1) (wake ?a1)" by (rule jobs_rel_wake)
  have "flight_rel ic ?k1 q held ?a1 F' (Q @ [((h, jget ic jj, op_request op, op_sent mx op), bl)]) H A"
    by (rule flight_call [OF f B(1) c(2-5) len]) (use e jj(2) B(3) in simp_all)
  then have 2: "flight_rel ic (wake_readers ?k1) q held (wake ?a1) F' (Q @ [((h, jget ic jj, op_request op, op_sent mx op), bl)]) H A"
    by (simp only: flight_rel_wake)
  have "good ic B mx (wake_readers ?k1) q" using g e(2) by (simp add: good_def)
  then have "implements ic B mx (wake_readers ?k1, q, held) (wake ?a1)" using 1 2 by (auto simp: implements_def)
  moreover have "h_index hh \<notin> dom (a_jobs a)" using ins(5) j by (auto simp: jobs_rel_def)
  then have "rpc_step B mx (Call h op) a (wake ?a1)" using new_ticket_fresh [OF j] by (rule rpc_step.call)
  ultimately show ?thesis using ex by blast
qed

end
