(* ===== verification/Stream_Refinement.thy ===== *)
theory Stream_Refinement
  imports Stream_Simulation
begin

text \<open>
  The combined system of a streaming table carries out every action that the specification allows,
  without a panic and with the specified effect: a lemma per action, the loop over the responses by
  induction, and the start from a fresh table with all blocks free.
\<close>

section \<open>Closing, waiting and taking\<close>

text \<open>Changes that neither open nor finish a job.\<close>

lemma jobs_rel_keep:
  assumes j: "jobs_rel k a" and k: "ks_jobs k' = ks_jobs k" "ks_wait_read k' = ks_wait_read k @ ws"
      "\<And>w. ticket_in k w \<Longrightarrow> ticket_in k' w" "\<forall>t \<in> set ws. ticket_in k' (WData t)"
    and a: "a_jobs a' = a_jobs a" "mset (job_ids a') = mset (job_ids a)" "a_waiting a' = a_waiting a @ ws"
      "a_done a' = result_of k'" "\<forall>(n, r) \<in> set (a_answers a'). suits (the (a_jobs a n)) r"
  shows "jobs_rel k' a'"
proof -
  have "distinct (job_ids a') = distinct (job_ids a)" "set (job_ids a') = set (job_ids a)"
    using mset_eq_imp_distinct_iff [OF a(2)] mset_eq_setD [OF a(2)] by simp_all
  then show ?thesis using j a(5) unfolding jobs_rel_def k(1,2) a(1,3,4) using k(3,4) by (auto simp del: ticket_in.simps)
qed

lemma jobs_rel_suits: "jobs_rel k a \<Longrightarrow> \<forall>(n, r) \<in> set (a_answers a). suits (the (a_jobs a n)) r"
  unfolding jobs_rel_def by (elim conjE)

lemma jobs_rel_done: "jobs_rel k a \<Longrightarrow> a_done a = result_of k"
  by (simp add: jobs_rel_def)

lemma close_step:
  assumes I: "implements ic B mx (k, q, held) a" and al: "allowed B mx (Close h) a"
  shows "\<exists>s' a'. exec ic (Close h) (k, q, held) = Some s' \<and> rpc_step B mx (Close h) a a' \<and> implements ic B mx s' a'"
proof -
  obtain F Q H A where g: "good ic B mx k q" and j: "jobs_rel k a" and f: "flight_rel ic k q held a F Q H A"
    using I by (auto simp: implements_def)
  have B: "buffers_ok (ks_buffers k)" "ks_buffers k = B" and ic: "codec_ok (jraw ic)" and alive: "ks_alive k"
    and st: "stream_ok (ks_queue k, q, ks_mem k)" using g by (auto simp: good_def ids_ok_def)
  note L = flight_lists [OF f]
  have room: "length (raw_requests (ks_queue k, q, ks_mem k)) \<noteq> 128" using requests_length(1) [OF f] al by simp
  let ?j = "jdefault ic"
  obtain c' m' where e: "client_try_enqueue (jraw ic) h ?j StClose (ks_queue k, ks_mem k) = Inr (c', m')" "stream_ok (c', q, m')"
    "stream_requests (jraw ic) (c', q, m') = stream_requests (jraw ic) (ks_queue k, q, ks_mem k) @ [(h, ?j, StClose)]"
    "stream_responses (jraw ic) (c', q, m') = stream_responses (jraw ic) (ks_queue k, q, ks_mem k)"
    using client_enqueue_room [OF ic st room] by blast
  let ?k1 = "k\<lparr>ks_queue := c', ks_mem := m'\<rparr>"
  let ?a1 = "a\<lparr>a_sent := a_sent a @ [(h, jget ic ?j, StClose, [])]\<rparr>"
  have req: "req_rel (ks_buffers k) (snd (ks_buf k)) StClose StClose [] []" by (simp add: req_rel_def kept_None)
  have ex: "exec ic (Close h) (k, q, held) = Some (wake_readers ?k1, q, held)"
    using e(1) alive by (simp add: stream_drop_def)
  have tk: "result_of ?k1 = result_of k" "ticket_in ?k1 = ticket_in k" by (rule result_of_cong ticket_in_cong; simp)+
  have "jobs_rel ?k1 ?a1"
    by (rule jobs_rel_keep [OF j, where ws = "[]"])
      (use tk jobs_rel_suits [OF j] jobs_rel_done [OF j] in \<open>simp_all add: job_ids_def sent_jobs_def\<close>)
  then have 1: "jobs_rel (wake_readers ?k1) (wake ?a1)" by (rule jobs_rel_wake)
  have "flight_rel ic ?k1 q held ?a1 F (Q @ [((h, jget ic ?j, StClose, []), [])]) H A"
    by (rule flight_call [OF f B(1) req L(5)]) (use e in \<open>simp_all add: blocks_needed_def\<close>)
  then have 2: "flight_rel ic (wake_readers ?k1) q held (wake ?a1) F (Q @ [((h, jget ic ?j, StClose, []), [])]) H A"
    by (simp only: flight_rel_wake)
  have "good ic B mx (wake_readers ?k1) q" using g e(2) by (simp add: good_def)
  then have "implements ic B mx (wake_readers ?k1, q, held) (wake ?a1)" using 1 2 by (auto simp: implements_def)
  then show ?thesis using ex rpc_step.close by blast
qed

lemma result_answer_data:
  "result_of (k\<lparr>ks_data := snd (ticket_new_complete (Inr b) (ks_data k))\<rparr>)
    = (result_of k)(WData (length (cells (ks_data k))) \<mapsto> Inr (VBytes b))"
  by (rule ext, rename_tac w, case_tac w) simp_all

lemma result_answer_u64:
  "result_of (k\<lparr>ks_u64 := snd (ticket_new_complete (Inr v) (ks_u64 k))\<rparr>)
    = (result_of k)(WU64 (length (cells (ks_u64 k))) \<mapsto> Inr (VU64 v))"
  by (rule ext, rename_tac w, case_tac w) simp_all

lemma flight_cong:
  assumes "ks_buffers k' = ks_buffers k" "ks_buf k' = ks_buf k" "ks_queue k' = ks_queue k" "ks_mem k' = ks_mem k"
    "a_free a' = a_free a" "a_sent a' = a_sent a" "a_held a' = a_held a" "a_answers a' = a_answers a"
  shows "flight_rel ic k' q held a' F Q H A \<longleftrightarrow> flight_rel ic k q held a F Q H A"
  by (simp add: flight_rel_def assms)

lemma wait_step:
  assumes I: "implements ic B mx (k, q, held) a"
  shows "\<exists>s' a'. exec ic Wait (k, q, held) = Some s' \<and> rpc_step B mx Wait a a' \<and> implements ic B mx s' a'"
proof -
  obtain F Q H A where g: "good ic B mx k q" and j: "jobs_rel k a" and f: "flight_rel ic k q held a F Q H A"
    using I by (auto simp: implements_def)
  have st: "stream_ok (ks_queue k, q, ks_mem k)" and alive: "ks_alive k" using g by (auto simp: good_def)
  let ?n = "requests_enqueued (ks_queue k, ks_mem k)" let ?t = "length (cells (ks_data k))"
  have fresh: "fresh (WData ?t) a" using new_ticket_fresh [OF j, of KData] by simp
  have n: "?n \<noteq> 0 \<longleftrightarrow> a_sent a \<noteq> []"
    using requests_enqueued_length [OF st, of "jraw ic"] requests_length(1) [OF f]
    by (simp add: stream_requests_def) (metis length_0_conv unat_eq_0)
  have dn: "a_done a = result_of k" "a_waiting a = ks_wait_read k" using j by (simp_all add: jobs_rel_def)
  show ?thesis
  proof (cases "a_sent a = []")
    case False
    let ?k = "k\<lparr>ks_data := snd (ticket_new_complete (Inr []) (ks_data k))\<rparr>"
    let ?a = "a\<lparr>a_done := (a_done a)(WData ?t \<mapsto> Inr (VBytes []))\<rparr>"
    have "ticket_in ?k w" if "ticket_in k w" for w using that by (cases w) simp_all
    then have "jobs_rel ?k ?a"
      by (intro jobs_rel_keep [OF j, where ws = "[]"])
        (use jobs_rel_suits [OF j] in \<open>simp_all add: result_answer_data dn(1) job_ids_def del: ticket_in.simps\<close>)
    moreover have "flight_rel ic ?k q held ?a F Q H A" using f by (subst flight_cong [of _ k _ a]) simp_all
    moreover have "good ic B mx ?k q" using g by (simp add: good_def)
    ultimately have "implements ic B mx (?k, q, held) ?a" by (auto simp: implements_def)
    moreover have "exec ic Wait (k, q, held) = Some (?k, q, held)"
      using alive False n by (simp add: notify_read_def answer_data_def split_beta)
    ultimately show ?thesis using rpc_step.wait_now [OF False fresh] by blast
  next
    case True
    let ?k = "k\<lparr>ks_data := snd (ticket_new (ks_data k)), ks_wait_read := ks_wait_read k @ [?t]\<rparr>"
    let ?a = "a\<lparr>a_waiting := a_waiting a @ [?t]\<rparr>"
    have r: "result_of ?k = result_of k"
      using result_new_ticket [of KData k] by (subst result_of_cong [of _ "snd (new_ticket KData k)"]) simp_all
    have "ticket_in ?k w" if "ticket_in k w" for w using that by (cases w) simp_all
    then have "jobs_rel ?k ?a"
      by (intro jobs_rel_keep [OF j, where ws = "[?t]"])
        (use jobs_rel_suits [OF j] r dn(1) in \<open>simp_all add: job_ids_def\<close>)
    moreover have "flight_rel ic ?k q held ?a F Q H A" using f by (subst flight_cong [of _ k _ a]) simp_all
    moreover have "good ic B mx ?k q" using g by (simp add: good_def)
    ultimately have "implements ic B mx (?k, q, held) ?a" by (auto simp: implements_def)
    moreover have "exec ic Wait (k, q, held) = Some (?k, q, held)"
      using alive True n by (simp add: notify_read_def ticket_new_def)
    ultimately show ?thesis using rpc_step.wait_later [OF True fresh] by blast
  qed
qed

lemma seek_stream_inverse [simp]: "seek_into_stream (seek_from_stream f) = f"
  by (cases f) simp_all

lemma srv_request_ok:
  assumes "req_rel (ks_buffers k) m r qv bytes bl"
  shows "\<exists>r'. srv_request r k = Some (r', k) \<and> fst (srv_strip r') = qv \<and> kept (ks_buffers k) m (snd (srv_strip r')) bytes bl"
proof -
  obtain x where x: "snd (strip r) = map_option slice_of x" "kept (ks_buffers k) m x bytes bl"
    and r: "\<forall>h. r \<noteq> StShare h" "fst (strip r) = qv" using assms by (auto simp: req_rel_def)
  have "get_data (ks_buffers k) (slice_of d) = Some d" if "x = Some d" for d
    using x(2) that get_data_slice by (auto simp: kept_Some)
  then show ?thesis using x r by (cases r; cases x) (auto simp: get_owned_buf_def)
qed

lemma take_step:
  assumes I: "implements ic B mx (k, q, held) a"
  shows "\<exists>s' a'. exec ic Take (k, q, held) = Some s' \<and> rpc_step B mx Take a a' \<and> implements ic B mx s' a'"
proof -
  obtain F Q H A where g: "good ic B mx k q" and j: "jobs_rel k a" and f: "flight_rel ic k q held a F Q H A"
    using I by (auto simp: implements_def)
  have st: "stream_ok (ks_queue k, q, ks_mem k)" using g by (auto simp: good_def)
  note L = flight_lists [OF f]
  show ?thesis
  proof (cases Q)
    case Nil
    then have e: "stream_requests (jraw ic) (ks_queue k, q, ks_mem k) = []" "a_sent a = []" using L by simp_all
    have "exec ic Take (k, q, held) = Some (k, q, held)" using server_dequeue_nil [OF st e(1)] by (simp add: srv_dequeue_def)
    then show ?thesis using rpc_step.take_none [OF e(2)] I by blast
  next
    case (Cons y Q')
    obtain h n qv bytes bl where y: "y = ((h, n, qv, bytes), bl)" by (cases y) auto
    obtain jj r rs where e: "stream_requests (jraw ic) (ks_queue k, q, ks_mem k) = (h, jj, r) # rs" "jget ic jj = n"
      "req_rel (ks_buffers k) (snd (ks_buf k)) r qv bytes bl"
      "list_all2 (sent_rel ic (ks_buffers k) (snd (ks_buf k))) rs Q'"
      using L(1) Cons y by (auto simp: list_all2_Cons2 sent_rel_def)
    have a: "a_sent a = (h, n, qv, bytes) # map fst Q'" using L(7) Cons y by simp
    obtain q' m' where d: "server_dequeue (jraw ic) (q, ks_mem k) = Some (Some (h, jj, r), q', m')" "stream_ok (ks_queue k, q', m')"
      "stream_requests (jraw ic) (ks_queue k, q', m') = rs"
      "stream_responses (jraw ic) (ks_queue k, q', m') = stream_responses (jraw ic) (ks_queue k, q, ks_mem k)"
      using server_dequeue_cons [OF st e(1)] by blast
    let ?k = "k\<lparr>ks_mem := m'\<rparr>"
    obtain r' where r': "srv_request r ?k = Some (r', ?k)" "fst (srv_strip r') = qv"
      "kept (ks_buffers k) (snd (ks_buf k)) (snd (srv_strip r')) bytes bl"
      using srv_request_ok [of ?k "snd (ks_buf k)" r qv bytes bl] e(3) by auto
    have g': "good ic B mx ?k q'" using g d(2) by (simp add: good_def)
    have tk: "result_of ?k = result_of k" "ticket_in ?k = ticket_in k" by (rule result_of_cong ticket_in_cong; simp)+
    show ?thesis
    proof (cases "qv = StClose")
      case True
      let ?a = "a\<lparr>a_sent := map fst Q'\<rparr>"
      have "snd (srv_strip r') = None" using r'(2) True by (cases r') simp_all
      then have "bl = []" using r'(3) by (simp add: kept_None)
      have "flight_rel ic ?k q' held ?a F Q' H A"
        by (rule flight_relI) (use L(2-) e(4) d(3,4) Cons y \<open>bl = []\<close> in simp_all)
      moreover have "jobs_rel ?k ?a"
        by (rule jobs_rel_keep [OF j, where ws = "[]"]) (use a True tk jobs_rel_suits [OF j] jobs_rel_done [OF j] in
          \<open>simp_all add: job_ids_def sent_jobs_def\<close>)
      ultimately have "implements ic B mx (?k, q', held) ?a" using g' by (auto simp: implements_def)
      moreover have "exec ic Take (k, q, held) = Some (?k, q', held)"
        using d(1) r' True by (simp add: srv_dequeue_def)
      ultimately show ?thesis using rpc_step.take_close a True by blast
    next
      case False
      let ?a = "a\<lparr>a_sent := map fst Q', a_held := a_held a @ [(n, qv, bytes)]\<rparr>"
      have hr: "held_rel ic (ks_buffers k) (snd (ks_buf k)) (jj, r') ((n, qv, bytes), bl)"
        using r' e(2) by (simp add: held_rel_def)
      have "flight_rel ic ?k q' (held @ [(jj, r')]) ?a F Q' (H @ [((n, qv, bytes), bl)]) A"
        by (rule flight_relI) (use L(2-) e(4) d(3,4) Cons y hr in \<open>auto intro: list_all2_appendI\<close>)
      moreover have "jobs_rel ?k ?a"
        by (rule jobs_rel_keep [OF j, where ws = "[]"]) (use a False tk jobs_rel_suits [OF j] jobs_rel_done [OF j] in
          \<open>simp_all add: job_ids_def sent_jobs_def\<close>)
      ultimately have "implements ic B mx (?k, q', held @ [(jj, r')]) ?a" using g' by (auto simp: implements_def)
      moreover have "exec ic Take (k, q, held) = Some (?k, q', held @ [(jj, r')])"
        using d(1) r' False by (simp add: srv_dequeue_def)
      ultimately show ?thesis using rpc_step.take [OF a False] by blast
    qed
  qed
qed

section \<open>Answers\<close>

lemma drop_request_ok:
  assumes B: "buffers_ok (ks_buffers k)" and kp: "kept (ks_buffers k) (snd (ks_buf k)) (snd (srv_strip r)) bytes bl"
    and fl: "free_list (ks_buffers k) (ks_buf k) F" and dis: "set bl \<inter> set F = {}"
  shows "\<exists>st F'. drop_request r k = Some (k\<lparr>ks_buf := st\<rparr>) \<and> free_list (ks_buffers k) st F' \<and> mset F' = mset (bl @ F)
    \<and> (\<forall>x. x \<notin> set bl \<longrightarrow> same (block_size (ks_buffers k)) x (snd (ks_buf k)) (snd st))"
proof (cases "snd (srv_strip r)")
  case None
  then have "bl = []" using kp by (simp add: kept_None)
  then have "drop_request r k = Some (k\<lparr>ks_buf := ks_buf k\<rparr>)" using None by (simp add: drop_request_def)
  then show ?thesis using fl \<open>bl = []\<close> by (metis append_Nil same_refl)
next
  case (Some d)
  obtain h m where hm: "ks_buf k = (h, m)" by (cases "ks_buf k")
  have h: "holds (ks_buffers k) m d bytes bl" using kp Some hm by (simp add: kept_Some)
  obtain st zs where z: "manual_drop (ks_buffers k) d (h, m) = Some st" "free_list (ks_buffers k) st zs"
    "mset zs = mset (bl @ F)" "\<forall>x. x \<notin> set bl \<longrightarrow> same (block_size (ks_buffers k)) x m (snd st)"
    using holds_drop [OF B h fl [unfolded hm] dis] by blast
  have "drop_request r k = Some (k\<lparr>ks_buf := st\<rparr>)" using z(1) Some hm by (simp add: drop_request_def data_drop_def)
  then show ?thesis using z(2-) hm by (intro exI [of _ st] exI [of _ zs]) simp
qed

definition replies :: "('a, 'v, 'j, 'o) kstate \<Rightarrow> u32 list \<Rightarrow> ans
    \<Rightarrow> ('o SrvResponse \<times> ('a, 'v, 'j, 'o) kstate) panics \<Rightarrow> bool" where
  "replies k F r res \<longleftrightarrow> (\<exists>rs resp d st bl F'. res = Some (rs, k\<lparr>ks_buf := st\<rparr>)
     \<and> (\<forall>k'. srv_response rs (k' :: ('a, 'v, 'j, 'o) kstate) = Some (resp, k')) \<and> ans_raw r d = Some (response_raw resp)
     \<and> kept (ks_buffers k) (snd st) d (ans_bytes r) bl \<and> free_list (ks_buffers k) st F' \<and> mset (bl @ F') = mset F
     \<and> (\<forall>x. x \<notin> set bl \<longrightarrow> same (block_size (ks_buffers k)) x (snd (ks_buf k)) (snd st)))"

lemma repliesI:
  assumes "res = Some (rs, k\<lparr>ks_buf := st\<rparr>)" "\<And>k' :: ('a, 'v, 'j, 'o) kstate. srv_response rs k' = Some (resp, k')"
    "ans_raw r d = Some (response_raw resp)" "kept (ks_buffers k) (snd st) d (ans_bytes r) bl"
    "free_list (ks_buffers k) st F'" "mset (bl @ F') = mset F"
    "\<And>x. x \<notin> set bl \<Longrightarrow> same (block_size (ks_buffers k)) x (snd (ks_buf k)) (snd st)"
  shows "replies (k :: ('a, 'v, 'j, 'o) kstate) F r res"
  unfolding replies_def using assms by blast

lemma make_reply_bytes:
  fixes k :: "('a, 'v, 'j, 'o) kstate"
  assumes B: "buffers_ok (ks_buffers k)" "0 < total_size (ks_buffers k)" and fl: "free_list (ks_buffers k) (ks_buf k) F"
    and n: "length bytes < 2 ^ 32" "blocks_needed (ks_buffers k) (length bytes) \<le> length F"
  shows "replies k F (ABytes bytes) (make_reply (ReplyBytes bytes) k)"
proof -
  let ?B = "ks_buffers k"
  obtain h m where hm: "ks_buf k = (h, m)" by (cases "ks_buf k")
  obtain d h' m1 b0 bl F' where a: "alloc ?B (length bytes) (h, m) = Some (Some d, (h', m1))" "length b0 = length bytes"
    "holds ?B m1 d b0 bl" "free_list ?B (h', m1) F'" "mset (bl @ F') = mset F" "length bl = blocks_needed ?B (length bytes)"
    "\<forall>x. x \<notin> set bl \<longrightarrow> same (block_size ?B) x m m1"
    using holds_alloc [OF B(1) fl [unfolded hm] n(1) B(2) n(2)] by blast
  have "\<exists>m'. data_copy_from ?B d 0 bytes m1 = Some m' \<and> holds ?B m' d (take 0 b0 @ bytes @ drop (0 + length bytes) b0) bl
      \<and> (\<forall>x. x \<notin> set bl \<longrightarrow> same (block_size ?B) x m1 m')"
    by (rule holds_write [OF B(1) a(3)]) (simp add: a(2))
  then obtain m2 where m2: "data_copy_from ?B d 0 bytes m1 = Some m2" "holds ?B m2 d bytes bl"
    "\<forall>x. x \<notin> set bl \<longrightarrow> same (block_size ?B) x m1 m2" using a(2) by auto
  have dist: "set bl \<inter> set F' = {}"
    using mset_eq_imp_distinct_iff [OF a(5)] free_list_distinct [OF fl] by simp
  show ?thesis
  proof (rule repliesI)
    show "make_reply (ReplyBytes bytes) k = Some (RsData d, k\<lparr>ks_buf := (h', m2)\<rparr>)"
      using a(1) m2(1) hm by (simp add: srv_alloc_def)
    show "srv_response (RsData d) k' = Some (StSlice (slice_of d), k')" for k' :: "('a, 'v, 'j, 'o) kstate"
      using holds_len [OF m2(2)] by (simp add: slice_of_def)
    show "ans_raw (ABytes bytes) (Some d) = Some (response_raw (StSlice (slice_of d)))" by simp
    show "kept ?B (snd (h', m2)) (Some d) (ans_bytes (ABytes bytes)) bl" using m2(2) a(6) by (simp add: kept_Some)
    show "free_list ?B (h', m2) F'" by (rule free_list_same [OF B(1) a(4)]) (use m2(3) dist in auto)
    show "mset (bl @ F') = mset F" by (rule a(5))
    show "same (block_size ?B) x (snd (ks_buf k)) (snd (h', m2))" if "x \<notin> set bl" for x
      using a(7) m2(3) that same_trans hm by (metis snd_conv)
  qed
qed

lemma make_reply_ok:
  assumes B: "buffers_ok (ks_buffers k)" "0 < total_size (ks_buffers k)" and fl: "free_list (ks_buffers k) (ks_buf k) F"
    and s: "suits w (reply_ans rep)" and n: "blocks_needed (ks_buffers k) (length (ans_bytes (reply_ans rep))) \<le> length F"
  shows "replies k F (reply_ans rep) (make_reply rep k)"
proof (cases rep)
  case (ReplyBytes bytes)
  then have "length bytes < 2 ^ 32" using s by (cases w) simp_all
  then show ?thesis using make_reply_bytes [OF B fl] n ReplyBytes by simp
qed (auto intro!: repliesI [where d = None and st = "ks_buf k" and bl = "[]" and F' = F] simp: fl kept_None)

lemma flight_answer:
  assumes f: "flight_rel ic k q held a F Q H A" and B: "buffers_ok (ks_buffers k)"
    and i: "i < length H" "H ! i = ((n, qv, bytes), bl)"
    and F1: "mset F1 = mset (bl @ F)" and F2: "mset (bl' @ F2) = mset F1" "free_list (ks_buffers k) st F2"
    and len: "length bl = blocks_needed (ks_buffers k) (length bytes)"
    and sm: "\<forall>x. x \<notin> set bl \<union> set bl' \<longrightarrow> same (block_size (ks_buffers k)) x (snd (ks_buf k)) (snd st)"
    and kp: "kept (ks_buffers k) (snd st) d (ans_bytes r) bl'" "ans_raw r d = Some v" "jget ic jj = n"
    and k': "ks_buffers k' = ks_buffers k" "ks_buf k' = st"
    and rq: "stream_requests (jraw ic) (ks_queue k', q', ks_mem k') = stream_requests (jraw ic) (ks_queue k, q, ks_mem k)"
    and rs: "stream_responses (jraw ic) (ks_queue k', q', ks_mem k') = stream_responses (jraw ic) (ks_queue k, q, ks_mem k) @ [(jj, v)]"
  shows "flight_rel ic k' q' (take i held @ drop (Suc i) held)
    (a\<lparr>a_free := a_free a + blocks_needed (ks_buffers k) (length bytes) - blocks_needed (ks_buffers k) (length (ans_bytes r)),
       a_held := take i (a_held a) @ drop (Suc i) (a_held a), a_answers := a_answers a @ [(n, r)]\<rparr>)
    F2 Q (take i H @ drop (Suc i) H) (A @ [((n, r), bl')])"
proof -
  note L = flight_lists [OF f]
  let ?H = "take i H @ drop (Suc i) H" let ?R = "blocks_of Q @ blocks_of ?H @ blocks_of A"
  have H: "H = take i H @ ((n, qv, bytes), bl) # drop (Suc i) H" using id_take_nth_drop [OF i(1)] i(2) by simp
  have "blocks_of H = blocks_of (take i H) @ bl @ blocks_of (drop (Suc i) H)"
    using arg_cong [OF H, of "\<lambda>xs. blocks_of xs"] by simp
  then have "mset (F @ blocks_of Q @ blocks_of H @ blocks_of A) = mset ((bl @ F) @ ?R)" by simp
  then have d0: "distinct ((bl @ F) @ ?R)" using mset_eq_imp_distinct_iff L(4) by metis
  have "mset ((bl @ F) @ ?R) = mset (F1 @ ?R)" using F1 by simp
  then have d1: "distinct (F1 @ ?R)" using mset_eq_imp_distinct_iff d0 by metis
  have bl: "set bl \<inter> set ?R = {}" using d0 by (simp only: distinct_append set_append) blast
  note d = mset_distinct_set [OF F2(1) d1]
  have sm': "\<forall>x \<in> set ?R. same (block_size (ks_buffers k)) x (snd (ks_buf k)) (snd st)"
  proof
    fix x assume "x \<in> set ?R"
    then have "x \<notin> set bl \<union> set bl'" using bl d(2) by (simp only: disjoint_iff Un_iff) blast
    then show "same (block_size (ks_buffers k)) x (snd (ks_buf k)) (snd st)" using sm by blast
  qed
  have 1: "list_all2 (sent_rel ic (ks_buffers k) (snd st)) (stream_requests (jraw ic) (ks_queue k', q', ks_mem k')) Q"
    unfolding rq by (rule sent_same [OF B _ L(1)]) (use sm' in simp)
  have "list_all2 (held_rel ic (ks_buffers k) (snd (ks_buf k))) (take i held @ drop (Suc i) held) ?H"
    by (rule list_all2_appendI) (use L(2) in \<open>simp_all add: list_all2_takeI list_all2_dropI\<close>)
  then have 2: "list_all2 (held_rel ic (ks_buffers k) (snd st)) (take i held @ drop (Suc i) held) ?H"
    by (rule held_same [OF B, rotated]) (use sm' in auto)
  have "list_all2 (ans_rel ic (ks_buffers k) (snd st)) (stream_responses (jraw ic) (ks_queue k, q, ks_mem k)) A"
    by (rule ans_same [OF B _ L(3)]) (use sm' in simp)
  moreover have "ans_rel ic (ks_buffers k) (snd st) (jj, v) ((n, r), bl')" using kp by (auto simp: ans_rel_def)
  ultimately have 3: "list_all2 (ans_rel ic (ks_buffers k) (snd st)) (stream_responses (jraw ic) (ks_queue k', q', ks_mem k')) (A @ [((n, r), bl')])"
    unfolding rs by (simp add: list_all2_appendI)
  have 4: "distinct (F2 @ blocks_of Q @ blocks_of ?H @ blocks_of (A @ [((n, r), bl')]))" using d(1) by simp
  have 5: "length F2 = a_free a + blocks_needed (ks_buffers k) (length bytes) - blocks_needed (ks_buffers k) (length (ans_bytes r))"
    using d(4) mset_eq_length [OF F1] L(6) len kp(1) by (simp add: kept_def)
  show ?thesis
    by (rule flight_relI) (use 1 2 3 4 5 F2(2) k' L(7-) in \<open>simp_all add: take_map drop_map\<close>)
qed

lemma answer_step:
  assumes I: "implements ic B mx (k, q, held) a" and al: "allowed B mx (Answer i rep) a"
  shows "\<exists>s' a'. exec ic (Answer i rep) (k, q, held) = Some s' \<and> rpc_step B mx (Answer i rep) a a' \<and> implements ic B mx s' a'"
proof -
  obtain F Q H A where g: "good ic B mx k q" and j: "jobs_rel k a" and f: "flight_rel ic k q held a F Q H A"
    using I by (auto simp: implements_def)
  have B: "buffers_ok (ks_buffers k)" "0 < total_size (ks_buffers k)" "ks_buffers k = B" and ic: "codec_ok (jraw ic)"
    and st: "stream_ok (ks_queue k, q, ks_mem k)" using g by (auto simp: good_def ids_ok_def)
  note L = flight_lists [OF f]
  let ?r = "reply_ans rep"
  have iH: "i < length H" using al L(8) by simp
  obtain n qv bytes bl where Hi: "H ! i = ((n, qv, bytes), bl)" by (metis prod.exhaust)
  have ai: "i < length (a_held a)" "a_held a ! i = (n, qv, bytes)" using iH Hi L(8) by simp_all
  obtain jj r where hi: "nth_opt held i = Some (jj, r)" "held_rel ic (ks_buffers k) (snd (ks_buf k)) (jj, r) (H ! i)"
    using list_all2_nthD2 [OF L(2) iH] list_all2_lengthD [OF L(2)] iH by (cases "held ! i") (auto simp: nth_opt_def)
  then have hr: "jget ic jj = n" "kept (ks_buffers k) (snd (ks_buf k)) (snd (srv_strip r)) bytes bl"
    using Hi by (simp_all add: held_rel_def)
  then have len: "length bl = blocks_needed (ks_buffers k) (length bytes)" by (simp add: kept_def)
  have "bl \<in> set (map snd H)" using iH Hi by (metis length_map nth_map nth_mem snd_conv)
  then have dis: "set bl \<inter> set F = {}" using L(4) by auto
  obtain st1 F1 where d: "drop_request r k = Some (k\<lparr>ks_buf := st1\<rparr>)" "free_list (ks_buffers k) st1 F1"
    "mset F1 = mset (bl @ F)" "\<forall>x. x \<notin> set bl \<longrightarrow> same (block_size (ks_buffers k)) x (snd (ks_buf k)) (snd st1)"
    using drop_request_ok [OF B(1) hr(2) L(5) dis] by blast
  let ?k1 = "k\<lparr>ks_buf := st1\<rparr>"
  have "length F1 = length bl + length F" using mset_eq_length [OF d(3)] by simp
  then have n1: "blocks_needed (ks_buffers ?k1) (length (ans_bytes ?r)) \<le> length F1" using al ai(2) L(6) len B(3) by simp
  have su: "suits (the (a_jobs a n)) ?r" using al ai(2) by simp
  have "replies ?k1 F1 ?r (make_reply rep ?k1)"
    by (rule make_reply_ok [OF _ _ _ su n1]) (use B d(2) in simp_all)
  then obtain rs resp dd st2 bl' F2 where m: "make_reply rep ?k1 = Some (rs, ?k1\<lparr>ks_buf := st2\<rparr>)"
    "\<forall>k' :: ('a, 'b, 'c, 'd) kstate. srv_response rs k' = Some (resp, k')" "ans_raw ?r dd = Some (response_raw resp)"
    "kept (ks_buffers k) (snd st2) dd (ans_bytes ?r) bl'" "free_list (ks_buffers k) st2 F2" "mset (bl' @ F2) = mset F1"
    "\<forall>x. x \<notin> set bl' \<longrightarrow> same (block_size (ks_buffers k)) x (snd st1) (snd st2)"
    by (auto simp: replies_def)
  have room: "length (stream_responses (jraw ic) (ks_queue k, q, ks_mem k)) \<noteq> 128" using requests_length(2) [OF f] al by simp
  obtain q' m' where e: "server_try_enqueue (jraw ic) jj resp (q, ks_mem k) = Inr (q', m')" "stream_ok (ks_queue k, q', m')"
    "stream_responses (jraw ic) (ks_queue k, q', m') = stream_responses (jraw ic) (ks_queue k, q, ks_mem k) @ [(jj, response_raw resp)]"
    "stream_requests (jraw ic) (ks_queue k, q', m') = stream_requests (jraw ic) (ks_queue k, q, ks_mem k)"
    using server_enqueue_room [OF ic st room] by blast
  let ?k2 = "k\<lparr>ks_buf := st2, ks_mem := m'\<rparr>"
  let ?a = "a\<lparr>a_free := a_free a + blocks_needed (ks_buffers k) (length bytes) - blocks_needed (ks_buffers k) (length (ans_bytes ?r)),
       a_held := take i (a_held a) @ drop (Suc i) (a_held a), a_answers := a_answers a @ [(n, ?r)]\<rparr>"
  have ex: "exec ic (Answer i rep) (k, q, held) = Some (?k2, q', take i held @ drop (Suc i) held)"
    using hi(1) d(1) m(1,2) e(1) by (simp add: srv_enqueue_def del: nth_opt_Some_iff)
  have sm: "\<forall>x. x \<notin> set bl \<union> set bl' \<longrightarrow> same (block_size (ks_buffers k)) x (snd (ks_buf k)) (snd st2)"
    using d(4) m(7) same_trans by blast
  have 1: "flight_rel ic ?k2 q' (take i held @ drop (Suc i) held) ?a F2 Q (take i H @ drop (Suc i) H) (A @ [((n, ?r), bl')])"
    by (rule flight_answer [OF f B(1) iH Hi d(3) m(6,5) len sm m(4,3) hr(1)]) (use e in simp_all)
  have tk: "result_of ?k2 = result_of k" "ticket_in ?k2 = ticket_in k" by (rule result_of_cong ticket_in_cong; simp)+
  have "a_held a = take i (a_held a) @ (n, qv, bytes) # drop (Suc i) (a_held a)"
    using id_take_nth_drop [OF ai(1)] ai(2) by simp
  then have "mset (map fst (a_held a)) = mset (map fst (take i (a_held a) @ (n, qv, bytes) # drop (Suc i) (a_held a)))"
    by (rule arg_cong)
  then have ids: "mset (job_ids ?a) = mset (job_ids a)" by (simp add: job_ids_def)
  have "jobs_rel ?k2 ?a"
    by (rule jobs_rel_keep [OF j, where ws = "[]", OF _ _ _ _ _ ids])
      (use tk jobs_rel_suits [OF j] jobs_rel_done [OF j] su in simp_all)
  moreover have "good ic B mx ?k2 q'" using g e(2) by (simp add: good_def)
  ultimately have "implements ic B mx (?k2, q', take i held @ drop (Suc i) held) ?a" using 1 by (auto simp: implements_def)
  moreover have "rpc_step B mx (Answer i rep) a ?a" using rpc_step.answer [OF ai, of B mx rep] B(3) by simp
  ultimately show ?thesis using ex by blast
qed

section \<open>Responses\<close>

lemma error_answer [simp]: "any_response_get (word_of_int (error_code e)) = Inl (ucast (word_of_int (error_code e) :: u64))"
  by (cases e) (simp_all add: any_response_get_cases)

lemma error_from_answer [simp]: "error_from (ucast (word_of_int (error_code e) :: u64) :: 16 word) = e"
proof -
  have "(ucast (word_of_int (error_code e) :: u64) :: 16 word) = word_of_int (error_code e)"
    by (rule bit_word_eqI) (simp add: bit_ucast_iff bit_word_of_int_iff)
  then show ?thesis by (cases e) (simp_all add: error_from_def result_def Let_def)
qed

lemma slice_raw_uint:
  fixes x l :: u32
  shows "uint (ucast x OR push_bit 32 (ucast l) :: u64) = uint x + 2 ^ 32 * uint l"
proof -
  have b: "uint x < 2 ^ 32" "uint l < 2 ^ 32" "0 \<le> uint x" "0 \<le> uint l" using uint_lt2p [of x] uint_lt2p [of l] by simp_all
  have u: "uint (ucast x :: u64) = uint x" "uint (ucast l :: u64) = uint l" using b by (simp_all add: unsigned_ucast_eq take_bit_int_eq_self)
  have "\<not> bit (ucast x :: u64) n \<or> \<not> bit (push_bit 32 (ucast l) :: u64) n" for n
    using bit_imp_le_length [of x n] by (auto simp: bit_ucast_iff bit_push_bit_iff)
  then have "(ucast x OR push_bit 32 (ucast l) :: u64) = ucast x + push_bit 32 (ucast l)"
    by (rule disjunctive_add [symmetric])
  moreover have "uint (push_bit 32 (ucast l) :: u64) = take_bit LENGTH(64) (push_bit 32 (uint l))"
    by (simp only: unsigned_push_bit_eq u)
  then have p: "uint (push_bit 32 (ucast l) :: u64) = 2 ^ 32 * uint l"
    using b by (simp add: push_bit_eq_mult take_bit_eq_mod)
  ultimately show ?thesis using b by (simp add: uint_word_ariths u p)
qed

lemma slice_answer:
  assumes "unat (sl_length s) < 2 ^ 32 - 1"
  shows "any_response_get (response_raw (StSlice s)) = Inr (response_raw (StSlice s))"
proof -
  have "uint (sl_offset s) < 2 ^ 32" using uint_lt2p [of "sl_offset s"] by simp
  moreover have "unat (sl_length s) < 4294967295" using assms by simp
  then have "int (unat (sl_length s)) \<le> 4294967294" by linarith
  then have "uint (sl_length s) \<le> 4294967294" unfolding uint_nat [of "sl_length s", symmetric] .
  ultimately have "uint (response_raw (StSlice s)) < 2 ^ 64 - 4096" by (simp add: slice_raw_uint)
  then show ?thesis by (simp only: any_response_get_cases if_True)
qed

fun settle :: "AnyTicketWaker \<Rightarrow> Error + 'o val \<Rightarrow> ('a, 'v, 'j, 'o) kstate \<Rightarrow> ('a, 'v, 'j, 'o) kstate" where
  "settle (WObject t) (Inl e) k = k\<lparr>ks_obj := complete t (Inl e) (ks_obj k)\<rparr>"
| "settle (WU64 t) (Inl e) k = k\<lparr>ks_u64 := complete t (Inl e) (ks_u64 k)\<rparr>"
| "settle (WData t) (Inl e) k = k\<lparr>ks_data := complete t (Inl e) (ks_data k)\<rparr>"
| "settle (WObject t) (Inr (VObj x)) k = k\<lparr>ks_obj := complete t (Inr x) (ks_obj k)\<rparr>"
| "settle (WU64 t) (Inr (VU64 x)) k = k\<lparr>ks_u64 := complete t (Inr x) (ks_u64 k)\<rparr>"
| "settle (WData t) (Inr (VBytes x)) k = k\<lparr>ks_data := complete t (Inr x) (ks_data k)\<rparr>"
| "settle w r k = k"

lemma settle_fields [simp]:
  "ks_buffers (settle w r k) = ks_buffers k" "ks_buf (settle w r k) = ks_buf k" "ks_queue (settle w r k) = ks_queue k"
  "ks_mem (settle w r k) = ks_mem k" "ks_alive (settle w r k) = ks_alive k" "ks_jobs (settle w r k) = ks_jobs k"
  "ks_max_request_mem (settle w r k) = ks_max_request_mem k" "ks_wait_read (settle w r k) = ks_wait_read k"
  "ticket_in (settle w r k) x = ticket_in k x"
  by (cases "(w, r, k)" rule: settle.cases; cases x; simp)+

lemma result_settle:
  assumes "suits w r" "ticket_in k w"
  shows "result_of (settle w (outcome w r) k) = (result_of k)(w \<mapsto> outcome w r)"
proof
  fix x
  show "result_of (settle w (outcome w r) k) x = ((result_of k)(w \<mapsto> outcome w r)) x"
    using assms by (cases w; cases r; cases x) auto
qed

lemma small_not_shared: "uint v < 2 ^ 32 \<Longrightarrow> (v :: u64) AND push_bit 32 1 = 0"
proof -
  assume "uint v < 2 ^ 32"
  then have t: "take_bit 32 (uint v) = uint v" by (simp add: take_bit_int_eq_self)
  have "\<not> bit (uint v) 32" by (subst t [symmetric]) (simp add: bit_take_bit_iff)
  then have "\<not> bit v 32" by (simp add: bit_uint_iff)
  then show ?thesis unfolding push_bit_of_1 and_exp_eq_0_iff_not_bit .
qed

text \<open>One answer is delivered.\<close>

lemma answer_job_ok:
  assumes B: "buffers_ok (ks_buffers k)" and ic: "codec_ok cd" and s: "suits w r"
    and r: "ans_raw r d = Some v" "kept (ks_buffers k) (snd (ks_buf k)) d (ans_bytes r) bl"
    and fl: "free_list (ks_buffers k) (ks_buf k) F" and dis: "set bl \<inter> set F = {}"
  shows "\<exists>st F'. answer_job cd w v k = Some (settle w (outcome w r) (k\<lparr>ks_buf := st\<rparr>))
    \<and> free_list (ks_buffers k) st F' \<and> mset F' = mset (bl @ F)
    \<and> (\<forall>x. x \<notin> set bl \<longrightarrow> same (block_size (ks_buffers k)) x (snd (ks_buf k)) (snd st))"
proof (cases r)
  case (AErr e)
  then have "d = None" "bl = []" "v = word_of_int (error_code e)" using r by (cases d; simp add: kept_None)+
  then have "answer_job cd w v k = Some (settle w (outcome w r) (k\<lparr>ks_buf := ks_buf k\<rparr>))"
    using AErr by (cases w) (simp_all add: answer_job_def)
  then show ?thesis using fl \<open>bl = []\<close> by (metis append_Nil same_refl)
next
  case (AVal x)
  then have d: "d = None" "bl = []" "v = x" using r by (cases d; simp add: kept_None)+
  have u: "uint x < 2 ^ 64 - 4096" using s AVal by (cases w) auto
  have "answer_job cd w v k = Some (settle w (outcome w r) (k\<lparr>ks_buf := ks_buf k\<rparr>))"
    using AVal d u s small_not_shared [of x] by (cases w) (simp_all add: answer_job_def any_response_get_cases)
  then show ?thesis using fl d(2) by (metis append_Nil same_refl)
next
  case (ABytes bytes)
  then obtain dd where d: "d = Some dd" "v = response_raw (StSlice (slice_of dd))" using r by (cases d) auto
  obtain t where w: "w = WData t" and l: "length bytes < 2 ^ 32 - 1" using s ABytes by (cases w) auto
  obtain h m where hm: "ks_buf k = (h, m)" by (cases "ks_buf k")
  have h: "holds (ks_buffers k) m dd bytes bl" using r(2) d(1) ABytes hm by (simp add: kept_Some)
  have len: "d_len dd = length bytes" using holds_len [OF h] by simp
  have "unat (sl_length (slice_of dd)) < 2 ^ 32 - 1" using len l by (simp add: slice_of_def unat_of_nat_small)
  note v = slice_answer [OF this]
  have sl: "any_response_as_slice cd v = Inr (slice_of dd)"
    using ic unfolding any_response_as_slice_def d(2) v by (simp add: codec_ok_def)
  have rd: "data_copy_to (ks_buffers k) dd 0 (d_len dd) m = Some bytes" using holds_read [OF B h, of 0 "length bytes"] len by simp
  obtain st zs where z: "manual_drop (ks_buffers k) dd (h, m) = Some st" "free_list (ks_buffers k) st zs"
    "mset zs = mset (bl @ F)" "\<forall>x. x \<notin> set bl \<longrightarrow> same (block_size (ks_buffers k)) x m (snd st)"
    using holds_drop [OF B h fl [unfolded hm] dis] by blast
  have "answer_job cd w v k = Some (settle w (outcome w r) (k\<lparr>ks_buf := st\<rparr>))"
    unfolding answer_job_def d(2) v using sl rd z(1) w ABytes hm get_data_slice [OF h] d(2) by simp
  then show ?thesis using z(2-) hm by (intro exI [of _ st] exI [of _ zs]) simp
qed

lemma jobs_rel_finish:
  assumes j: "jobs_rel k a" and A: "a_answers a = (n, r) # rest" and w: "a_jobs a n = Some w"
    and rem: "get jobs = (get (ks_jobs k))(from_raw n () := None)" "arena_inv jobs" "length (storage jobs) = length (storage (ks_jobs k))"
    and k': "ks_jobs k' = jobs" "ks_wait_read k' = ks_wait_read k" "\<And>x. ticket_in k' x = ticket_in k x"
      "result_of k' = (result_of k)(w \<mapsto> outcome w r)"
  shows "jobs_rel k' (finish B (n, r) a)"
proof -
  let ?a = "finish B (n, r) a"
  have fin: "a_jobs ?a = (a_jobs a)(n := None)" "a_done ?a = result_of k'" "a_answers ?a = rest" "a_waiting ?a = a_waiting a"
    using A w k'(4) j by (simp_all add: finish_def Let_def jobs_rel_done)
  let ?pre = "sent_jobs (a_sent a) @ map fst (a_held a)"
  have ids: "job_ids a = ?pre @ n # map fst rest" "job_ids ?a = ?pre @ map fst rest"
    using A by (simp_all add: job_ids_def finish_def Let_def)
  have d: "distinct (job_ids a)" "set (job_ids a) = dom (a_jobs a)" using j by (simp_all only: jobs_rel_def)
  have n: "n \<notin> set (?pre @ map fst rest)" using d(1) unfolding ids(1) by auto
  have map': "job_map jobs = (a_jobs a)(n := None)"
    using job_map_upd [OF rem(1)] j by (simp add: jobs_rel_def from_raw_def)
  have "set (job_ids ?a) = dom (a_jobs ?a)" using d(2) n unfolding ids fin(1) by auto
  moreover have "distinct (job_ids ?a)" using d(1) unfolding ids by auto
  moreover have "\<forall>(m, x) \<in> set (a_answers ?a). suits (the (a_jobs ?a m)) x"
  proof (clarify)
    fix m x assume mx: "(m, x) \<in> set (a_answers ?a)"
    then have "m \<noteq> n" using n unfolding fin(3) by force
    then show "suits (the (a_jobs ?a m)) x" using mx jobs_rel_suits [OF j] A unfolding fin by auto
  qed
  moreover have "\<forall>x \<in> ran (a_jobs ?a). ticket_in k' x"
  proof
    fix x assume "x \<in> ran (a_jobs ?a)"
    then have "x \<in> ran (a_jobs a)" unfolding fin(1) by (auto simp: ran_def split: if_splits)
    then show "ticket_in k' x" using j unfolding k'(3) jobs_rel_def by blast
  qed
  moreover have "\<forall>t \<in> set (a_waiting ?a). ticket_in k' (WData t)" "length (storage jobs) \<le> 2 ^ 24" "a_waiting a = ks_wait_read k"
    using j rem(3) unfolding fin(4) k'(3) by (simp_all add: jobs_rel_def)
  ultimately show ?thesis
    using rem(2) map' k'(1,2) fin unfolding jobs_rel_def by metis
qed

lemma flight_finish:
  assumes f: "flight_rel ic k q held a F Q H (((n, r), bl) # A)" and B: "buffers_ok (ks_buffers k)" "ks_buffers k = B"
    and F': "free_list (ks_buffers k) st F'" "mset F' = mset (bl @ F)"
    and sm: "\<forall>x. x \<notin> set bl \<longrightarrow> same (block_size (ks_buffers k)) x (snd (ks_buf k)) (snd st)"
    and len: "length bl = blocks_needed (ks_buffers k) (length (ans_bytes r))"
    and k': "ks_buffers k' = ks_buffers k" "ks_buf k' = st"
    and rq: "stream_requests (jraw ic) (ks_queue k', q, ks_mem k') = stream_requests (jraw ic) (ks_queue k, q, ks_mem k)"
    and rs: "stream_responses (jraw ic) (ks_queue k, q, ks_mem k) = x # stream_responses (jraw ic) (ks_queue k', q, ks_mem k')"
  shows "flight_rel ic k' q held (finish B (n, r) a) F' Q H A"
proof -
  note L = flight_lists [OF f]
  let ?R = "blocks_of Q @ blocks_of H @ blocks_of A"
  have "mset (F @ blocks_of Q @ blocks_of H @ blocks_of (((n, r), bl) # A)) = mset (F' @ ?R)" using F'(2) by simp
  then have d: "distinct (F' @ ?R)" using mset_eq_imp_distinct_iff L(4) by metis
  have "set bl \<subseteq> set F'" using mset_eq_setD [OF F'(2)] by auto
  then have dis: "set bl \<inter> set ?R = {}" using d by (simp only: distinct_append) blast
  have sm': "\<forall>x \<in> set ?R. same (block_size (ks_buffers k)) x (snd (ks_buf k)) (snd st)"
    using sm dis by (simp only: disjoint_iff) blast
  have 1: "list_all2 (sent_rel ic (ks_buffers k) (snd st)) (stream_requests (jraw ic) (ks_queue k', q, ks_mem k')) Q"
    unfolding rq by (rule sent_same [OF B(1) _ L(1)]) (use sm' in simp)
  have 2: "list_all2 (held_rel ic (ks_buffers k) (snd st)) held H"
    by (rule held_same [OF B(1) _ L(2)]) (use sm' in simp)
  have "list_all2 (ans_rel ic (ks_buffers k) (snd (ks_buf k))) (stream_responses (jraw ic) (ks_queue k', q, ks_mem k')) A"
    using L(3) unfolding rs by simp
  then have 3: "list_all2 (ans_rel ic (ks_buffers k) (snd st)) (stream_responses (jraw ic) (ks_queue k', q, ks_mem k')) A"
    by (rule ans_same [OF B(1), rotated]) (use sm' in simp)
  have 4: "length F' = a_free a + blocks_needed (ks_buffers k) (length (ans_bytes r))"
    using mset_eq_length [OF F'(2)] L(6) len by simp
  show ?thesis
    by (rule flight_relI) (use 1 2 3 4 d F'(1) k' B(2) L(7-) in \<open>simp_all add: finish_def Let_def\<close>)
qed

lemma flush_loop:
  assumes "good ic B mx k q" "jobs_rel k a" "flight_rel ic k q held a F Q H A"
  shows "\<exists>k' F'. process_responses ic k = Some k' \<and> good ic B mx k' q \<and> jobs_rel k' (fold (finish B) (a_answers a) a)
    \<and> flight_rel ic k' q held (fold (finish B) (a_answers a) a) F' Q H []"
  using assms
proof (induction A arbitrary: k a F)
  case Nil
  have st: "stream_ok (ks_queue k, q, ks_mem k)" using Nil.prems(1) by (simp add: good_def)
  note L = flight_lists [OF Nil.prems(3)]
  have "client_dequeue (jraw ic) (ks_queue k, ks_mem k) = (None, ks_queue k, ks_mem k)"
    using client_dequeue_nil [OF st] L(3) by simp
  then have "process_responses ic k = Some k" by (subst process_responses.simps) simp
  then show ?case using Nil.prems L(9) by auto
next
  case (Cons y A)
  obtain n r bl where y: "y = ((n, r), bl)" by (cases y) auto
  have B: "buffers_ok (ks_buffers k)" "ks_buffers k = B" and ic: "codec_ok (jraw ic)"
    and st: "stream_ok (ks_queue k, q, ks_mem k)" using Cons.prems(1) by (auto simp: good_def ids_ok_def)
  note L = flight_lists [OF Cons.prems(3)] and j = Cons.prems(2)
  have A: "a_answers a = (n, r) # map fst A" using L(9) y by simp
  obtain jj v vs d where e: "stream_responses (jraw ic) (ks_queue k, q, ks_mem k) = (jj, v) # vs" "jget ic jj = n"
    "ans_raw r d = Some v" "kept (ks_buffers k) (snd (ks_buf k)) d (ans_bytes r) bl"
    using L(3) y by (auto simp: list_all2_Cons2 ans_rel_def)
  obtain c' m' where c: "client_dequeue (jraw ic) (ks_queue k, ks_mem k) = (Some (jj, v), c', m')" "stream_ok (c', q, m')"
    "stream_responses (jraw ic) (c', q, m') = vs"
    "stream_requests (jraw ic) (c', q, m') = stream_requests (jraw ic) (ks_queue k, q, ks_mem k)"
    using client_dequeue_cons [OF st e(1)] by blast
  have "n \<in> set (job_ids a)" using A by (simp add: job_ids_def)
  then have "n \<in> dom (a_jobs a)" using j unfolding jobs_rel_def by blast
  then obtain w where w: "a_jobs a n = Some w" by blast
  have ai: "arena_inv (ks_jobs k)" "a_jobs a = job_map (ks_jobs k)" using j by (simp_all add: jobs_rel_def)
  obtain jobs where rem: "remove (from_raw n ()) (ks_jobs k) = Some (Some w, jobs)"
    using arena.rem_total [OF ai(1), of "from_raw n ()"] w ai(2) by (auto simp: job_map_def)
  have s: "suits w r" using jobs_rel_suits [OF j] A w by simp
  have "w \<in> ran (a_jobs a)" using w by (rule ranI)
  then have t: "ticket_in k w" using j unfolding jobs_rel_def by blast
  let ?k1 = "k\<lparr>ks_queue := c', ks_mem := m', ks_jobs := jobs\<rparr>"
  have dis: "set bl \<inter> set F = {}" using L(4) y by auto
  obtain st F' where a1: "answer_job (jraw ic) w v ?k1 = Some (settle w (outcome w r) (?k1\<lparr>ks_buf := st\<rparr>))"
    "free_list (ks_buffers k) st F'" "mset F' = mset (bl @ F)"
    "\<forall>x. x \<notin> set bl \<longrightarrow> same (block_size (ks_buffers k)) x (snd (ks_buf k)) (snd st)"
    using answer_job_ok [of ?k1 "jraw ic" w r d v bl F] B(1) ic s e(3,4) L(5) dis by auto
  let ?k2 = "settle w (outcome w r) (?k1\<lparr>ks_buf := st\<rparr>)" let ?a = "finish B (n, r) a"
  have tk: "result_of (?k1\<lparr>ks_buf := st\<rparr>) = result_of k" "ticket_in (?k1\<lparr>ks_buf := st\<rparr>) = ticket_in k"
    by (rule result_of_cong ticket_in_cong; simp)+
  have g2: "good ic B mx ?k2 q" using Cons.prems(1) c(2) by (simp add: good_def)
  have j2: "jobs_rel ?k2 ?a"
    by (rule jobs_rel_finish [OF j A w arena.rem_look [OF rem] arena.rem_ok [OF ai(1) rem] remove_length [OF rem]])
      (use result_settle [OF s, of "?k1\<lparr>ks_buf := st\<rparr>"] tk t in simp_all)
  have f2: "flight_rel ic ?k2 q held ?a F' Q H A"
    by (rule flight_finish [OF Cons.prems(3) [unfolded y] B a1(2-4)]) (use e c in \<open>simp_all add: kept_def\<close>)
  obtain k' F'' where k': "process_responses ic ?k2 = Some k'" "good ic B mx k' q"
    "jobs_rel k' (fold (finish B) (a_answers ?a) ?a)" "flight_rel ic k' q held (fold (finish B) (a_answers ?a) ?a) F'' Q H []"
    using Cons.IH [OF g2 j2 f2] by blast
  have "process_responses ic k = process_responses ic ?k2"
    by (subst process_responses.simps) (simp add: c(1) e(2) rem a1(1))
  moreover have "fold (finish B) (a_answers a) a = fold (finish B) (a_answers ?a) ?a"
    using A by (simp add: finish_def Let_def)
  ultimately show ?case using k' by metis
qed

lemma flush_step:
  assumes I: "implements ic B mx (k, q, held) a"
  shows "\<exists>s' a'. exec ic Flush (k, q, held) = Some s' \<and> rpc_step B mx Flush a a' \<and> implements ic B mx s' a'"
proof -
  obtain F Q H A where g: "good ic B mx k q" and j: "jobs_rel k a" and f: "flight_rel ic k q held a F Q H A"
    using I by (auto simp: implements_def)
  let ?a = "fold (finish B) (a_answers a) a"
  obtain k' F' where l: "process_responses ic k = Some k'" "good ic B mx k' q" "jobs_rel k' ?a"
    "flight_rel ic k' q held ?a F' Q H []" using flush_loop [OF g j f] by blast
  let ?t = "length (cells (ks_u64 k'))"
  let ?k = "k'\<lparr>ks_u64 := snd (ticket_new_complete (Inr 0) (ks_u64 k'))\<rparr>"
  let ?a2 = "?a\<lparr>a_done := (a_done ?a)(WU64 ?t \<mapsto> Inr (VU64 0))\<rparr>"
  have "fresh (WU64 ?t) ?a" using new_ticket_fresh [OF l(3), of KU64] by simp
  then have step: "rpc_step B mx Flush a ?a2" by (rule rpc_step.flush [OF refl])
  have "ks_alive k" using g by (simp add: good_def)
  then have ex: "exec ic Flush (k, q, held) = Some (?k, q, held)"
    using l(1) by (simp add: notify_write_def answer_u64_def split_beta)
  have "ticket_in ?k w" if "ticket_in k' w" for w using that by (cases w) simp_all
  then have "jobs_rel ?k ?a2"
    by (intro jobs_rel_keep [OF l(3), where ws = "[]"])
      (use jobs_rel_suits [OF l(3)] jobs_rel_done [OF l(3)] in \<open>simp_all add: result_answer_u64 job_ids_def del: ticket_in.simps\<close>)
  moreover have "flight_rel ic ?k q held ?a2 F' Q H []" using l(4) by (subst flight_cong [of _ k' _ ?a]) simp_all
  moreover have "good ic B mx ?k q" using l(2) by (simp add: good_def)
  ultimately have "implements ic B mx (?k, q, held) ?a2" by (auto simp: implements_def)
  then show ?thesis using ex step by blast
qed

lemma service_step:
  assumes "implements ic B mx s a" and "allowed B mx act a"
  shows "\<exists>s' a'. exec ic act s = Some s' \<and> rpc_step B mx act a a' \<and> implements ic B mx s' a'"
proof -
  obtain k q held where s: "s = (k, q, held)" by (cases s)
  note I = assms(1) [unfolded s]
  show ?thesis
  proof (cases act)
    case (Call h op)
    then show ?thesis using call_step [OF I] assms(2) unfolding s by blast
  next
    case (Close h)
    then show ?thesis using close_step [OF I] assms(2) unfolding s by blast
  next
    case Wait
    then show ?thesis using wait_step [OF I] unfolding s by blast
  next
    case Take
    then show ?thesis using take_step [OF I] unfolding s by blast
  next
    case (Answer i rep)
    then show ?thesis using answer_step [OF I] assms(2) unfolding s by blast
  next
    case Flush
    then show ?thesis using flush_step [OF I] unfolding s by blast
  qed
qed

section \<open>The start\<close>

lemma dealloc_all_ok:
  assumes "buffers_ok B" "free_list B st xs" "\<forall>x \<in> set xs. unat x < i"
    and "(i + n) * block_size B \<le> total_size B" "i + n < 2 ^ 32"
  shows "\<exists>st'. dealloc_all B i n st = Some st' \<and> free_list B st' (rev (map of_nat [i..<i + n]) @ xs)"
  using assms(2-)
proof (induction n arbitrary: i st xs)
  case (Suc n)
  obtain h m where st: "st = (h, m)" by (cases st)
  let ?x = "of_nat i :: u32" let ?st = "(?x, set_entry (block_size B) ?x 0 h m)"
  have u: "unat ?x = i" using Suc.prems(4) by (intro unat_of_nat_small) simp
  have "?x \<notin> set xs" using Suc.prems(2) u by auto
  moreover have "?x \<noteq> -1"
  proof
    assume "?x = -1"
    then have "i = 2 ^ 32 - 1" using u by (simp add: unsigned_minus_1_eq_mask mask_eq_exp_minus_1)
    then show False using Suc.prems(4) by simp
  qed
  moreover have "i * block_size B < i * block_size B + Suc n * block_size B" using buffers_ok_size [OF assms(1)] by simp
  then have "i * block_size B < (i + Suc n) * block_size B" by (simp only: add_mult_distrib)
  then have "unat ?x * block_size B < total_size B" using Suc.prems(3) unfolding u by linarith
  ultimately have x: "?x \<notin> set xs" "?x \<noteq> -1" "unat ?x * block_size B < total_size B" by simp_all
  note p = free_list_push [OF Suc.prems(1) [unfolded st] assms(1) x]
  have "\<forall>y \<in> set (?x # xs). unat y < Suc i"
    using Suc.prems(2) u by (metis less_Suc_eq set_ConsD)
  then have "\<exists>st'. dealloc_all B (Suc i) n ?st = Some st' \<and> free_list B st' (rev (map of_nat [Suc i..<Suc i + n]) @ ?x # xs)"
    by (intro Suc.IH [OF p(2)]) (use Suc.prems(3,4) in simp_all)
  then obtain st' where s: "dealloc_all B (Suc i) n ?st = Some st'" "free_list B st' (rev (map of_nat [Suc i..<Suc i + n]) @ ?x # xs)"
    by blast
  have "[i..<i + Suc n] = i # [Suc i..<Suc i + n]" by (simp add: upt_conv_Cons)
  then show ?case using s p(1) st by (auto simp del: upt_Suc)
qed simp

text \<open>A server that takes over a fresh table with a zeroed queue finds the empty service, all blocks free.\<close>

lemma service_starts:
  fixes k :: "('a, 'v, 'j, 'o) kstate"
  assumes ic: "ids_ok ic" and B: "buffers_ok B" "ks_buffers k = B" "block_size B \<le> total_size B"
    and k: "ks_alive k" "ks_jobs k = arena_default ()" "ks_queue k = client_new" "ks_wait_read k = []" "ks_buf k = (-1, m0)"
    and m: "m_request_tail (ks_mem k) = 0" "m_request_head (ks_mem k) = 0" "m_response_tail (ks_mem k) = 0"
      "m_response_head (ks_mem k) = 0" "length (m_requests (ks_mem k)) = 128" "length (m_responses (ks_mem k)) = 128"
  shows "\<exists>k'. srv_new k = Some (server_new, k') \<and> implements ic B (unat (ks_max_request_mem k)) (k', server_new, [])
    \<lparr>a_free = min (total_size B div block_size B) (2 ^ 32 - 1), a_sent = [], a_held = [], a_answers = [],
     a_jobs = Map.empty, a_done = result_of k', a_waiting = []\<rparr>"
proof -
  let ?n = "min (total_size B div block_size B) (2 ^ 32 - 1)"
  have bs: "0 < block_size B" using buffers_ok_size [OF B(1)] by simp
  have "?n * block_size B \<le> total_size B div block_size B * block_size B" by (intro mult_le_mono1) simp
  also have "\<dots> \<le> total_size B" by (rule div_times_less_eq_dividend)
  finally have n1: "(0 + ?n) * block_size B \<le> total_size B" by simp
  have "(2 :: nat) ^ 32 - 1 < 2 ^ 32" by simp
  then have n2: "0 + ?n < 2 ^ 32" unfolding add_0 by (rule min.strict_coboundedI2)
  have "free_list B (-1, m0) []" by (simp add: free_list_def)
  then obtain st where st: "dealloc_all B 0 ?n (-1, m0) = Some st" "free_list B st (rev (map of_nat [0..<?n]))"
    using dealloc_all_ok [OF B(1) _ _ n1 n2, of "(-1, m0)" "[]"] by auto
  obtain k1 where k1: "table_open (bytes_of ''notify'') (k\<lparr>ks_buf := st\<rparr>) = Some (fst (answer_obj (Inr NotifyObj) (k\<lparr>ks_buf := st\<rparr>)), k1)"
    "k1 = snd (answer_obj (Inr NotifyObj) (k\<lparr>ks_buf := st\<rparr>))" by (simp add: table_open_def)
  obtain k2 where k2: "table_open (bytes_of ''public'') k1 = Some (fst (answer_obj (Inr (StreamObj (- 1))) k1), k2)"
    "k2 = snd (answer_obj (Inr (StreamObj (- 1))) k1)" by (simp add: table_open_def bytes_of_def)
  have same: "ks_alive k2" "ks_buffers k2 = B" "ks_jobs k2 = arena_default ()" "ks_queue k2 = client_new" "ks_wait_read k2 = []"
    "ks_mem k2 = ks_mem k" "ks_buf k2 = st" "ks_max_request_mem k2 = ks_max_request_mem k"
    using k B(2) unfolding k2(2) k1(2) by (simp_all add: answer_obj_def split_beta)
  have "srv_new k = Some (server_new, k2)" using st(1) k(5) k1(1) k2(1) B(2) by (simp add: srv_new_def Let_def)
  moreover have "stream_ok (client_new, server_new, ks_mem k)"
    using m by (simp add: stream_ok_def client_new_def server_new_def ring_ok_def raw_requests_def contents_def)
  then have "good ic B (unat (ks_max_request_mem k)) k2 server_new"
    using ic same B bs by (simp add: good_def)
  moreover have "job_map (arena_default () :: (AnyTicketWaker, unit) arena) = Map.empty"
      "arena_inv (arena_default () :: (AnyTicketWaker, unit) arena)" "storage (arena_default () :: (AnyTicketWaker, unit) arena) = []"
    by (rule ext) (simp_all add: job_map_def get_def arena_default_def nth_opt_def arena_inv_default [unfolded arena_default_def])
  then have "jobs_rel k2 \<lparr>a_free = ?n, a_sent = [], a_held = [], a_answers = [], a_jobs = Map.empty, a_done = result_of k2, a_waiting = []\<rparr>"
    unfolding jobs_rel_def using same by (simp add: job_ids_def sent_jobs_def)
  moreover have "flight_rel ic k2 server_new [] \<lparr>a_free = ?n, a_sent = [], a_held = [], a_answers = [],
      a_jobs = Map.empty, a_done = result_of k2, a_waiting = []\<rparr> (rev (map of_nat [0..<?n])) [] [] []"
    by (rule flight_relI) (use st(2) same m free_list_distinct [OF st(2)] in
      \<open>simp_all add: stream_requests_def stream_responses_def raw_requests_def contents_def client_new_def server_new_def\<close>)
  ultimately show ?thesis by (auto simp: implements_def)
qed

end
