(* ===== verification/Root_Table.thy ===== *)
theory Root_Table
  imports Ticket "HOL-Library.List_Lexorder"
begin

text \<open>
  Root objects and queries, \<open>kernel/src/object_table/root.rs\<close> and \<open>query.rs\<close>: the tables of named
  objects in which programs find each other. Objects live in a heap and are named by numbers; an
  object that has been dropped is no longer in the heap, so that a weak reference to it cannot be
  upgraded. Roots can be nested, and a path is resolved through them; the objects of other kinds
  answer through \<open>ext\<close>, a parameter. A lock is held for an operation on a root; \<open>destroy\<close> keeps it
  while it calls the object it found, so taking it again is a deadlock, represented as \<open>None\<close>.
\<close>

section \<open>Operations\<close>

type_synonym name = "u8 list"

text \<open>The ordered map from names to weak references.\<close>

fun bt_insert :: "name \<Rightarrow> nat \<Rightarrow> (name \<times> nat) list \<Rightarrow> (name \<times> nat) list" where
  "bt_insert k v [] = [(k, v)]"
| "bt_insert k v ((k', v') # es) =
     (if k = k' then (k, v) # es
      else if k < k' then (k, v) # (k', v') # es
      else (k', v') # bt_insert k v es)"

definition bt_remove :: "name \<Rightarrow> (name \<times> nat) list \<Rightarrow> (name \<times> nat) list" where
  "bt_remove k es = filter (\<lambda>(k', _). k' \<noteq> k) es"

datatype node =
    RootNode "(name \<times> nat) list"
  | QueryNode "name list"
  | CreateRootEntry nat name
  | OtherNode

record roots =
  nodes :: "node list"
  dropped :: "nat set"
  t_obj :: "nat tickets"
  t_u64 :: "u64 tickets"
  t_data :: "u8 list tickets"

definition upgrade :: "roots \<Rightarrow> nat \<Rightarrow> node option" where
  "upgrade w i = (if i < length (nodes w) \<and> i \<notin> dropped w then Some (nodes w ! i) else None)"

definition set_node :: "nat \<Rightarrow> node \<Rightarrow> roots \<Rightarrow> roots" where
  "set_node i n w = w\<lparr>nodes := (nodes w)[i := n]\<rparr>"

definition new_node :: "node \<Rightarrow> roots \<Rightarrow> nat \<times> roots" where
  "new_node n w = (length (nodes w), w\<lparr>nodes := nodes w @ [n]\<rparr>)"

definition done_obj :: "Error + nat \<Rightarrow> roots \<Rightarrow> ticket \<times> roots" where
  "done_obj r w = (let (t, ts) = ticket_new_complete r (t_obj w) in (t, w\<lparr>t_obj := ts\<rparr>))"

definition done_u64 :: "Error + u64 \<Rightarrow> roots \<Rightarrow> ticket \<times> roots" where
  "done_u64 r w = (let (t, ts) = ticket_new_complete r (t_u64 w) in (t, w\<lparr>t_u64 := ts\<rparr>))"

definition done_data :: "Error + u8 list \<Rightarrow> roots \<Rightarrow> ticket \<times> roots" where
  "done_data r w = (let (t, ts) = ticket_new_complete r (t_data w) in (t, w\<lparr>t_data := ts\<rparr>))"

record ext =
  ext_open :: "nat \<Rightarrow> u8 list \<Rightarrow> roots \<Rightarrow> ticket \<times> roots"
  ext_create :: "nat \<Rightarrow> u8 list \<Rightarrow> roots \<Rightarrow> ticket \<times> roots"
  ext_destroy :: "nat \<Rightarrow> u8 list \<Rightarrow> roots \<Rightarrow> ticket \<times> roots"

definition root_new :: node where
  "root_new = RootNode []"

definition root_add :: "nat \<Rightarrow> name \<Rightarrow> nat \<Rightarrow> roots \<Rightarrow> roots" where
  "root_add i nm obj w =
     (case nodes w ! i of RootNode es \<Rightarrow> set_node i (RootNode (bt_insert nm obj es)) w | _ \<Rightarrow> w)"

definition slash :: u8 where "slash = 47"

fun split_path :: "u8 list \<Rightarrow> name \<times> u8 list option" where
  "split_path [] = ([], None)"
| "split_path (c # cs) =
     (if c = slash then ([], Some cs) else (let (n, rest) = split_path cs in (c # n, rest)))"

text \<open>
  \<open>find\<close>: an entry whose object is gone is removed. The answer is the object and the rest of the path.
\<close>

definition root_find :: "nat \<Rightarrow> (name \<times> nat) list \<Rightarrow> u8 list \<Rightarrow> roots \<Rightarrow> (nat \<times> u8 list option) option \<times> roots" where
  "root_find i es path w =
     (let (object, rest) = split_path path in
      case map_of es object of
        None \<Rightarrow> (None, w)
      | Some obj \<Rightarrow>
          if upgrade w obj \<noteq> None then (Some (obj, rest), w)
          else (None, set_node i (RootNode (bt_remove object es)) w))"

lemma split_path_shorter: "split_path path = (n, Some rest) \<Longrightarrow> length rest < length path"
  by (induction path arbitrary: n) (auto split: if_splits prod.splits)

lemma root_find_shorter: "root_find i es path w = (Some (obj, Some rest), w') \<Longrightarrow> length rest < length path"
  by (auto simp: root_find_def split: prod.splits option.splits if_splits dest: split_path_shorter)

text \<open>The methods of an object, by its kind. A method that a kind does not have is an invalid operation.\<close>

function obj_open :: "ext \<Rightarrow> nat \<Rightarrow> u8 list \<Rightarrow> roots \<Rightarrow> ticket \<times> roots" where
  "obj_open ex i path w =
     (case upgrade w i of
        Some (RootNode es) \<Rightarrow>
          if path = [] \<or> path = [slash] then
            (let (q, w) = new_node (QueryNode (map fst es)) w in done_obj (Inr q) w)
          else
            (case root_find i es path w of
               (None, w) \<Rightarrow> done_obj (Inl DoesNotExist) w
             | (Some (obj, None), w) \<Rightarrow> done_obj (Inr obj) w
             | (Some (obj, Some path), w) \<Rightarrow> obj_open ex obj path w)
      | Some OtherNode \<Rightarrow> ext_open ex i path w
      | _ \<Rightarrow> done_obj (Inl InvalidOperation) w)"
  by pat_completeness auto
termination
  by (relation "measure (\<lambda>(ex, i, path, w). length path)") (auto dest: root_find_shorter [OF sym])

function obj_create :: "ext \<Rightarrow> nat \<Rightarrow> u8 list \<Rightarrow> roots \<Rightarrow> ticket \<times> roots" where
  "obj_create ex i path w =
     (case upgrade w i of
        Some (RootNode es) \<Rightarrow>
          if path = [] then done_obj (Inl InvalidData) w
          else
            (case root_find i es path w of
               (Some (obj, None), w) \<Rightarrow> done_obj (Inl AlreadyExists) w
             | (Some (obj, Some path), w) \<Rightarrow> obj_create ex obj path w
             | (None, w) \<Rightarrow>
                 if slash \<in> set path then done_obj (Inl DoesNotExist) w
                 else (let (c, w) = new_node (CreateRootEntry i path) w in done_obj (Inr c) w))
      | Some OtherNode \<Rightarrow> ext_create ex i path w
      | _ \<Rightarrow> done_obj (Inl InvalidOperation) w)"
  by pat_completeness auto
termination
  by (relation "measure (\<lambda>(ex, i, path, w). length path)") (auto dest: root_find_shorter [OF sym])

text \<open>\<open>locked\<close> are the roots whose lock is held by the callers.\<close>

function obj_destroy :: "ext \<Rightarrow> nat set \<Rightarrow> nat \<Rightarrow> u8 list \<Rightarrow> roots \<Rightarrow> (ticket \<times> roots) option" where
  "obj_destroy ex locked i path w =
     (case upgrade w i of
        Some (RootNode es) \<Rightarrow>
          if path = [] then Some (done_u64 (Inl InvalidData) w)
          else if i \<in> locked then None
          else
            (case root_find i es path w of
               (None, w) \<Rightarrow> Some (done_u64 (Inl DoesNotExist) w)
             | (Some (obj, None), w) \<Rightarrow>
                 Some (done_u64 (Inr 0) (set_node i (RootNode (bt_remove (fst (split_path path)) es)) w))
             | (Some (obj, Some path), w) \<Rightarrow> obj_destroy ex (Set.insert i locked) obj path w)
      | Some OtherNode \<Rightarrow> Some (ext_destroy ex i path w)
      | _ \<Rightarrow> Some (done_u64 (Inl InvalidOperation) w))"
  by pat_completeness auto
termination
  by (relation "measure (\<lambda>(ex, locked, i, path, w). length path)") (auto dest: root_find_shorter [OF sym])

text \<open>\<open>share\<close> on the object that \<open>create\<close> answers; the name is taken, so it can be used once.\<close>

definition entry_share :: "nat \<Rightarrow> nat \<Rightarrow> roots \<Rightarrow> ticket \<times> roots" where
  "entry_share c obj w =
     (case upgrade w c of
        Some (CreateRootEntry i nm) \<Rightarrow>
          if nm = [] then done_u64 (Inl InvalidData) w
          else done_u64 (Inr 0) (root_add i nm obj (set_node c (CreateRootEntry i []) w))
      | _ \<Rightarrow> done_u64 (Inl InvalidOperation) w)"

text \<open>\<open>QueryIter::read\<close> and \<open>NoneQuery::read\<close>.\<close>

definition query_read :: "nat \<Rightarrow> nat \<Rightarrow> roots \<Rightarrow> ticket \<times> roots" where
  "query_read q n w =
     (case upgrade w q of
        Some (QueryNode (b # bs)) \<Rightarrow>
          done_data (Inr (if length b < n then b else [])) (set_node q (QueryNode bs) w)
      | Some (QueryNode []) \<Rightarrow> done_data (Inr []) w
      | _ \<Rightarrow> done_data (Inl InvalidOperation) w)"

definition none_query_read :: "nat \<Rightarrow> roots \<Rightarrow> ticket \<times> roots" where
  "none_query_read n w = done_data (Inr []) w"

declare obj_open.simps [simp del] obj_create.simps [simp del] obj_destroy.simps [simp del]

section \<open>Names\<close>

lemma map_of_bt_insert [simp]: "map_of (bt_insert k v es) = (map_of es)(k \<mapsto> v)"
  by (induction k v es rule: bt_insert.induct) auto

lemma map_of_bt_remove [simp]: "map_of (bt_remove k es) = (map_of es)(k := None)"
  by (induction es) (auto simp: bt_remove_def)

text \<open>The names are kept in order, each once.\<close>

definition names_ok :: "(name \<times> nat) list \<Rightarrow> bool" where
  "names_ok es \<longleftrightarrow> sorted_wrt (<) (map fst es)"

lemma set_bt_insert: "fst ` set (bt_insert k v es) = Set.insert k (fst ` set es)"
  by (induction k v es rule: bt_insert.induct) auto

lemma names_ok_insert: "names_ok es \<Longrightarrow> names_ok (bt_insert k v es)"
proof (induction k v es rule: bt_insert.induct)
  case (2 k v k' v' es)
  have "\<forall>x \<in> fst ` set (bt_insert k v es). k' < x" if "k' < k"
    using that 2(2) unfolding set_bt_insert by (auto simp: names_ok_def)
  moreover have "\<forall>x \<in> fst ` set es. k < x" if "k < k'"
    using that 2(2) by (auto simp: names_ok_def intro: less_trans)
  ultimately show ?case using 2 by (auto simp: names_ok_def)
qed (simp add: names_ok_def)

lemma names_ok_remove: "names_ok es \<Longrightarrow> names_ok (bt_remove k es)"
  by (induction es) (auto simp: names_ok_def bt_remove_def)

lemma split_path_name [simp]: "slash \<notin> set nm \<Longrightarrow> split_path nm = (nm, None)"
  by (induction nm) auto

lemma split_path_rest [simp]: "slash \<notin> set nm \<Longrightarrow> split_path (nm @ slash # rest) = (nm, Some rest)"
  by (induction nm) auto

lemma upgrade_set_node: "upgrade (set_node i n w) j = (if j = i then map_option (\<lambda>_. n) (upgrade w i) else upgrade w j)"
  by (auto simp: upgrade_def set_node_def)

lemma upgrade_new_node:
  "upgrade w j = Some n \<Longrightarrow> upgrade (snd (new_node m w)) j = Some n"
  "length (nodes w) \<notin> dropped w \<Longrightarrow> upgrade (snd (new_node m w)) (length (nodes w)) = Some m"
  by (auto simp: upgrade_def new_node_def nth_append split: if_splits)

lemma done_fields [simp]:
  "nodes (snd (done_obj r w)) = nodes w" "nodes (snd (done_u64 v w)) = nodes w" "nodes (snd (done_data d w)) = nodes w"
  "dropped (snd (done_obj r w)) = dropped w" "dropped (snd (done_u64 v w)) = dropped w" "dropped (snd (done_data d w)) = dropped w"
  "upgrade (snd (done_obj r w)) = upgrade w" "upgrade (snd (done_u64 v w)) = upgrade w" "upgrade (snd (done_data d w)) = upgrade w"
  by (simp_all add: done_obj_def done_u64_def done_data_def split_beta upgrade_def fun_eq_iff)

lemma done_status [simp]:
  "status_of (t_obj (snd (done_obj r w))) (fst (done_obj r w)) = Some r"
  "status_of (t_u64 (snd (done_u64 v w))) (fst (done_u64 v w)) = Some v"
  "status_of (t_data (snd (done_data d w))) (fst (done_data d w)) = Some d"
  by (simp_all add: done_obj_def done_u64_def done_data_def split_beta)

section \<open>Resolution\<close>

lemma open_name:
  assumes "upgrade w i = Some (RootNode es)" "map_of es nm = Some obj" "upgrade w obj \<noteq> None" "nm \<noteq> []" "slash \<notin> set nm"
  shows "obj_open ex i nm w = done_obj (Inr obj) w"
    and "obj_open ex i (nm @ slash # rest) w = obj_open ex obj rest w"
    and "obj_create ex i nm w = done_obj (Inl AlreadyExists) w"
proof -
  have "nm \<noteq> [slash]" "nm @ slash # rest \<noteq> [slash]" using assms(4,5) by (auto simp: append_eq_Cons_conv)
  then show "obj_open ex i nm w = done_obj (Inr obj) w" "obj_open ex i (nm @ slash # rest) w = obj_open ex obj rest w"
      "obj_create ex i nm w = done_obj (Inl AlreadyExists) w"
    using assms by (subst obj_open.simps obj_create.simps; simp add: root_find_def)+
qed

lemma open_missing:
  assumes "upgrade w i = Some (RootNode es)" "map_of es nm = None" "nm \<noteq> []" "slash \<notin> set nm"
  shows "obj_open ex i nm w = done_obj (Inl DoesNotExist) w"
    and "obj_open ex i (nm @ slash # rest) w = done_obj (Inl DoesNotExist) w"
proof -
  have "nm \<noteq> [slash]" "nm @ slash # rest \<noteq> [slash]" using assms(3,4) by (auto simp: append_eq_Cons_conv)
  then show "obj_open ex i nm w = done_obj (Inl DoesNotExist) w" "obj_open ex i (nm @ slash # rest) w = done_obj (Inl DoesNotExist) w"
    using assms by (subst obj_open.simps; simp add: root_find_def)+
qed

lemma create_entry:
  assumes "upgrade w i = Some (RootNode es)" "names_ok es" "\<forall>x. map_of es nm = Some x \<longrightarrow> upgrade w x = None"
    "nm \<noteq> []" "slash \<notin> set nm" "\<forall>j \<in> dropped w. j < length (nodes w)"
  obtains w1 es1 where "obj_create ex i nm w = done_obj (Inr (length (nodes w))) w1" "upgrade w1 (length (nodes w)) = Some (CreateRootEntry i nm)"
    "upgrade w1 i = Some (RootNode es1)" "map_of es1 = (map_of es)(nm := None)" "names_ok es1"
    "\<forall>j n. j \<noteq> i \<longrightarrow> upgrade w j = Some n \<longrightarrow> upgrade w1 j = Some n"
proof -
  let ?es = "if map_of es nm = None then es else bt_remove nm es"
  let ?w = "if map_of es nm = None then w else set_node i (RootNode (bt_remove nm es)) w"
  have f: "root_find i es nm w = (None, ?w)" using assms(3,5) by (auto simp: root_find_def split: option.splits)
  have u: "upgrade ?w i = Some (RootNode ?es)" "length (nodes ?w) = length (nodes w)" "dropped ?w = dropped w"
    "\<forall>j n. j \<noteq> i \<longrightarrow> upgrade w j = Some n \<longrightarrow> upgrade ?w j = Some n"
    using assms(1) by (simp_all add: upgrade_set_node) (simp_all add: set_node_def)
  let ?w1 = "snd (new_node (CreateRootEntry i nm) ?w)"
  have "obj_create ex i nm w = done_obj (Inr (length (nodes w))) ?w1"
    using assms(1,4,5) f u(2) by (subst obj_create.simps) (simp add: new_node_def)
  moreover have "length (nodes w) \<notin> dropped ?w" using assms(6) u(3) by auto
  then have "upgrade ?w1 (length (nodes w)) = Some (CreateRootEntry i nm)"
    using upgrade_new_node(2) [of ?w "CreateRootEntry i nm"] u(2) by simp
  moreover have "upgrade ?w1 i = Some (RootNode ?es)" using upgrade_new_node(1) [OF u(1)] .
  moreover have "map_of ?es = (map_of es)(nm := None)" by auto
  moreover have "names_ok ?es" using assms(2) names_ok_remove by simp
  moreover have "\<forall>j n. j \<noteq> i \<longrightarrow> upgrade w j = Some n \<longrightarrow> upgrade ?w1 j = Some n" using u(4) upgrade_new_node(1) by blast
  ultimately show thesis using that by blast
qed

lemma share_entry:
  assumes "upgrade w c = Some (CreateRootEntry i nm)" "upgrade w i = Some (RootNode es)" "names_ok es" "nm \<noteq> []"
  obtains w2 where "entry_share c obj w = done_u64 (Inr 0) w2" "upgrade w2 i = Some (RootNode (bt_insert nm obj es))"
    "names_ok (bt_insert nm obj es)" "upgrade w2 c = Some (CreateRootEntry i [])"
    "\<forall>j n. j \<noteq> i \<longrightarrow> j \<noteq> c \<longrightarrow> upgrade w j = Some n \<longrightarrow> upgrade w2 j = Some n"
proof -
  have ci: "c \<noteq> i" using assms(1,2) by auto
  let ?w = "set_node c (CreateRootEntry i []) w" let ?w2 = "set_node i (RootNode (bt_insert nm obj es)) ?w"
  have "nodes ?w ! i = RootNode es" using assms(2) ci by (simp add: set_node_def upgrade_def split: if_splits)
  then have "entry_share c obj w = done_u64 (Inr 0) ?w2" using assms by (simp add: entry_share_def root_add_def)
  moreover have "upgrade ?w2 i = Some (RootNode (bt_insert nm obj es))" "upgrade ?w2 c = Some (CreateRootEntry i [])"
    using assms(1,2) ci by (simp_all add: upgrade_set_node)
  moreover have "\<forall>j n. j \<noteq> i \<longrightarrow> j \<noteq> c \<longrightarrow> upgrade w j = Some n \<longrightarrow> upgrade ?w2 j = Some n" by (simp add: upgrade_set_node)
  ultimately show thesis using that names_ok_insert [OF assms(3)] by blast
qed

lemma destroy_name:
  assumes "upgrade w i = Some (RootNode es)" "map_of es nm = Some obj" "upgrade w obj \<noteq> None" "nm \<noteq> []" "slash \<notin> set nm"
    "i \<notin> locked"
  shows "obj_destroy ex locked i nm w = Some (done_u64 (Inr 0) (set_node i (RootNode (bt_remove nm es)) w))"
  using assms by (subst obj_destroy.simps) (simp add: root_find_def)

lemma root_names:
  assumes w: "upgrade w i = Some (RootNode es)" "names_ok es" "\<forall>j \<in> dropped w. j < length (nodes w)"
    and nm: "nm \<noteq> []" "slash \<notin> set nm" "\<forall>x. map_of es nm = Some x \<longrightarrow> upgrade w x = None"
    and obj: "upgrade w obj \<noteq> None"
  shows "\<exists>t1 c w1 t2 w2 es2. obj_create ex i nm w = (t1, w1) \<and> status_of (t_obj w1) t1 = Some (Inr c)
    \<and> entry_share c obj w1 = (t2, w2) \<and> status_of (t_u64 w2) t2 = Some (Inr 0)
    \<and> upgrade w2 i = Some (RootNode es2) \<and> names_ok es2 \<and> map_of es2 = (map_of es)(nm \<mapsto> obj)
    \<and> obj_open ex i nm w2 = done_obj (Inr obj) w2
    \<and> obj_open ex i (nm @ slash # rest) w2 = obj_open ex obj rest w2
    \<and> entry_share c obj' w2 = done_u64 (Inl InvalidData) w2
    \<and> (\<exists>t3 w3. obj_destroy ex {} i nm w2 = Some (t3, w3) \<and> status_of (t_u64 w3) t3 = Some (Inr 0)
         \<and> obj_open ex i nm w3 = done_obj (Inl DoesNotExist) w3)"
proof -
  let ?c = "length (nodes w)"
  obtain v1 es1 where 1: "obj_create ex i nm w = done_obj (Inr ?c) v1" "upgrade v1 ?c = Some (CreateRootEntry i nm)"
    "upgrade v1 i = Some (RootNode es1)" "map_of es1 = (map_of es)(nm := None)" "names_ok es1"
    "\<forall>j n. j \<noteq> i \<longrightarrow> upgrade w j = Some n \<longrightarrow> upgrade v1 j = Some n"
    by (rule create_entry [OF w(1,2) nm(3,1,2) w(3)])
  let ?w1 = "snd (done_obj (Inr ?c) v1)"
  obtain v2 where 2: "entry_share ?c obj ?w1 = done_u64 (Inr 0) v2" "upgrade v2 i = Some (RootNode (bt_insert nm obj es1))"
    "names_ok (bt_insert nm obj es1)" "upgrade v2 ?c = Some (CreateRootEntry i [])"
    "\<forall>j n. j \<noteq> i \<longrightarrow> j \<noteq> ?c \<longrightarrow> upgrade ?w1 j = Some n \<longrightarrow> upgrade v2 j = Some n"
    by (rule share_entry [of ?w1 ?c i nm es1 obj]) (use 1 nm(1) in simp_all)
  let ?w2 = "snd (done_u64 (Inr 0) v2)"
  have "obj \<noteq> ?c" using obj by (auto simp: upgrade_def)
  then have o2: "upgrade ?w2 obj \<noteq> None" using obj 1(6) 2(2,5) by (cases "obj = i") auto
  have r2: "upgrade ?w2 i = Some (RootNode (bt_insert nm obj es1))" "map_of (bt_insert nm obj es1) nm = Some obj"
    using 2(2) by simp_all
  let ?v3 = "set_node i (RootNode (bt_remove nm (bt_insert nm obj es1))) ?w2" let ?w3 = "snd (done_u64 (Inr 0) ?v3)"
  have d: "obj_destroy ex {} i nm ?w2 = Some (fst (done_u64 (Inr 0) ?v3), ?w3)"
    using destroy_name [OF r2 o2 nm(1,2), of "{}" ex] by simp
  have "upgrade ?w3 i = Some (RootNode (bt_remove nm (bt_insert nm obj es1)))" using r2(1) by (simp add: upgrade_set_node)
  then have 3: "obj_open ex i nm ?w3 = done_obj (Inl DoesNotExist) ?w3" using open_missing(1) nm(1,2) by simp
  have 4: "entry_share ?c obj' ?w2 = done_u64 (Inl InvalidData) ?w2" using 2(4) by (simp add: entry_share_def)
  have 5: "map_of (bt_insert nm obj es1) = (map_of es)(nm \<mapsto> obj)" using 1(4) by auto
  show ?thesis
    by (intro exI [of _ "fst (done_obj (Inr ?c) v1)"] exI [of _ ?c] exI [of _ ?w1] exI [of _ "fst (done_u64 (Inr 0) v2)"]
        exI [of _ ?w2] exI [of _ "bt_insert nm obj es1"] conjI exI [of _ "fst (done_u64 (Inr 0) ?v3)"] exI [of _ ?w3])
      (use 1(1) 2(1) r2(1) 2(3) 5 open_name(1,2) [OF r2 o2 nm(1,2)] 4 d 3 in \<open>simp_all only: prod.collapse done_status\<close>)
qed

text \<open>
  C38. A name that is free in a root can be created, and sharing an object on the entry binds it:
  opening the name yields the object, a longer path is resolved by the object, all other names stay as
  they were and the names stay in order. The entry can be used once. Destroying the name unbinds it.
\<close>

theorem root_names_resolve:
  assumes "upgrade w i = Some (RootNode es)" "names_ok es" "\<forall>j \<in> dropped w. j < length (nodes w)"
    and "nm \<noteq> []" "slash \<notin> set nm" "\<forall>x. map_of es nm = Some x \<longrightarrow> upgrade w x = None" and "upgrade w obj \<noteq> None"
  shows "\<exists>t1 c w1 t2 w2 es2. obj_create ex i nm w = (t1, w1) \<and> status_of (t_obj w1) t1 = Some (Inr c)
    \<and> entry_share c obj w1 = (t2, w2) \<and> status_of (t_u64 w2) t2 = Some (Inr 0)
    \<and> upgrade w2 i = Some (RootNode es2) \<and> names_ok es2 \<and> map_of es2 = (map_of es)(nm \<mapsto> obj)
    \<and> obj_open ex i nm w2 = done_obj (Inr obj) w2
    \<and> obj_open ex i (nm @ slash # rest) w2 = obj_open ex obj rest w2
    \<and> entry_share c obj' w2 = done_u64 (Inl InvalidData) w2
    \<and> (\<exists>t3 w3. obj_destroy ex {} i nm w2 = Some (t3, w3) \<and> status_of (t_u64 w3) t3 = Some (Inr 0)
         \<and> obj_open ex i nm w3 = done_obj (Inl DoesNotExist) w3)"
  by (rule root_names [OF assms])

definition two_roots :: roots where
  "two_roots = \<lparr>nodes = [RootNode [([100], 5)], RootNode []], dropped = {}, t_obj = \<lparr>cells = [], woken = []\<rparr>,
     t_u64 = \<lparr>cells = [], woken = []\<rparr>, t_data = \<lparr>cells = [], woken = []\<rparr>\<rparr>"

definition no_ext :: ext where
  "no_ext = \<lparr>ext_open = (\<lambda>_ _. done_obj (Inl InvalidOperation)), ext_create = (\<lambda>_ _. done_obj (Inl InvalidOperation)),
     ext_destroy = (\<lambda>_ _. done_u64 (Inl InvalidOperation))\<rparr>"

theorem root_names_resolve_witness:
  "\<exists>t1 c w1 t2 w2. obj_create no_ext 0 [97, 98] two_roots = (t1, w1) \<and> status_of (t_obj w1) t1 = Some (Inr c)
     \<and> entry_share c 1 w1 = (t2, w2) \<and> obj_open no_ext 0 [97, 98, slash, 99] w2 = obj_open no_ext 1 [99] w2
     \<and> obj_open no_ext 0 [97, 98] w2 = done_obj (Inr 1) w2"
proof -
  have "upgrade two_roots 0 = Some (RootNode [([100], 5)])" "upgrade two_roots 1 \<noteq> None" "dropped two_roots = {}"
    by (simp_all add: upgrade_def two_roots_def)
  then show ?thesis
    using root_names_resolve [of two_roots 0 "[([100], 5)]" "[97, 98]" 1 no_ext "[99]" 1]
    by (auto simp: names_ok_def slash_def)
qed

section \<open>Listing\<close>

text \<open>A program lists a root by opening it and reading the query until it gets an empty name.\<close>

fun read_names :: "nat \<Rightarrow> nat \<Rightarrow> nat \<Rightarrow> roots \<Rightarrow> name list" where
  "read_names 0 q n w = []"
| "read_names (Suc k) q n w =
     (let (t, w) = query_read q n w in
      case status_of (t_data w) t of Some (Inr b) \<Rightarrow> b # read_names k q n w | _ \<Rightarrow> [])"

lemma read_names_all:
  assumes "upgrade w q = Some (QueryNode bs)" "\<forall>b \<in> set bs. length b < n"
  shows "read_names (Suc (length bs)) q n w = bs @ [[]]"
  using assms
proof (induction bs arbitrary: w)
  case (Cons b bs)
  let ?w = "snd (done_data (Inr b) (set_node q (QueryNode bs) w))"
  have "query_read q n w = done_data (Inr b) (set_node q (QueryNode bs) w)"
    using Cons.prems by (simp add: query_read_def)
  moreover have "upgrade ?w q = Some (QueryNode bs)" using Cons.prems(1) by (simp add: upgrade_set_node)
  ultimately show ?case using Cons.IH [of ?w] Cons.prems(2) by (simp add: split_beta Let_def del: read_names.simps(2))
    (simp add: Let_def split_beta)
qed (simp add: query_read_def split_beta Let_def)

text \<open>A name as long as the buffer is lost, and reads like the end of the list.\<close>

lemma query_loses_name:
  "upgrade w q = Some (QueryNode (b # bs)) \<Longrightarrow> length b = n \<Longrightarrow>
    query_read q n w = done_data (Inr []) (set_node q (QueryNode bs) w)"
  by (simp add: query_read_def)

text \<open>A root that is bound to a name in itself: destroying a path through that name never returns.\<close>

lemma root_destroy_deadlocks:
  assumes "upgrade w i = Some (RootNode es)" "map_of es nm = Some i" "nm \<noteq> []" "slash \<notin> set nm" "rest \<noteq> []"
  shows "obj_destroy ex {} i (nm @ slash # rest) w = None"
proof -
  have "obj_destroy ex {i} i rest w = None" using assms by (subst obj_destroy.simps) simp
  then show ?thesis using assms by (subst obj_destroy.simps) (simp add: root_find_def)
qed

end
