(* ===== verification/Scheduler.thy ===== *)
theory Scheduler
  imports Virtual_Memory
begin

text \<open>
  Threads and their scheduling: \<open>kernel/src/scheduler/thread.rs\<close>, \<open>round_robin.rs\<close>, \<open>waker.rs\<close>, \<open>mod.rs\<close> and
  \<open>kernel/src/time/mod.rs\<close>. Threads are numbered; a thread of \<open>sc_gone\<close> has no strong reference left, so a
  weak reference to it cannot be upgraded. The ring of the scheduler is a heap of nodes; an access to a
  node that has been freed is undefined behaviour and is represented as \<open>None\<close>, like a panic. The clock is
  an argument of the operations that read it.
\<close>

section \<open>Time\<close>

definition TIME_MAX :: u64 where
  "TIME_MAX = - 1"

definition checked_add_nanos :: "u64 \<Rightarrow> u64 \<Rightarrow> u64 option" where
  "checked_add_nanos t dt = (if unat t + unat dt < 2 ^ 64 then Some (t + dt) else None)"

definition saturating_add_nanos :: "u64 \<Rightarrow> u64 \<Rightarrow> u64" where
  "saturating_add_nanos t dt = (case checked_add_nanos t dt of Some r \<Rightarrow> r | None \<Rightarrow> TIME_MAX)"

text \<open>\<open>Duration\<close> counts nanoseconds, here as a number without bound.\<close>

definition time_checked_add :: "u64 \<Rightarrow> nat \<Rightarrow> u64 option" where
  "time_checked_add t d = (if d < 2 ^ 64 then checked_add_nanos t (of_nat d) else None)"

definition time_saturating_add :: "u64 \<Rightarrow> nat \<Rightarrow> u64" where
  "time_saturating_add t d = (case time_checked_add t d of Some r \<Rightarrow> r | None \<Rightarrow> TIME_MAX)"

definition duration_until :: "u64 \<Rightarrow> u64 \<Rightarrow> u64 option" where
  "duration_until t until = (if t \<le> until then Some (until - t) else None)"

section \<open>Threads\<close>

record Thread =
  th_user_stack :: u64
  th_kernel_stack :: u64
  th_kernel_stack_base :: u64
  th_frame :: ppn
  th_process :: "nat option"
  th_sleep :: u64
  th_wait :: u64
  th_waiters :: "nat list"
  th_destroyed :: bool

record Node =
  n_next :: nat
  n_thread :: nat

record thread_list =
  tl_len :: nat
  tl_cur :: nat
  tl_heap :: "nat \<rightharpoonup> Node"
  tl_top :: nat

record sched =
  sc_threads :: "Thread list"
  sc_gone :: "nat set"
  sc_ring :: thread_list
  sc_kernel :: "mapping list"
  sc_mem :: mem_state

definition KERNEL_CS :: u64 where "KERNEL_CS = 8"
definition KERNEL_SS :: u64 where "KERNEL_SS = 16"
definition USER_CS :: u64 where "USER_CS = 35"
definition USER_SS :: u64 where "USER_SS = 27"

definition KERNEL_STACK_SIZE :: nat where "KERNEL_STACK_SIZE = 1"

definition kernel_stack_top :: "u64 \<Rightarrow> u64" where
  "kernel_stack_top base = base + of_nat KERNEL_STACK_SIZE * 4096"

text \<open>
  The word of the frame of a kernel stack that an address in the stack denotes, and a store to it. The
  stack is the page that was mapped at \<open>th_kernel_stack_base\<close>.
\<close>

definition stack_word :: "u64 \<Rightarrow> u64 \<Rightarrow> nat" where
  "stack_word base a = unat (a - base) div 8"

definition store :: "ppn \<Rightarrow> u64 \<Rightarrow> u64 \<Rightarrow> u64 \<Rightarrow> phys_mem \<Rightarrow> phys_mem" where
  "store f base a v m = m(f := (m f)(stack_word base a := v))"

text \<open>Pushing values, the first one on top of the stack first.\<close>

fun pushes :: "ppn \<Rightarrow> u64 \<Rightarrow> u64 list \<Rightarrow> u64 \<Rightarrow> phys_mem \<Rightarrow> u64 \<times> phys_mem" where
  "pushes f base [] sp m = (sp, m)"
| "pushes f base (v # vs) sp m = pushes f base vs (sp - 8) (store f base (sp - 8) v m)"

text \<open>
  \<open>Thread::new\<close>: the frame of the kernel stack, its mapping, and the state that the first switch to the
  thread restores. \<open>cur\<close> is the active page table.
\<close>

definition kernel_stack_new ::
  "ppn \<Rightarrow> mapping list \<Rightarrow> mem_state \<Rightarrow> ((AllocateError + ppn \<times> u64) \<times> mapping list \<times> mem_state) panics" where
  "kernel_stack_new cur kobjs s =
     do { (r, s) \<leftarrow> owned_new KERNEL_STACK_SIZE s;
          case r of
            Inl e \<Rightarrow> Some (Inl e, kobjs, s)
          | Inr ps \<Rightarrow>
              do { (r, kobjs, s) \<leftarrow> kernel_map_object cur None (frames_object ps) RWX_RW kobjs s;
                   case r of Inl _ \<Rightarrow> None | Inr (base, _) \<Rightarrow> Some (Inr (ps ! 0, base), kobjs, s) } }"

definition thread_new ::
  "ppn \<Rightarrow> u64 \<Rightarrow> u64 \<Rightarrow> nat \<Rightarrow> mapping list \<Rightarrow> mem_state \<Rightarrow> ((AllocateError + Thread) \<times> mapping list \<times> mem_state) panics" where
  "thread_new cur start stack proc kobjs s =
     do { (r, kobjs, c, m) \<leftarrow> kernel_stack_new cur kobjs s;
          case r of
            Inl e \<Rightarrow> Some (Inl e, kobjs, c, m)
          | Inr (f, base) \<Rightarrow>
              let (sp, m) = pushes f base [USER_SS, stack, 0x202, USER_CS, start] (kernel_stack_top base) m;
                  (sp, m) = pushes f base [- 1] sp m;
                  sp = sp - 14 * 8
              in Some (Inr \<lparr>th_user_stack = stack, th_kernel_stack = sp, th_kernel_stack_base = base, th_frame = f,
                   th_process = Some proc, th_sleep = 0, th_wait = 0, th_waiters = [], th_destroyed = False\<rparr>,
                 kobjs, c, m) }"

definition thread_set_handle :: "Thread \<Rightarrow> u32 \<Rightarrow> phys_mem \<Rightarrow> phys_mem" where
  "thread_set_handle th h m =
     store (th_frame th) (th_kernel_stack_base th) (th_kernel_stack th + 14 * 8) (ucast h) m"

text \<open>A thread of the kernel starts with its arguments in \<open>rdi\<close> and \<open>rsi\<close>.\<close>

definition kernel_new ::
  "ppn \<Rightarrow> u64 \<Rightarrow> u64 list \<Rightarrow> bool \<Rightarrow> mapping list \<Rightarrow> mem_state
    \<Rightarrow> ((AllocateError + Thread) \<times> mapping list \<times> mem_state) panics" where
  "kernel_new cur start args enable_interrupts kobjs s =
     do { (r, kobjs, c, m) \<leftarrow> kernel_stack_new cur kobjs s;
          case r of
            Inl e \<Rightarrow> Some (Inl e, kobjs, c, m)
          | Inr (f, base) \<Rightarrow>
              let stack = kernel_stack_top base;
                  (sp, m) = pushes f base
                    [KERNEL_SS, stack, 0x2 OR of_bool enable_interrupts * 0x200, KERNEL_CS, start] stack m;
                  m = fold (\<lambda>(offt, arg) m. store f base (sp - offt * 8) arg m) (zip [5, 6] args) m;
                  sp = sp - 15 * 8
              in Some (Inr \<lparr>th_user_stack = 0, th_kernel_stack = sp, th_kernel_stack_base = base, th_frame = f,
                   th_process = None, th_sleep = 0, th_wait = 0, th_waiters = [], th_destroyed = False\<rparr>,
                 kobjs, c, m) }"

text \<open>
  \<open>resume\<close>: the registers are popped from the kernel stack, \<open>r15\<close> first, then \<open>iretq\<close> takes the rest. The
  result is the owner of the address space to activate and the values in the order they are popped.
\<close>

datatype Destroyed = Destroyed

definition thread_resume :: "Thread \<Rightarrow> phys_mem \<Rightarrow> Destroyed + nat option \<times> u64 list" where
  "thread_resume th m =
     (if th_destroyed th then Inl Destroyed
      else Inr (th_process th, map (\<lambda>i. m (th_frame th)
        (stack_word (th_kernel_stack_base th) (th_kernel_stack th + of_nat i * 8))) [0..<20]))"

definition wake_time :: "Thread \<Rightarrow> u64" where
  "wake_time th = saturating_add_nanos (th_sleep th) (th_wait th)"

text \<open>Both stores of \<open>wait_until\<close>; then the thread yields.\<close>

definition wait_until :: "u64 \<Rightarrow> u64 \<Rightarrow> Thread \<Rightarrow> Thread" where
  "wait_until time duration_ns th = th\<lparr>th_wait := duration_ns, th_sleep := time\<rparr>"

definition sleep_until :: "u64 \<Rightarrow> Thread \<Rightarrow> Thread" where
  "sleep_until time th = wait_until time 0 th"

definition thread_wake :: "Thread \<Rightarrow> Thread" where
  "thread_wake th = th\<lparr>th_wait := 0\<rparr>"

definition thread_at :: "nat \<Rightarrow> (Thread \<Rightarrow> Thread) \<Rightarrow> sched \<Rightarrow> sched" where
  "thread_at i f s = s\<lparr>sc_threads := (sc_threads s)[i := f (sc_threads s ! i)]\<rparr>"

text \<open>\<open>Weak::upgrade\<close>.\<close>

definition upgrades :: "sched \<Rightarrow> nat \<Rightarrow> bool" where
  "upgrades s i \<longleftrightarrow> i < length (sc_threads s) \<and> i \<notin> sc_gone s"

text \<open>The waker of a thread is its weak reference.\<close>

definition waker_wake :: "nat \<Rightarrow> sched \<Rightarrow> sched" where
  "waker_wake i s = (if upgrades s i then thread_at i thread_wake s else s)"

definition thread_destroy :: "ppn \<Rightarrow> nat \<Rightarrow> sched \<Rightarrow> sched panics" where
  "thread_destroy cur i s =
     (let th = sc_threads s ! i in
      do { (kobjs, ms) \<leftarrow> kernel_unmap_object cur (th_kernel_stack_base th) KERNEL_STACK_SIZE (sc_kernel s) (sc_mem s);
           Some (fold waker_wake (th_waiters th)
             (thread_at i (\<lambda>th. th\<lparr>th_destroyed := True, th_waiters := []\<rparr>) (s\<lparr>sc_kernel := kobjs, sc_mem := ms\<rparr>))) })"

text \<open>
  \<open>wait\<close> by thread \<open>me\<close>: the waiter registers itself and yields until the thread is destroyed. \<open>yield\<close> is
  what the others do until \<open>me\<close> runs again.
\<close>

partial_function (option) wait_loop :: "(sched \<Rightarrow> u64 \<times> sched) \<Rightarrow> nat \<Rightarrow> nat \<Rightarrow> u64 \<Rightarrow> sched \<Rightarrow> sched option" where
  "wait_loop yield me i now s =
     (if th_destroyed (sc_threads s ! i) then Some s
      else (let (now, s) = yield (thread_at me (wait_until now (- 1)) s) in wait_loop yield me i now s))"

definition thread_wait :: "(sched \<Rightarrow> u64 \<times> sched) \<Rightarrow> nat \<Rightarrow> nat \<Rightarrow> u64 \<Rightarrow> sched \<Rightarrow> sched option" where
  "thread_wait yield me i now s =
     (if th_destroyed (sc_threads s ! i) then Some s
      else wait_loop yield me i now (thread_at i (\<lambda>th. th\<lparr>th_waiters := th_waiters th @ [me]\<rparr>) s))"

section \<open>Round robin\<close>

definition rr_insert :: "nat \<Rightarrow> thread_list \<Rightarrow> thread_list panics" where
  "rr_insert thread l =
     (let new = tl_top l in
      if 0 < tl_len l then
        do { cur \<leftarrow> tl_heap l (tl_cur l);
             Some (l\<lparr>tl_heap := (tl_heap l)(new \<mapsto> \<lparr>n_next = n_next cur, n_thread = thread\<rparr>, tl_cur l \<mapsto> cur\<lparr>n_next := new\<rparr>),
               tl_top := Suc new, tl_len := Suc (tl_len l)\<rparr>) }
      else Some (l\<lparr>tl_heap := (tl_heap l)(new \<mapsto> \<lparr>n_next = new, n_thread = thread\<rparr>), tl_cur := new,
             tl_top := Suc new, tl_len := Suc (tl_len l)\<rparr>))"

text \<open>
  The loop of \<open>next\<close>; the second argument is the length of the list. A dead thread's node is freed before
  \<open>c.next\<close> is read again.
\<close>

fun next_loop :: "(nat \<Rightarrow> bool) \<Rightarrow> nat \<Rightarrow> nat \<Rightarrow> thread_list \<Rightarrow> (nat option \<times> thread_list) panics" where
  "next_loop live 0 cp l = Some (None, l\<lparr>tl_len := 0\<rparr>)"
| "next_loop live (Suc k) cp l =
     do { c \<leftarrow> tl_heap l cp;
          n \<leftarrow> tl_heap l (n_next c);
          if live (n_thread n) then Some (Some (n_thread n), l\<lparr>tl_cur := n_next c, tl_len := Suc k\<rparr>)
          else
            (let l = l\<lparr>tl_heap := (tl_heap l)(n_next c := None), tl_len := k\<rparr> in
             do { c \<leftarrow> tl_heap l cp;
                  if n_next c = cp then Some (None, l)
                  else next_loop live k cp (l\<lparr>tl_heap := (tl_heap l)(cp \<mapsto> c\<lparr>n_next := n_next n\<rparr>)\<rparr>) }) }"

definition rr_next :: "(nat \<Rightarrow> bool) \<Rightarrow> thread_list \<Rightarrow> (nat option \<times> thread_list) panics" where
  "rr_next live l = (if tl_len l = 0 then Some (None, l) else next_loop live (tl_len l) (tl_cur l) l)"

definition live_thread :: "sched \<Rightarrow> nat \<Rightarrow> bool" where
  "live_thread s i \<longleftrightarrow> upgrades s i \<and> \<not> th_destroyed (sc_threads s ! i)"

section \<open>Choosing a thread\<close>

definition next_live :: "sched \<Rightarrow> (nat \<times> sched) panics" where
  "next_live s =
     do { (r, l) \<leftarrow> rr_next (live_thread s) (sc_ring s);
          thr \<leftarrow> r;
          Some (thr, s\<lparr>sc_ring := l\<rparr>) }"

text \<open>\<open>try_next_thread\<close> answers the thread to resume, or when the next one wakes.\<close>

partial_function (option) try_next_loop ::
  "u64 \<Rightarrow> nat \<Rightarrow> nat \<Rightarrow> u64 \<Rightarrow> sched \<Rightarrow> ((u64 + nat) \<times> sched) option" where
  "try_next_loop now first thr t s =
     (let w = wake_time (sc_threads s ! thr) in
      if w \<le> now \<and> \<not> th_destroyed (sc_threads s ! thr) then Some (Inr thr, s)
      else do { (thr, s) \<leftarrow> next_live s;
                if thr = first then Some (Inl (min t w), s)
                else try_next_loop now first thr (min t w) s })"

definition try_next_thread :: "u64 \<Rightarrow> sched \<Rightarrow> ((u64 + nat) \<times> sched) option" where
  "try_next_thread now s =
     do { (thr, s) \<leftarrow> next_live s;
          try_next_loop now thr thr TIME_MAX s }"

text \<open>
  One turn of \<open>next_thread\<close>, with the times the clock shows in \<open>try_next_thread\<close> and after it: a thread to
  resume, the nanoseconds to sleep, or another turn.
\<close>

datatype turn = RunThread nat | SleepFor u64 | Again

definition next_thread_turn :: "u64 \<Rightarrow> u64 \<Rightarrow> sched \<Rightarrow> (turn \<times> sched) option" where
  "next_thread_turn now now' s =
     do { (r, s) \<leftarrow> try_next_thread now s;
          Some (case r of
                  Inr thr \<Rightarrow> RunThread thr
                | Inl t \<Rightarrow> (case duration_until now' t of Some d \<Rightarrow> SleepFor d | None \<Rightarrow> Again), s) }"

definition new_kernel_thread :: "ppn \<Rightarrow> u64 \<Rightarrow> u64 \<Rightarrow> bool \<Rightarrow> sched \<Rightarrow> ((AllocateError + unit) \<times> sched) panics" where
  "new_kernel_thread cur f arg enable_interrupts s =
     do { (r, kobjs, ms) \<leftarrow> kernel_new cur f [arg] enable_interrupts (sc_kernel s) (sc_mem s);
          let s = s\<lparr>sc_kernel := kobjs, sc_mem := ms\<rparr>;
          case r of
            Inl e \<Rightarrow> Some (Inl e, s)
          | Inr th \<Rightarrow>
              do { l \<leftarrow> rr_insert (length (sc_threads s)) (sc_ring s);
                   Some (Inr (), s\<lparr>sc_threads := sc_threads s @ [th], sc_ring := l\<rparr>) } }"

section \<open>The ring\<close>

text \<open>
  The nodes after the current one, up to and with the current one: the order in which \<open>next\<close> visits them.
\<close>

fun linked :: "(nat \<rightharpoonup> Node) \<Rightarrow> nat \<Rightarrow> nat list \<Rightarrow> bool" where
  "linked h p [] = True"
| "linked h p (a # as) = ((\<exists>c. h p = Some c \<and> n_next c = a) \<and> linked h a as)"

definition thread_of :: "(nat \<rightharpoonup> Node) \<Rightarrow> nat \<Rightarrow> nat" where
  "thread_of h a = n_thread (the (h a))"

definition ring_nodes :: "thread_list \<Rightarrow> nat list \<Rightarrow> bool" where
  "ring_nodes l as \<longleftrightarrow> length as = tl_len l \<and> distinct as \<and> (\<forall>a \<in> set as. a < tl_top l \<and> tl_heap l a \<noteq> None)
     \<and> (as \<noteq> [] \<longrightarrow> last as = tl_cur l \<and> linked (tl_heap l) (tl_cur l) as)"

definition ring :: "thread_list \<Rightarrow> nat list \<Rightarrow> bool" where
  "ring l ts \<longleftrightarrow> (\<exists>as. ring_nodes l as \<and> ts = map (thread_of (tl_heap l)) as)"

lemma linked_cong: "\<forall>x \<in> set (p # butlast as). h' x = h x \<Longrightarrow> linked h' p as = linked h p as"
proof (induction as arbitrary: p)
  case (Cons a as)
  then show ?case by (cases "as = []") auto
qed simp

lemma last_not_butlast: "distinct xs \<Longrightarrow> xs \<noteq> [] \<Longrightarrow> last xs \<notin> set (butlast xs)"
  by (induction xs) (auto dest: in_set_butlastD)

lemma linked_snoc: "linked h p (as @ [a]) \<longleftrightarrow>
    linked h p as \<and> (\<exists>c. h (if as = [] then p else last as) = Some c \<and> n_next c = a)"
  by (induction as arbitrary: p) auto

lemma thread_of_upd [simp]: "thread_of (h(a \<mapsto> c)) x = (if x = a then n_thread c else thread_of h x)"
  by (simp add: thread_of_def)

text \<open>Taking a dead thread's node out of the ring.\<close>

lemma unlink:
  assumes "linked h p (a # as)" "as \<noteq> []" "last as = p" "distinct (a # as)" "h p = Some c" "\<forall>x \<in> set as. h x \<noteq> None"
  shows "linked (h(a := None, p \<mapsto> c\<lparr>n_next := hd as\<rparr>)) p as"
    and "\<forall>x \<in> set as. (h(a := None, p \<mapsto> c\<lparr>n_next := hd as\<rparr>)) x \<noteq> None
      \<and> thread_of (h(a := None, p \<mapsto> c\<lparr>n_next := hd as\<rparr>)) x = thread_of h x"
    and "a \<noteq> p" and "map_option n_next (h a) = Some (hd as)"
proof -
  obtain b bs where as: "as = b # bs" using assms(2) by (cases as) auto
  let ?h = "h(a := None, p \<mapsto> c\<lparr>n_next := hd as\<rparr>)"
  show ap: "a \<noteq> p" using assms(3,4) as by (auto split: if_splits)
  have "p \<notin> set (butlast as)" using last_not_butlast [of as] assms(3,4) as by simp
  then have "\<forall>x \<in> set (b # butlast bs). bs \<noteq> [] \<longrightarrow> ?h x = h x"
    using as assms(4) by (auto split: if_splits dest: in_set_butlastD)
  then have "linked ?h b bs = linked h b bs" by (cases "bs = []") (simp_all add: linked_cong)
  then show "linked ?h p as" using assms(1) as by simp
  show "\<forall>x \<in> set as. ?h x \<noteq> None \<and> thread_of ?h x = thread_of h x"
    using assms(4-) ap by (auto simp: thread_of_def)
  show "map_option n_next (h a) = Some (hd as)" using assms(1) as by auto
qed

lemma next_loop_live:
  assumes "linked (tl_heap l) p as" "as \<noteq> []" "last as = p" "distinct as" "\<forall>a \<in> set as. tl_heap l a \<noteq> None"
    and "\<exists>a \<in> set as. live (thread_of (tl_heap l) a)"
  shows "\<exists>ds a rest h'. as = ds @ a # rest \<and> (\<forall>d \<in> set ds. \<not> live (thread_of (tl_heap l) d))
    \<and> live (thread_of (tl_heap l) a)
    \<and> next_loop live (length as) p l
        = Some (Some (thread_of (tl_heap l) a), l\<lparr>tl_cur := a, tl_len := Suc (length rest), tl_heap := h'\<rparr>)
    \<and> linked h' a (rest @ [a]) \<and> (\<forall>x \<in> set (a # rest). h' x \<noteq> None \<and> thread_of h' x = thread_of (tl_heap l) x)"
  using assms
proof (induction as arbitrary: l)
  case (Cons a as)
  let ?h = "tl_heap l"
  obtain c where c: "?h p = Some c" "n_next c = a" and la: "linked ?h a as" using Cons.prems(1) by auto
  obtain n where n: "?h a = Some n" using Cons.prems(5) by auto
  show ?case
  proof (cases "live (n_thread n)")
    case True
    have "linked ?h a (as @ [a])" using la c Cons.prems(3) by (auto simp: linked_snoc split: if_splits)
    then show ?thesis using c n True Cons.prems(5)
      by (intro exI [of _ "[]"] exI [of _ a] exI [of _ as] exI [of _ ?h]) (simp add: thread_of_def)
  next
    case False
    have ex: "\<exists>x \<in> set as. live (thread_of ?h x)" using Cons.prems(6) False n by (auto simp: thread_of_def)
    then have ne: "as \<noteq> []" by auto
    then have p: "last as = p" using Cons.prems(3) by simp
    have node: "\<forall>x \<in> set as. ?h x \<noteq> None" using Cons.prems(5) by simp
    note u = unlink [OF Cons.prems(1) ne p Cons.prems(4) c(1) node]
    let ?h' = "?h(a := None, p \<mapsto> c\<lparr>n_next := hd as\<rparr>)" let ?l = "l\<lparr>tl_len := length as, tl_heap := ?h'\<rparr>"
    have d: "distinct as" using Cons.prems(4) by simp
    have hl: "tl_heap ?l = ?h'" by simp
    have "linked (tl_heap ?l) p as" "\<forall>a \<in> set as. tl_heap ?l a \<noteq> None" "\<exists>a \<in> set as. live (thread_of (tl_heap ?l) a)"
      unfolding hl using u ex by (auto simp del: thread_of_upd fun_upd_apply)
    from Cons.IH [OF this(1) ne p d this(2,3), unfolded hl]
    obtain ds x rest h' where ih: "as = ds @ x # rest" "\<forall>d \<in> set ds. \<not> live (thread_of ?h' d)" "live (thread_of ?h' x)"
      "next_loop live (length as) p ?l = Some (Some (thread_of ?h' x), ?l\<lparr>tl_cur := x, tl_len := Suc (length rest), tl_heap := h'\<rparr>)"
      "linked h' x (rest @ [x])" "\<forall>y \<in> set (x # rest). h' y \<noteq> None \<and> thread_of h' y = thread_of ?h' y"
      by (elim exE conjE) (rule that)
    have "next_loop live (length (a # as)) p l = next_loop live (length as) p ?l"
      using c n u(3,4) False by (simp add: Let_def)
    moreover have "\<forall>y \<in> set as. thread_of ?h' y = thread_of ?h y" using u(2) by blast
    ultimately show ?thesis using ih False n
      by (intro exI [of _ "a # ds"] exI [of _ x] exI [of _ rest] exI [of _ h']) (simp add: thread_of_def)
  qed
qed simp

lemma next_ring:
  assumes "ring l ts" and "\<exists>t \<in> set ts. live t"
  shows "\<exists>ds t rest l'. ts = ds @ t # rest \<and> (\<forall>d \<in> set ds. \<not> live d) \<and> live t
    \<and> rr_next live l = Some (Some t, l') \<and> ring l' (rest @ [t])"
proof -
  obtain as where as: "ring_nodes l as" "ts = map (thread_of (tl_heap l)) as" using assms(1) by (auto simp: ring_def)
  let ?h = "tl_heap l"
  have ne: "as \<noteq> []" using as assms(2) by auto
  note r = as(1) [unfolded ring_nodes_def]
  have len: "tl_len l = length as" using r by simp
  have "linked ?h (tl_cur l) as" "last as = tl_cur l" "distinct as" "\<forall>a \<in> set as. ?h a \<noteq> None"
    "\<exists>a \<in> set as. live (thread_of ?h a)" using r ne assms(2) as(2) by auto
  from next_loop_live [where l = l, OF this(1) ne this(2-)]
  obtain ds a rest h' where n: "as = ds @ a # rest" "\<forall>d \<in> set ds. \<not> live (thread_of ?h d)" "live (thread_of ?h a)"
    "next_loop live (length as) (tl_cur l) l
      = Some (Some (thread_of ?h a), l\<lparr>tl_cur := a, tl_len := Suc (length rest), tl_heap := h'\<rparr>)"
    "linked h' a (rest @ [a])" "\<forall>x \<in> set (a # rest). h' x \<noteq> None \<and> thread_of h' x = thread_of ?h x"
    by (elim exE conjE) (rule that)
  let ?l = "l\<lparr>tl_cur := a, tl_len := Suc (length rest), tl_heap := h'\<rparr>"
  have "rr_next live l = Some (Some (thread_of ?h a), ?l)" using n(4) ne by (simp add: rr_next_def len)
  moreover have "ring_nodes ?l (rest @ [a])" using n(1,5,6) r by (auto simp: ring_nodes_def)
  then have "ring ?l (map (thread_of ?h) (rest @ [a]))" using n(6) by (auto simp: ring_def)
  moreover have "ts = map (thread_of ?h) ds @ thread_of ?h a # map (thread_of ?h) rest" using n(1) as(2) by simp
  ultimately show ?thesis using n(2,3)
    by (intro exI [of _ "map (thread_of ?h) ds"] exI [of _ "thread_of ?h a"] exI [of _ "map (thread_of ?h) rest"] exI [of _ ?l]) auto
qed

text \<open>A new thread is the next one to run.\<close>

lemma insert_ring:
  assumes "ring l ts"
  shows "\<exists>l'. rr_insert t l = Some l' \<and> ring l' (t # ts)"
proof -
  obtain as where as: "ring_nodes l as" "ts = map (thread_of (tl_heap l)) as" using assms by (auto simp: ring_def)
  let ?h = "tl_heap l" and ?new = "tl_top l" and ?cur = "tl_cur l"
  note r = as(1) [unfolded ring_nodes_def]
  have fresh: "?new \<notin> set as" using r by auto
  show ?thesis
  proof (cases as)
    case Nil
    let ?l = "l\<lparr>tl_heap := ?h(?new \<mapsto> \<lparr>n_next = ?new, n_thread = t\<rparr>), tl_cur := ?new, tl_top := Suc ?new, tl_len := Suc (tl_len l)\<rparr>"
    have "ring_nodes ?l [?new]" using r Nil by (simp add: ring_nodes_def)
    then have "ring ?l (t # ts)" unfolding ring_def using Nil as(2) by (intro exI [of _ "[?new]"]) (simp add: thread_of_def)
    moreover have "rr_insert t l = Some ?l" using r Nil by (simp add: rr_insert_def Let_def)
    ultimately show ?thesis by blast
  next
    case (Cons b bs)
    have cur: "last as = ?cur" using r Cons by blast
    then have cur_in: "?cur \<in> set as" using last_in_set [of as] Cons by simp
    obtain c where c: "?h ?cur = Some c" "n_next c = b" "linked ?h b bs" using r Cons by auto
    let ?h' = "?h(?new \<mapsto> \<lparr>n_next = b, n_thread = t\<rparr>, ?cur \<mapsto> c\<lparr>n_next := ?new\<rparr>)"
    let ?l = "l\<lparr>tl_heap := ?h', tl_top := Suc ?new, tl_len := Suc (tl_len l)\<rparr>"
    have "?cur \<notin> set (butlast as)" using last_not_butlast [of as] r cur Cons by simp
    then have "\<forall>x \<in> set (b # butlast bs). bs \<noteq> [] \<longrightarrow> ?h' x = ?h x"
      using fresh Cons by (auto dest: in_set_butlastD)
    then have "linked ?h' b bs = linked ?h b bs" by (cases "bs = []") (simp_all add: linked_cong)
    then have "linked ?h' b bs" using c(3) by simp
    moreover have "?new \<noteq> ?cur" using fresh cur_in by auto
    ultimately have "ring_nodes ?l (?new # as)" using r Cons cur c(1) fresh by (auto simp: ring_nodes_def less_Suc_eq)
    moreover have "map (thread_of ?h') (?new # as) = t # ts"
      using fresh as(2) c(1) \<open>?new \<noteq> ?cur\<close> by (auto simp: thread_of_def)
    ultimately have "ring ?l (t # ts)" unfolding ring_def by (intro exI [of _ "?new # as"]) simp
    moreover have "rr_insert t l = Some ?l" using r Cons c by (auto simp: rr_insert_def Let_def)
    ultimately show ?thesis by blast
  qed
qed

text \<open>When no thread of the ring is alive, the last node is read after it was freed.\<close>

lemma next_all_dead:
  assumes "linked (tl_heap l) p as" "as \<noteq> []" "last as = p" "distinct as" "\<forall>a \<in> set as. tl_heap l a \<noteq> None"
    and "\<forall>a \<in> set as. \<not> live (thread_of (tl_heap l) a)"
  shows "next_loop live (length as) p l = None"
  using assms
proof (induction as arbitrary: l)
  case (Cons a as)
  let ?h = "tl_heap l"
  obtain c where c: "?h p = Some c" "n_next c = a" and la: "linked ?h a as" using Cons.prems(1) by auto
  obtain n where n: "?h a = Some n" "\<not> live (n_thread n)" using Cons.prems(5,6) by (auto simp: thread_of_def)
  show ?case
  proof (cases "as = []")
    case True
    then show ?thesis using c n Cons.prems(3) by simp
  next
    case ne: False
    then have p: "last as = p" using Cons.prems(3) by simp
    have node: "\<forall>x \<in> set as. ?h x \<noteq> None" using Cons.prems(5) by simp
    note u = unlink [OF Cons.prems(1) ne p Cons.prems(4) c(1) node]
    let ?h' = "?h(a := None, p \<mapsto> c\<lparr>n_next := hd as\<rparr>)" let ?l = "l\<lparr>tl_len := length as, tl_heap := ?h'\<rparr>"
    have d: "distinct as" using Cons.prems(4) by simp
    have hl: "tl_heap ?l = ?h'" by simp
    have "linked (tl_heap ?l) p as" "\<forall>a \<in> set as. tl_heap ?l a \<noteq> None" "\<forall>a \<in> set as. \<not> live (thread_of (tl_heap ?l) a)"
      unfolding hl using u Cons.prems(6) by (auto simp del: thread_of_upd fun_upd_apply)
    from Cons.IH [OF this(1) ne p d this(2,3)] show ?thesis using c n u(3,4) by (simp add: Let_def)
  qed
qed simp

section \<open>The choice\<close>

text \<open>
  What \<open>try_next_thread\<close> means for the threads in the order of the ring: the first one that is awake runs,
  and it and the living threads that were passed over go to the end; when all sleep, the answer is the
  earliest time at which one wakes.
\<close>

definition pick :: "(nat \<Rightarrow> bool) \<Rightarrow> (nat \<Rightarrow> u64) \<Rightarrow> u64 \<Rightarrow> nat list \<Rightarrow> (u64 + nat) \<times> nat list" where
  "pick live wk now ts =
     (case dropWhile (\<lambda>t. \<not> (live t \<and> wk t \<le> now)) ts of
        x # post \<Rightarrow> (Inr x, post @ filter live (takeWhile (\<lambda>t. \<not> (live t \<and> wk t \<le> now)) ts) @ [x])
      | [] \<Rightarrow> (Inl (fold min (map wk (filter live ts)) TIME_MAX), rotate1 (filter live ts)))"

abbreviation wakes :: "sched \<Rightarrow> nat \<Rightarrow> u64" where
  "wakes s t \<equiv> wake_time (sc_threads s ! t)"

lemma live_ring [simp]: "live_thread (s\<lparr>sc_ring := l\<rparr>) = live_thread s"
  by (simp add: live_thread_def upgrades_def fun_eq_iff)

lemma first_unique:
  assumes "ds @ t # r = ds' @ t' # r'" "\<forall>d \<in> set ds. \<not> P d" "\<forall>d \<in> set ds'. \<not> P d" "P t" "P t'"
  shows "ds = ds' \<and> t = t' \<and> r = r'"
proof -
  have "takeWhile (\<lambda>x. \<not> P x) (ds @ t # r) = ds" "takeWhile (\<lambda>x. \<not> P x) (ds' @ t' # r') = ds'"
    using assms(2-) by (auto simp: takeWhile_append2)
  then show ?thesis using assms(1) by auto
qed

lemma next_live_ring:
  assumes "ring (sc_ring s) (ds @ t # rest)" "\<forall>d \<in> set ds. \<not> live_thread s d" "live_thread s t"
  obtains l where "next_live s = Some (t, s\<lparr>sc_ring := l\<rparr>)" and "ring l (rest @ [t])"
proof -
  have "\<exists>x \<in> set (ds @ t # rest). live_thread s x" using assms(3) by simp
  from next_ring [OF assms(1) this] obtain ds' t' rest' l where
    n: "ds @ t # rest = ds' @ t' # rest'" "\<forall>d \<in> set ds'. \<not> live_thread s d" "live_thread s t'"
      "rr_next (live_thread s) (sc_ring s) = Some (Some t', l)" "ring l (rest' @ [t'])"
    by (elim exE conjE) (rule that)
  from first_unique [OF n(1) assms(2) n(2) assms(3) n(3)] show ?thesis
    using that [of l] n(4,5) by (simp add: next_live_def)
qed

lemma loop_step: "now < wakes s thr \<Longrightarrow> next_live s = Some (x, s') \<Longrightarrow> try_next_loop now first thr t s
    = (if x = first then Some (Inl (min t (wakes s thr)), s') else try_next_loop now first x (min t (wakes s thr)) s')"
  by (subst try_next_loop.simps) (auto simp: Let_def)

lemma loop_run: "wakes s x \<le> now \<Longrightarrow> live_thread s x \<Longrightarrow> try_next_loop now first x t s = Some (Inr x, s)"
  by (subst try_next_loop.simps) (simp add: live_thread_def)

lemma loop_ready:
  assumes "ring (sc_ring s) (pre @ x # post @ first # ds)" "distinct (pre @ x # post @ first # ds)"
    and "now < wakes s thr" "live_thread s x" "wakes s x \<le> now" "\<forall>y \<in> set pre. live_thread s y \<longrightarrow> now < wakes s y"
  shows "\<exists>l. try_next_loop now first thr t s = Some (Inr x, s\<lparr>sc_ring := l\<rparr>)
    \<and> ring l (post @ first # ds @ filter (live_thread s) pre @ [x])"
  using assms
proof (induction "length pre" arbitrary: pre ds thr t s rule: less_induct)
  case less
  show ?case
  proof (cases "\<exists>y \<in> set pre. live_thread s y")
    case False
    obtain l where l: "next_live s = Some (x, s\<lparr>sc_ring := l\<rparr>)" "ring l ((post @ first # ds) @ [x])"
      by (rule next_live_ring [OF less.prems(1) _ less.prems(4)]) (use False in auto)
    have "filter (live_thread s) pre = []" using False by (simp add: filter_empty_conv)
    then show ?thesis using loop_step [OF less.prems(3) l(1)] less.prems(2,4,5) l(2)
      by (intro exI [of _ l]) (simp add: loop_run)
  next
    case True
    then obtain d y pre' where pre: "pre = d @ y # pre'" "live_thread s y" "\<forall>z \<in> set d. \<not> live_thread s z"
      using split_list_first_prop [of pre "live_thread s"] by blast
    obtain l where l: "next_live s = Some (y, s\<lparr>sc_ring := l\<rparr>)" "ring l ((pre' @ x # post @ first # ds) @ [y])"
      by (rule next_live_ring [of s d y "pre' @ x # post @ first # ds"]) (use pre less.prems(1) in auto)
    have "\<exists>l'. try_next_loop now first y (min t (wakes s thr)) (s\<lparr>sc_ring := l\<rparr>) = Some (Inr x, s\<lparr>sc_ring := l\<rparr>\<lparr>sc_ring := l'\<rparr>)
        \<and> ring l' (post @ first # (ds @ [y]) @ filter (live_thread (s\<lparr>sc_ring := l\<rparr>)) pre' @ [x])"
      by (rule less.hyps) (use less.prems l(2) pre in auto)
    moreover have "y \<noteq> first" "filter (live_thread s) pre = y # filter (live_thread s) pre'"
      using less.prems(2) pre by (auto simp: filter_empty_conv)
    ultimately show ?thesis using loop_step [OF less.prems(3) l(1)] by simp
  qed
qed

lemma loop_none:
  assumes "ring (sc_ring s) (rs @ first # ds)" "distinct (rs @ first # ds)" "live_thread s first"
    and "now < wakes s thr" "\<forall>y \<in> set rs. live_thread s y \<longrightarrow> now < wakes s y"
  shows "\<exists>l. try_next_loop now first thr t s
      = Some (Inl (fold min (map (wakes s) (filter (live_thread s) rs)) (min t (wakes s thr))), s\<lparr>sc_ring := l\<rparr>)
    \<and> ring l (ds @ filter (live_thread s) rs @ [first])"
  using assms
proof (induction "length rs" arbitrary: rs ds thr t s rule: less_induct)
  case less
  show ?case
  proof (cases "\<exists>y \<in> set rs. live_thread s y")
    case False
    obtain l where l: "next_live s = Some (first, s\<lparr>sc_ring := l\<rparr>)" "ring l (ds @ [first])"
      by (rule next_live_ring [OF less.prems(1) _ less.prems(3)]) (use False in auto)
    have "filter (live_thread s) rs = []" using False by (simp add: filter_empty_conv)
    then show ?thesis using loop_step [OF less.prems(4) l(1)] l(2) by (intro exI [of _ l]) simp
  next
    case True
    then obtain d y rs' where rs: "rs = d @ y # rs'" "live_thread s y" "\<forall>z \<in> set d. \<not> live_thread s z"
      using split_list_first_prop [of rs "live_thread s"] by blast
    obtain l where l: "next_live s = Some (y, s\<lparr>sc_ring := l\<rparr>)" "ring l ((rs' @ first # ds) @ [y])"
      by (rule next_live_ring [of s d y "rs' @ first # ds"]) (use rs less.prems(1) in auto)
    let ?s = "s\<lparr>sc_ring := l\<rparr>" let ?t = "min t (wakes s thr)"
    have "\<exists>l'. try_next_loop now first y ?t ?s
        = Some (Inl (fold min (map (wakes ?s) (filter (live_thread ?s) rs')) (min ?t (wakes ?s y))), ?s\<lparr>sc_ring := l'\<rparr>)
        \<and> ring l' ((ds @ [y]) @ filter (live_thread ?s) rs' @ [first])"
      by (rule less.hyps) (use less.prems l(2) rs in auto)
    moreover have "y \<noteq> first" "filter (live_thread s) rs = y # filter (live_thread s) rs'"
      using less.prems(2) rs by (auto simp: filter_empty_conv)
    ultimately show ?thesis using loop_step [OF less.prems(4) l(1)] by (simp add: min.commute)
  qed
qed

lemma try_next_refines:
  assumes "ring (sc_ring s) ts" "distinct ts" "\<exists>t \<in> set ts. live_thread s t"
  shows "\<exists>l. try_next_thread now s = Some (fst (pick (live_thread s) (wakes s) now ts), s\<lparr>sc_ring := l\<rparr>)
    \<and> ring l (snd (pick (live_thread s) (wakes s) now ts))"
proof -
  let ?live = "live_thread s" and ?rdy = "\<lambda>t. live_thread s t \<and> wakes s t \<le> now"
  obtain d first r where ts: "ts = d @ first # r" "?live first" "\<forall>z \<in> set d. \<not> ?live z"
    using split_list_first_prop [OF assms(3)] by blast
  obtain l where l: "next_live s = Some (first, s\<lparr>sc_ring := l\<rparr>)" "ring l (r @ [first])"
    by (rule next_live_ring [of s d first r]) (use ts assms(1) in auto)
  let ?s = "s\<lparr>sc_ring := l\<rparr>"
  have dead: "filter ?live d = []" "takeWhile (\<lambda>t. \<not> ?rdy t) d = d" "dropWhile (\<lambda>t. \<not> ?rdy t) d = []"
    using ts(3) by (auto simp: filter_empty_conv takeWhile_eq_all_conv)
  have go: "try_next_thread now s = try_next_loop now first first TIME_MAX ?s" using l(1) by (simp add: try_next_thread_def)
  consider (first) "wakes s first \<le> now" | (later) "now < wakes s first" "\<exists>x \<in> set r. ?rdy x"
    | (none) "now < wakes s first" "\<forall>x \<in> set r. \<not> ?rdy x" by fastforce
  then show ?thesis
  proof cases
    case first
    have "pick ?live (wakes s) now ts = (Inr first, r @ [first])"
      using first ts dead by (simp add: pick_def dropWhile_append takeWhile_append)
    then show ?thesis using go loop_run [of ?s first now first TIME_MAX] first ts(2) l(2) by auto
  next
    case later
    then obtain pre x post where r: "r = pre @ x # post" "?rdy x" "\<forall>z \<in> set pre. \<not> ?rdy z"
      using split_list_first_prop [of r ?rdy] by blast
    have "\<exists>l'. try_next_loop now first first TIME_MAX ?s = Some (Inr x, ?s\<lparr>sc_ring := l'\<rparr>)
        \<and> ring l' (post @ first # [] @ filter (live_thread ?s) pre @ [x])"
      by (rule loop_ready) (use l(2) r later(1) assms(2) ts(1) in \<open>auto simp: not_le\<close>)
    moreover have "takeWhile (\<lambda>t. \<not> ?rdy t) ts = d @ first # pre" "dropWhile (\<lambda>t. \<not> ?rdy t) ts = x # post"
      using ts(1) dead r later(1) by (auto simp: takeWhile_append2 dropWhile_append2)
    then have "pick ?live (wakes s) now ts = (Inr x, post @ first # filter ?live pre @ [x])"
      using ts(2) dead(1) by (simp add: pick_def)
    ultimately show ?thesis using go by auto
  next
    case none
    have "\<exists>l'. try_next_loop now first first TIME_MAX ?s
        = Some (Inl (fold min (map (wakes ?s) (filter (live_thread ?s) r)) (min TIME_MAX (wakes ?s first))), ?s\<lparr>sc_ring := l'\<rparr>)
        \<and> ring l' ([] @ filter (live_thread ?s) r @ [first])"
      by (rule loop_none) (use l(2) none assms(2) ts in \<open>auto simp: not_le\<close>)
    moreover have "dropWhile (\<lambda>t. \<not> ?rdy t) ts = []" using ts none by (auto simp: dropWhile_eq_Nil_conv)
    then have "pick ?live (wakes s) now ts
        = (Inl (fold min (map (wakes s) (filter ?live r)) (min TIME_MAX (wakes s first))), filter ?live r @ [first])"
      using ts(2) dead(1) by (simp only: pick_def list.case) (simp add: ts(1) min.commute)
    ultimately show ?thesis using go by auto
  qed
qed

section \<open>Fairness\<close>

text \<open>
  A turn of the scheduler in a running system: the threads as they are when it comes, the new threads
  since the last turn in the order they were inserted, and the two readings of the clock.
\<close>

record tick =
  tk_now :: u64
  tk_later :: u64
  tk_threads :: "Thread list"
  tk_gone :: "nat set"
  tk_spawned :: "nat list"

fun insert_all :: "nat list \<Rightarrow> thread_list \<Rightarrow> thread_list panics" where
  "insert_all [] l = Some l"
| "insert_all (t # ts) l = do { l \<leftarrow> rr_insert t l; insert_all ts l }"

fun run_turns :: "tick list \<Rightarrow> sched \<Rightarrow> (turn list \<times> sched) option" where
  "run_turns [] s = Some ([], s)"
| "run_turns (k # ks) s =
     do { l \<leftarrow> insert_all (tk_spawned k) (sc_ring s);
          (r, s) \<leftarrow> next_thread_turn (tk_now k) (tk_later k) (s\<lparr>sc_threads := tk_threads k, sc_gone := tk_gone k, sc_ring := l\<rparr>);
          (rs, s) \<leftarrow> run_turns ks s;
          Some (r # rs, s) }"

definition awake :: "nat \<Rightarrow> tick \<Rightarrow> bool" where
  "awake t k \<longleftrightarrow> t < length (tk_threads k) \<and> t \<notin> tk_gone k \<and> \<not> th_destroyed (tk_threads k ! t)
     \<and> wake_time (tk_threads k ! t) \<le> tk_now k"

definition ahead :: "nat \<Rightarrow> nat list \<Rightarrow> nat" where
  "ahead t ts = length (takeWhile (\<lambda>x. x \<noteq> t) ts)"

lemma ahead_append: "ahead t (xs @ ys) = (if t \<in> set xs then ahead t xs else length xs + ahead t ys)"
  by (induction xs) (auto simp: ahead_def)

lemma insert_all_ring: "ring l ts \<Longrightarrow> \<exists>l'. insert_all ns l = Some l' \<and> ring l' (rev ns @ ts)"
proof (induction ns arbitrary: l ts)
  case (Cons n ns)
  obtain l' where l': "rr_insert n l = Some l'" "ring l' (n # ts)" using insert_ring [OF Cons.prems] by blast
  from Cons.IH [OF l'(2)] l'(1) show ?case by auto
qed simp

text \<open>A thread that is awake runs or moves forward.\<close>

lemma pick_ahead:
  assumes "distinct ts" "t \<in> set ts" "live t" "wk t \<le> now"
  obtains x ts' where "pick live wk now ts = (Inr x, ts')" and "distinct ts'" and "t \<in> set ts'" and "set ts' \<subseteq> set ts"
    and "x \<noteq> t \<longrightarrow> ahead t ts' < ahead t ts"
proof -
  let ?rdy = "\<lambda>t. live t \<and> wk t \<le> now"
  have "\<exists>x \<in> set ts. ?rdy x" using assms by blast
  from split_list_first_prop [OF this]
  obtain pre x post where ts: "ts = pre @ x # post" "?rdy x" "\<forall>z \<in> set pre. \<not> ?rdy z" by blast
  have "takeWhile (\<lambda>t. \<not> ?rdy t) ts = pre" "dropWhile (\<lambda>t. \<not> ?rdy t) ts = x # post"
    using ts by (auto simp: takeWhile_append2 dropWhile_append2)
  then have "pick live wk now ts = (Inr x, post @ filter live pre @ [x])" by (simp add: pick_def)
  moreover have "t \<notin> set pre" using ts(3) assms(3,4) by blast
  then have "x \<noteq> t \<longrightarrow> t \<in> set post" using ts(1) assms(2) by auto
  moreover have "ahead t (x # post) = (if x = t then 0 else Suc (ahead t post))" by (simp add: ahead_def)
  ultimately show ?thesis using \<open>t \<notin> set pre\<close> ts(1) assms(1)
    by (intro that [of x "post @ filter live pre @ [x]"]) (auto simp: ahead_append)
qed

lemma turn_ahead:
  assumes "ring (sc_ring s) ts" "distinct ts" "t \<in> set ts" "live_thread s t" "wakes s t \<le> now"
  obtains x s' ts' where "next_thread_turn now later s = Some (RunThread x, s')" and "ring (sc_ring s') ts'"
    and "distinct ts'" and "t \<in> set ts'" and "set ts' \<subseteq> set ts" and "x \<noteq> t \<longrightarrow> ahead t ts' < ahead t ts"
proof -
  obtain x ts' where p: "pick (live_thread s) (wakes s) now ts = (Inr x, ts')" "distinct ts'" "t \<in> set ts'"
      "set ts' \<subseteq> set ts" "x \<noteq> t \<longrightarrow> ahead t ts' < ahead t ts"
    by (rule pick_ahead [of ts t "live_thread s" "wakes s" now]) (use assms in auto)
  have "\<exists>x \<in> set ts. live_thread s x" using assms(3,4) by blast
  from try_next_refines [OF assms(1,2) this, of now] p(1)
  obtain l where "try_next_thread now s = Some (Inr x, s\<lparr>sc_ring := l\<rparr>)" "ring l ts'" by auto
  with p(2-) show ?thesis by (intro that [of x "s\<lparr>sc_ring := l\<rparr>" ts']) (simp_all add: next_thread_turn_def)
qed

lemma turns_fair:
  assumes "ring (sc_ring s) ts" "distinct (ts @ concat (map tk_spawned ks))" "t \<in> set ts" "\<forall>k \<in> set ks. awake t k"
  shows "\<exists>rs s'. run_turns ks s = Some (rs, s')
    \<and> (ahead t ts + length (concat (map tk_spawned ks)) < length ks \<longrightarrow> RunThread t \<in> set rs)"
  using assms
proof (induction ks arbitrary: s ts)
  case (Cons k ks)
  let ?ns = "tk_spawned k"
  obtain l where l: "insert_all ?ns (sc_ring s) = Some l" "ring l (rev ?ns @ ts)"
    using insert_all_ring [OF Cons.prems(1), of ?ns] by blast
  let ?s = "s\<lparr>sc_threads := tk_threads k, sc_gone := tk_gone k, sc_ring := l\<rparr>"
  have t: "t \<notin> set ?ns" using Cons.prems(2,3) by auto
  have aw: "live_thread ?s t" "wakes ?s t \<le> tk_now k"
    using Cons.prems(4) by (auto simp: awake_def live_thread_def upgrades_def)
  obtain x s' ts' where turn: "next_thread_turn (tk_now k) (tk_later k) ?s = Some (RunThread x, s')" "ring (sc_ring s') ts'"
      "distinct ts'" "t \<in> set ts'" "set ts' \<subseteq> set (rev ?ns @ ts)" "x \<noteq> t \<longrightarrow> ahead t ts' < ahead t (rev ?ns @ ts)"
    by (rule turn_ahead [of ?s "rev ?ns @ ts" t]) (use l Cons.prems(2,3) aw in auto)
  have "distinct (ts' @ concat (map tk_spawned ks))" using turn(3,5) Cons.prems(2) by auto
  from Cons.IH [OF turn(2) this turn(4)] Cons.prems(4)
  obtain rs s'' where ih: "run_turns ks s' = Some (rs, s'')"
      "ahead t ts' + length (concat (map tk_spawned ks)) < length ks \<longrightarrow> RunThread t \<in> set rs" by auto
  have "ahead t (rev ?ns @ ts) = length ?ns + ahead t ts" using t by (simp add: ahead_append)
  then show ?case using l(1) turn(1,6) ih by (cases "x = t") auto
qed simp

text \<open>
  C39. The scheduler is fair: a thread of the ring that is awake at every turn is resumed before the
  number of turns exceeds the number of threads in front of it and of threads inserted in the meantime,
  whatever the other threads do; and no turn panics or touches freed memory.
\<close>

theorem ready_thread_runs:
  assumes "ring (sc_ring s) ts" and "distinct (ts @ concat (map tk_spawned ks))" and "t \<in> set ts"
    and "\<forall>k \<in> set ks. awake t k" and "ahead t ts + length (concat (map tk_spawned ks)) < length ks"
  shows "\<exists>rs s'. run_turns ks s = Some (rs, s') \<and> RunThread t \<in> set rs"
  using turns_fair [OF assms(1-4)] assms(5) by blast

definition thread_example :: Thread where
  "thread_example = \<lparr>th_user_stack = 0, th_kernel_stack = 0, th_kernel_stack_base = 0, th_frame = 0, th_process = None,
     th_sleep = 5, th_wait = 0, th_waiters = [], th_destroyed = False\<rparr>"

definition sched_example :: sched where
  "sched_example = \<lparr>sc_threads = [], sc_gone = {}, sc_ring = \<lparr>tl_len = 2, tl_cur = 0,
     tl_heap = [0 \<mapsto> \<lparr>n_next = 1, n_thread = 1\<rparr>, 1 \<mapsto> \<lparr>n_next = 0, n_thread = 0\<rparr>], tl_top = 2\<rparr>,
     sc_kernel = [], sc_mem = pt_example\<rparr>"

definition tick_example :: "nat list \<Rightarrow> tick" where
  "tick_example ns = \<lparr>tk_now = 9, tk_later = 9, tk_threads = replicate 3 thread_example, tk_gone = {}, tk_spawned = ns\<rparr>"

lemma sched_example_ring: "ring (sc_ring sched_example) [0, 1]"
  by (auto simp: ring_def ring_nodes_def sched_example_def thread_of_def intro!: exI [of _ "[1, 0]"])

theorem ready_thread_runs_witness:
  "\<exists>rs s'. run_turns [tick_example [2], tick_example [], tick_example []] sched_example = Some (rs, s') \<and> RunThread 1 \<in> set rs"
  by (rule ready_thread_runs [OF sched_example_ring])
    (simp_all add: tick_example_def awake_def thread_example_def wake_time_def saturating_add_nanos_def checked_add_nanos_def ahead_def)

section \<open>Threads start and wake\<close>

text \<open>
  The first time a thread is resumed, it gets its handle in \<open>rax\<close> and starts at its entry with its stack,
  in user mode with interrupts enabled.
\<close>

lemma stack_word_plus: "stack_word base (base + n) = unat n div 8" "stack_word base (n + base) = unat n div 8"
  by (simp_all add: stack_word_def)

lemma thread_new_frame:
  assumes "thread_new cur start stack proc kobjs s = Some (Inr th, kobjs', c, m)"
  shows "\<exists>m0. m = m0(th_frame th := (m0 (th_frame th))(511 := USER_SS, 510 := stack, 509 := 0x202, 508 := USER_CS,
      507 := start, 506 := - 1)) \<and> th_kernel_stack th = th_kernel_stack_base th + 3936
    \<and> th_process th = Some proc \<and> \<not> th_destroyed th"
proof -
  obtain f base ks c0 m0 where k: "kernel_stack_new cur kobjs s = Some (Inr (f, base), ks, c0, m0)"
    using assms by (auto simp: thread_new_def split: sum.splits bind_splits)
  have "store f base (n + base) v m1 = m1(f := (m1 f)(unat n div 8 := v))" for n v m1
    by (simp add: store_def stack_word_plus)
  then show ?thesis using assms k
    by (intro exI [of _ m0]) (auto simp: thread_new_def kernel_stack_top_def KERNEL_STACK_SIZE_def)
qed

lemma new_thread_starts:
  assumes "thread_new cur start stack proc kobjs s = Some (Inr th, kobjs', c, m)"
  shows "\<exists>regs. thread_resume th (thread_set_handle th h m)
    = Inr (Some proc, regs @ [ucast h, start, USER_CS, 0x202, stack, USER_SS]) \<and> length regs = 14"
proof -
  obtain m0 where m: "m = m0(th_frame th := (m0 (th_frame th))(511 := USER_SS, 510 := stack, 509 := 0x202, 508 := USER_CS,
      507 := start, 506 := - 1))" and th: "th_kernel_stack th = th_kernel_stack_base th + 3936"
      "th_process th = Some proc" "\<not> th_destroyed th"
    using thread_new_frame [OF assms] by blast
  let ?m = "thread_set_handle th h m"
  let ?reg = "\<lambda>i. ?m (th_frame th) (stack_word (th_kernel_stack_base th) (th_kernel_stack th + of_nat i * 8))"
  have m': "?m (th_frame th) = (m (th_frame th))(506 := ucast h)"
    using stack_word_plus(1) [of "th_kernel_stack_base th" 4048] by (simp add: thread_set_handle_def store_def th add.assoc)
  have w: "stack_word (th_kernel_stack_base th) (th_kernel_stack th + n * 8) = unat (3936 + n * 8) div 8" for n
    using stack_word_plus(1) [of "th_kernel_stack_base th" "3936 + n * 8"] by (simp add: th add.assoc)
  have "map ?reg [14..<20] = [ucast h, start, USER_CS, 0x202, stack, USER_SS]"
    unfolding w m' by (simp add: upt_rec m)
  then have "map ?reg [0..<20] = map ?reg [0..<14] @ [ucast h, start, USER_CS, 0x202, stack, USER_SS]"
    using upt_add_eq_append [of 0 14 6] by simp
  then show ?thesis using th by (simp add: thread_resume_def)
qed

text \<open>A wake-up ends a wait, but not a sleep.\<close>

lemma wake_ends_wait: "wake_time (thread_wake (wait_until now d th)) = now"
  using unsigned_less [of now, where 'a = nat]
  by (simp add: wake_time_def thread_wake_def wait_until_def saturating_add_nanos_def checked_add_nanos_def)

lemma wake_keeps_sleep: "wake_time (thread_wake (sleep_until t th)) = t"
  by (simp add: sleep_until_def wake_ends_wait)

text \<open>
  A wake-up that comes after a thread looked at its condition and before it waits is lost: the thread
  then waits until the end of time, or until another wake-up.
\<close>

lemma wake_before_wait_is_lost: "wake_time (wait_until now (- 1) (thread_wake th)) = TIME_MAX"
proof -
  have "unat now + unat (- 1 :: u64) < 2 ^ 64 \<Longrightarrow> now = 0"
    by (simp add: unsigned_minus_1_eq_mask mask_eq_exp_minus_1 unat_eq_zero)
  then show ?thesis by (auto simp: wake_time_def wait_until_def thread_wake_def saturating_add_nanos_def
      checked_add_nanos_def TIME_MAX_def)
qed

end
