(* ===== verification/Spec2Isabelle.thy ===== *)
theory Spec2Isabelle
  imports Dma Message_Pipe Queue_Setup Window_Manager Stream_Refinement Root_Table Scheduler
begin

text \<open>
  A verification development for Norost B, an operating system in Rust: its kernel (\<open>kernel/\<close>), the
  libraries that programs and the kernel share (\<open>lib/rust/\<close>) and its window manager
  (\<open>base/window_manager/\<close>). All paths are below \<open>src/\<close>.

  \<^bold>\<open>How the system works.\<close> The kernel owns the physical memory and hands frames out to address spaces,
  to page tables and to objects. A program names objects by handles, which are indices of an arena of
  its process. It talks to the kernel through system calls and through a pair of rings in memory that
  both sides map: it writes requests into one ring, the kernel carries them out on the objects and
  writes responses into the other. An operation that cannot finish at once leaves a ticket behind,
  which is completed later. Pipes and message pipes are objects inside the kernel; an object that
  another program provides is reached through a streaming table, whose queue and buffers are again in
  shared memory.

  \<^bold>\<open>Conventions.\<close> \<open>Prelude\<close> has the machine integers and the shared lemmas. A function that may panic
  answers an option and \<open>None\<close> is the panic; a \<open>Result\<close> is a sum with \<open>Inl\<close> for the error. Arithmetic
  is that of the release profile: it wraps, and debug assertions are off. State that the code mutates
  is passed explicitly as a record; locks are taken to be held for a whole operation, except where the
  interleaving is the subject. Loops without an evident bound are partial functions in the option
  monad or functions with a termination proof, and the theorems about them state that they return.

  \<^bold>\<open>Theories.\<close>
  \<^item> \<open>Arena\<close> (\<open>lib/rust/arena\<close>): the arena with generations that processes, tables and queues use. It
    provides the interface \<open>handle_table\<close>, a finite map from handles to values.
  \<^item> \<open>Handle_Arena\<close> (\<open>lib/rust/driver_utils/src/arena.rs\<close>): the arena with 32-bit handles of drivers, a
    second provider of that interface.
  \<^item> \<open>Linked_Stack\<close>: the interface \<open>link_store\<close> of a stack whose links are stored in its elements, used
    by the chain of free frames and by the free blocks of the stream buffers.
  \<^item> \<open>Frame_Allocator\<close>, \<open>Fixed_Bitmap\<close>, \<open>Dma\<close> (\<open>kernel/src/memory/frame\<close>): free frames, contiguous
    frames, initialisation from the boot information and DMA objects.
  \<^item> \<open>Kernel_Api\<close>, \<open>Io_Request\<close>, \<open>Io_Ring\<close> (\<open>lib/rust/kernel\<close>): errors, permissions, encodings of objects
    and requests, the shared rings with the interface \<open>bounded_fifo\<close>.
  \<^item> \<open>Ticket\<close>, \<open>Pipe\<close>, \<open>Message_Pipe\<close> (\<open>kernel/src/object_table\<close>): jobs that complete later and the two
    kinds of pipes.
  \<^item> \<open>Process\<close>, \<open>Process_Io\<close> (\<open>kernel/src/scheduler/process\<close>): handles, threads and exit of a process,
    and the processing of its request ring.
  \<^item> \<open>Io_Queue\<close> (\<open>lib/rust/io_queue\<close>): the program's side of the rings, and the flow of requests and
    responses between a program and the kernel in any order.
  \<^item> \<open>Queue_Setup\<close>: creating and destroying an I/O queue, from the library through the system call
    (\<open>kernel/src/scheduler/syscall.rs\<close>) to the process and its address space
    (\<open>kernel/src/scheduler/process/io.rs\<close>).
  \<^item> \<open>Page_Table\<close>, \<open>Address_Space\<close> (\<open>kernel/src/arch/amd64/virtual\<close>), \<open>Virtual_Memory\<close>
    (\<open>kernel/src/memory/virtual\<close>): page tables in physical memory, address spaces, mapped objects,
    permission masks and subranges.
  \<^item> \<open>Stream_Buffers\<close>, \<open>Stream_Queue\<close> (\<open>lib/rust/ipc/stream_table\<close>): the shared buffers with their scatter
    lists and free blocks, and the two queues of a streaming table.
  \<^item> \<open>Streaming\<close> (\<open>kernel/src/object_table/streaming.rs\<close>) and \<open>Stream_Server\<close>
    (\<open>lib/rust/driver_utils/src/os/stream_table.rs\<close>): the kernel's and the server's side of a streaming
    table. \<open>Stream_Data\<close> says which bytes a scatter list holds; \<open>Stream_Service\<close> puts the two sides together
    and states the service they implement; \<open>Stream_Simulation\<close> and \<open>Stream_Refinement\<close> prove that they do.
  \<^item> \<open>Root_Table\<close> (\<open>kernel/src/object_table/root.rs\<close>, \<open>query.rs\<close>): tables of named objects, nested roots,
    paths and queries.
  \<^item> \<open>Scheduler\<close> (\<open>kernel/src/scheduler\<close>: \<open>thread.rs\<close>, \<open>round_robin.rs\<close>, \<open>waker.rs\<close>, \<open>mod.rs\<close>; \<open>kernel/src/time\<close>):
    threads with their kernel stacks, the ring of threads as a heap of nodes, the choice of the next one.
  \<^item> \<open>Workspace\<close>, \<open>Window_Manager\<close> (\<open>base/window_manager\<close>): the tree of windows and the paths to them.

  \<^bold>\<open>What the lemmas show.\<close> The arenas, the rings and the allocators are proved to implement a finite map,
  a bounded queue and a set of free frames or blocks, with invariants that every operation keeps.
  Encodings are proved to be inverse to their decodings. Page tables and address spaces are proved by
  what every address leads to before and after an operation. Tickets, pipes and the I/O queue are
  proved by what happens to every byte, request and response; the two sides of an I/O queue are proved
  to agree on its rings from its creation on, and runs of both to lose no response unless a handler
  panics or a handle that names nothing is closed. The streaming table is a refinement of
  a service that passes bytes. The scheduler is a refinement of a rotation of a list of threads, from
  which its fairness follows. A lemma that shows a flaw of the code is named in the text before it.

  \<^bold>\<open>Bounds and loops.\<close> Addresses, frame numbers and the indices of rings keep their widths; lengths of
  vectors and counters bounded by memory are natural numbers. No theorem relies on fuel: the loop of
  \<open>process_requests\<close> is shown to end after the requests that were in the ring, the loop of
  \<open>try_next_thread\<close> after at most one round of the ring, and the theorems about the other loops state that
  they return. A loop that waits for another thread takes what the others do as an argument.

  \<^bold>\<open>Parameters.\<close> The interface of the streaming tables is generated at build time; its accessors are the
  records \<open>raw_codec\<close> and \<open>id_codec\<close> with the hypotheses \<open>codec_ok\<close> and \<open>ids_ok\<close>, and an instance is at the end
  of this theory. The methods of objects that a component only calls are records of functions.

  \<^bold>\<open>Not modelled.\<close> The system call handlers other than those of \<open>Queue_Setup\<close> unpack registers and call the
  operations above, and the ELF loader and the process builder combine them; they are left out. So are the kernel's heap and locks: values
  are passed and an operation holds its lock throughout. The boot loader, the start-up of the kernel,
  interrupt entry and context switches are assembly or act on registers of the processor. Drivers and
  device libraries act on registers and rings whose other side is hardware. The asynchronous runtimes
  depend on executors outside of the source, and the programs other than the window manager's tree of
  windows are event loops over system objects. When the last reference to an object disappears, its
  drop is modelled for the objects that do something then, not for the memory it frees.
\<close>

section \<open>Streaming tables\<close>

text \<open>
  C37. The kernel and the server of a streaming table, with their rings, arenas, scatter lists and
  shared free blocks, implement a service that passes calls and answers with their bytes. Whatever
  calls, taken requests and answers are in flight, every action that the service allows is carried out
  without a panic: the server sees the calls in order and with the bytes the caller passed, each
  answer reaches the ticket of its own call, and no block is lost or used twice.
\<close>

theorem stream_service_refines:
  assumes "implements ic B mx s a" and "allowed B mx act a"
  shows "\<exists>s' a'. exec ic act s = Some s' \<and> rpc_step B mx act a a' \<and> implements ic B mx s' a'"
  by (rule service_step [OF assms])

text \<open>An instance of the generated interface: 64-bit unions and 32-bit job identifiers.\<close>

definition slice_word :: "Slice \<Rightarrow> u64" where
  "slice_word s = ucast (sl_offset s) OR push_bit 32 (ucast (sl_length s))"

definition word_slice :: "u64 \<Rightarrow> Slice" where
  "word_slice w = \<lparr>sl_offset = ucast w, sl_length = ucast (drop_bit 32 w)\<rparr>"

definition word_codec :: "(u64, u64) raw_codec" where
  "word_codec = \<lparr>args_default = 0, set_amount = ucast, get_amount = ucast, set_slice = slice_word, get_slice = word_slice,
     set_offset_u = id, get_offset_u = id, set_offset_s = id, get_offset_s = id, set_share = ucast, get_share = ucast,
     val_error = id, val_position = id, val_handle = ucast, val_amount = ucast, val_slice = slice_word, val_raw = id,
     get_raw = id, slice_from_raw = word_slice\<rparr>"

definition word_ids :: "(u64, u64, u32) id_codec" where
  "word_ids = \<lparr>jnew = \<lambda>n. if n < 2 ^ 24 then Some (of_nat n) else None, jget = unat, jdefault = 0, jraw = word_codec\<rparr>"

lemma word_slice_inverse [simp]: "word_slice (slice_word s) = s"
proof -
  have "(ucast (ucast x OR push_bit 32 (ucast y) :: u64) :: u32) = x" for x y :: u32
    by (rule bit_word_eqI) (auto simp: bit_ucast_iff bit_or_iff bit_push_bit_iff)
  moreover have "(ucast (drop_bit 32 (ucast x OR push_bit 32 (ucast y) :: u64)) :: u32) = y" for x y :: u32
    by (rule bit_word_eqI) (auto simp: bit_ucast_iff bit_or_iff bit_push_bit_iff bit_drop_bit_eq dest: bit_imp_le_length)
  ultimately show ?thesis by (simp only: word_slice_def slice_word_def) simp
qed

lemma word_ids_ok: "ids_ok word_ids"
proof -
  have "(ucast (ucast x :: u64) :: u32) = x" for x :: u32
    by (rule bit_word_eqI) (simp add: bit_ucast_iff)
  then have "codec_ok word_codec"
    using word_slice_inverse by (simp add: codec_ok_def word_codec_def slice_word_def)
  then show ?thesis by (auto simp: ids_ok_def word_ids_def unat_of_nat_small)
qed

definition start_table :: "(u64, u64, u32, unit) kstate" where
  "start_table = \<lparr>ks_alive = True, ks_jobs = arena_default (), ks_shared = None, ks_queue = client_new,
     ks_buffers = four_blocks, ks_wait_read = [], ks_max_request_mem = 99, ks_share_out = arena_default (),
     ks_mem = \<lparr>m_request_tail = 0, m_request_head = 0, m_response_tail = 0, m_response_head = 0,
       m_responses = replicate 128 \<lparr>rp_id = 0, rp_value = 0\<rparr>,
       m_requests = replicate 128 \<lparr>rr_ty = Some TyRead, rr_id = 0, rr_handle = 0, rr_args = 0\<rparr>\<rparr>,
     ks_buf = (- 1, \<lambda>_. 0), ks_obj = \<lparr>cells = [], woken = []\<rparr>, ks_data = \<lparr>cells = [], woken = []\<rparr>,
     ks_u64 = \<lparr>cells = [], woken = []\<rparr>\<rparr>"

theorem stream_service_refines_witness:
  "\<exists>k s' a a'. srv_new start_table = Some (server_new, k)
     \<and> exec word_ids (Call 7 (CallWrite [1, 2, 3])) (k, server_new, []) = Some s'
     \<and> rpc_step four_blocks 99 (Call 7 (CallWrite [1, 2, 3])) a a' \<and> implements word_ids four_blocks 99 s' a'
     \<and> a_free a = 4 \<and> a_sent a = []"
proof -
  let ?a = "\<lambda>k. \<lparr>a_free = 4, a_sent = [], a_held = [], a_answers = [], a_jobs = Map.empty, a_done = result_of k, a_waiting = []\<rparr>"
  obtain k where k: "srv_new start_table = Some (server_new, k)" "implements word_ids four_blocks 99 (k, server_new, []) (?a k)"
    using service_starts [OF word_ids_ok four_free(1), of start_table "\<lambda>_. 0"] by (auto simp: start_table_def four_blocks_def)
  have "allowed four_blocks 99 (Call 7 (CallWrite [1, 2, 3])) (?a k)"
    by (simp add: op_sent_def blocks_needed_def four_blocks_def)
  from stream_service_refines [OF k(2) this] k(1) show ?thesis by force
qed

end
